(* ===== verification/Prelude.thy ===== *)
theory Prelude
  imports Main "HOL-Library.Word"
begin

unbundle bit_operations_syntax

text \<open>
  The vocabulary shared by every component of the xv6 development.

  \<^item> C integers keep their width: \<open>uint\<close> and \<open>int\<close> are 32-bit words (an \<open>int\<close> is read with
    \<open>sint\<close> where the code compares it), \<open>ushort\<close>/\<open>short\<close> are 16-bit and \<open>uchar\<close> is
    8-bit (\<^verbatim>\<open>types.h\<close>).
  \<^item> A kernel routine is a function from the state to \<open>stop + result\<close>.  \<open>Inl\<close> is the place
    where the sequential run ends: a \<open>panic\<close>, a spin on a lock that another CPU holds, a
    \<open>sleep\<close> whose wake-up comes from somebody else, or a read outside of what the model
    covers.  \<open>bnd\<close> chains routines in program order.
  \<^item> A C loop that walks a table and stops at the first entry with a property is
    \<open>first_idx\<close>.
\<close>

type_synonym u8 = "8 word"
type_synonym u16 = "16 word"
type_synonym u32 = "32 word"
type_synonym i32 = "32 word"

named_theorems lock_simps \<open>acquire and release on a free lock\<close>
named_theorems res_iff \<open>when a chained routine succeeds\<close>

text \<open>Parameters of the kernel (\<^verbatim>\<open>param.h\<close>).\<close>

definition NPROC :: nat where [simp]: "NPROC = 64"
definition KSTACKSIZE :: u32 where [simp]: "KSTACKSIZE = 4096"
definition NCPU :: nat where [simp]: "NCPU = 8"
definition NOFILE :: nat where [simp]: "NOFILE = 16"
definition NFILE :: nat where [simp]: "NFILE = 100"
definition NINODE :: nat where [simp]: "NINODE = 50"
definition NDEV :: nat where [simp]: "NDEV = 10"
definition ROOTDEV :: nat where [simp]: "ROOTDEV = 1"
definition MAXARG :: nat where [simp]: "MAXARG = 32"
definition MAXOPBLOCKS :: nat where [simp]: "MAXOPBLOCKS = 10"
definition LOGSIZE :: nat where [simp]: "LOGSIZE = MAXOPBLOCKS * 3"
definition NBUF :: nat where [simp]: "NBUF = MAXOPBLOCKS * 3"
definition FSSIZE :: nat where [simp]: "FSSIZE = 1000"

text \<open>
  The addresses the kernel passes to \<open>sleep\<close> and \<open>wakeup\<close>: the tick counter, a process
  (\<open>wait\<close>), the lock of a buffer or of an inode, a buffer waiting for the disk, the log, the
  two counters of a pipe, and the console input buffer.
\<close>

datatype chan =
    ChTicks
  | ChProc nat
  | ChBufLock nat
  | ChInodeLock nat
  | ChBuf nat
  | ChLog
  | ChNread u32
  | ChNwrite u32
  | ChInput

datatype stop =
    Panic string
  | Spin
  | Sleeping chan
  | OutOfRange

type_synonym 'a res = "stop + 'a"

definition bnd :: "'a res \<Rightarrow> ('a \<Rightarrow> 'b res) \<Rightarrow> 'b res" where
  "bnd m f = (case m of Inl e \<Rightarrow> Inl e | Inr x \<Rightarrow> f x)"

definition panic :: "string \<Rightarrow> 'a res" where
  "panic msg = Inl (Panic msg)"

definition panics :: "string \<Rightarrow> 'a res \<Rightarrow> bool" where
  "panics msg r = (case r of Inl (Panic m) \<Rightarrow> m = msg | _ \<Rightarrow> False)"

primrec first_idx :: "('a \<Rightarrow> bool) \<Rightarrow> 'a list \<Rightarrow> nat option" where
  "first_idx P [] = None"
| "first_idx P (x # xs) = (if P x then Some 0 else map_option Suc (first_idx P xs))"

definition upd :: "nat \<Rightarrow> ('a \<Rightarrow> 'a) \<Rightarrow> 'a list \<Rightarrow> 'a list" where
  "upd i f xs = xs[i := f (xs ! i)]"

text \<open>\<open>foldm f xs\<close> is a counted loop whose body may end the run.\<close>

fun foldm :: "('a \<Rightarrow> 's \<Rightarrow> 's res) \<Rightarrow> 'a list \<Rightarrow> 's \<Rightarrow> 's res" where
  "foldm f [] s = Inr s"
| "foldm f (x # xs) s = bnd (f x s) (foldm f xs)"

text \<open>
  Evaluation takes the second routine of a chain only once the first has returned.
\<close>

declare bnd_def [code_unfold]

text \<open>The relation of a chained routine to its parts.\<close>

lemma bnd_Inr [simp]: "bnd (Inr x) f = f x"
  by (simp add: bnd_def)

lemma bnd_Inl [simp]: "bnd (Inl e) f = Inl e"
  by (simp add: bnd_def)

lemma bnd_panic [simp]: "bnd (panic msg) f = panic msg"
  by (simp add: panic_def)

lemma panic_not_Inr [simp]: "panic msg \<noteq> Inr x" "Inr x \<noteq> panic msg"
  by (simp_all add: panic_def)

lemma panic_inject [simp]: "panic a = panic b \<longleftrightarrow> a = b"
  by (simp add: panic_def)

lemma panics_iff: "panics msg r \<longleftrightarrow> r = panic msg"
  by (auto simp: panics_def panic_def split: sum.splits stop.splits)

lemma bnd_eq_Inr_iff [res_iff]: "bnd m f = Inr y \<longleftrightarrow> (\<exists>x. m = Inr x \<and> f x = Inr y)"
  by (cases m) auto

lemma bnd_assoc: "bnd (bnd m f) g = bnd m (\<lambda>x. bnd (f x) g)"
  by (cases m) auto

lemma bnd_cong [fundef_cong]:
  "m = m' \<Longrightarrow> (\<And>x. m' = Inr x \<Longrightarrow> f x = f' x) \<Longrightarrow> bnd m f = bnd m' f'"
  by (cases m') auto

lemma foldm_append: "foldm f (xs @ ys) s = bnd (foldm f xs s) (foldm f ys)"
proof (induction xs arbitrary: s)
  case (Cons x xs)
  then show ?case by (cases "f x s") simp_all
qed simp

text \<open>What the first hit of a table walk says about the table.\<close>

lemma first_idx_None_iff [simp]: "first_idx P xs = None \<longleftrightarrow> (\<forall>x\<in>set xs. \<not> P x)"
  by (induction xs) auto

lemma first_idx_Some_iff:
  "first_idx P xs = Some i \<longleftrightarrow> i < length xs \<and> P (xs ! i) \<and> (\<forall>j<i. \<not> P (xs ! j))"
proof (induction xs arbitrary: i)
  case Nil
  then show ?case by simp
next
  case (Cons x xs)
  show ?case
  proof (cases i)
    case 0
    then show ?thesis by (auto split: if_splits)
  next
    case (Suc k)
    then show ?thesis
      using Cons.IH [of k] by (auto simp: All_less_Suc2)
  qed
qed

lemma first_idx_SomeD:
  assumes "first_idx P xs = Some i"
  shows "i < length xs" and "P (xs ! i)" and "\<And>j. j < i \<Longrightarrow> \<not> P (xs ! j)"
  using assms by (auto simp: first_idx_Some_iff)

lemma first_idx_ex: "x \<in> set xs \<Longrightarrow> P x \<Longrightarrow> \<exists>i. first_idx P xs = Some i"
  by (cases "first_idx P xs") auto

lemma length_upd [simp]: "length (upd i f xs) = length xs"
  by (simp add: upd_def)

lemma nth_upd [simp]:
  "j < length xs \<Longrightarrow> upd i f xs ! j = (if i = j then f (xs ! j) else xs ! j)"
  by (auto simp: upd_def nth_list_update)

lemma nth_upd_if: "upd i f xs ! j = (if i = j \<and> i < length xs then f (xs ! i) else xs ! j)"
  by (cases "i < length xs") (auto simp: upd_def list_update_beyond)

lemma upd_same: "upd i (\<lambda>x. x) xs = xs"
  by (simp add: upd_def)

lemma set_upd_subset: "set (upd i f xs) \<subseteq> insert (f (xs ! i)) (set xs)"
  by (simp add: upd_def set_update_subset_insert)

text \<open>Reading 32-bit words as numbers.\<close>

lemma unat_u32_less: "unat (w :: u32) < 4294967296"
  using unsigned_less [of w, where ?'a = nat] by simp

lemma unat_of_nat_u32: "n < 4294967296 \<Longrightarrow> unat (of_nat n :: u32) = n"
  using take_bit_nat_eq_self [of n 32] by (simp add: unsigned_of_nat)

lemma unat_u32_sub:
  "unat (a - b :: u32) = (if unat b \<le> unat a then unat a - unat b else 4294967296 + unat a - unat b)"
  by (simp add: unat_sub_if') linarith

lemma unat_pred_u32: "x \<noteq> 0 \<Longrightarrow> unat (x - 1 :: u32) < unat x"
  using unat_gt_0 [of x] by (simp add: unat_u32_sub Suc_le_eq)

lemma unat_u32_add:
  "unat (a + b :: u32) =
     (if unat a + unat b < 4294967296 then unat a + unat b else unat a + unat b - 4294967296)"
  by (simp add: unat_plus_if')

text \<open>The ring arithmetic \<open>(i + 1) % n\<close> used by the run queues and the pipe.\<close>

lemma mod_ring_inj:
  fixes i j h n :: nat
  assumes "i < n" and "j < n" and "(h + i) mod n = (h + j) mod n"
  shows "i = j"
proof (rule ccontr)
  assume "i \<noteq> j"
  then have "n dvd (h + max i j) - (h + min i j)"
    using assms(3) mod_eq_dvd_iff_nat [of "h + min i j" "h + max i j" n]
    by (auto simp: max_def min_def split: if_splits)
  then have "n dvd max i j - min i j" by simp
  then have "max i j - min i j = 0"
    using assms(1,2) by (metis dvd_imp_le leD less_imp_diff_less max_less_iff_conj neq0_conv)
  with \<open>i \<noteq> j\<close> show False by auto
qed

end
