(* ===== verification/Spinlock.thy ===== *)
theory Spinlock
  imports Prelude
begin

text \<open>
  Spin locks and nested interrupt disabling (\<^verbatim>\<open>spinlock.c\<close>, and \<open>mycpu\<close> of
  \<^verbatim>\<open>proc.c\<close>).

  \<open>cpu\<close> is the part of \<open>struct cpu\<close> the code reads, with the interrupt flag of the
  processor's EFLAGS register; \<open>spinlock\<close> is the lock word and the CPU that holds it (the
  debugging fields \<open>name\<close> and \<open>pcs\<close> have no effect on the code and are left out).
  \<open>acquire\<close> of a lock that another CPU holds is \<open>Spin\<close>: the \<open>xchg\<close> loop leaves memory as it
  is until the lock is released.  The step relation \<open>lock_step\<close> interleaves any number of
  CPUs that take and drop one lock, one \<open>xchg\<close> at a time.
\<close>

record cpu =
  cpu_id :: nat
  ncli :: int
  intena :: bool
  iflag :: bool
  cpu_proc :: "nat option"

record spinlock =
  locked :: bool
  lcpu :: "nat option"

definition initlock :: spinlock where
  "initlock = \<lparr>locked = False, lcpu = None\<rparr>"

definition mycpu :: "u8 list \<Rightarrow> u8 \<Rightarrow> bool \<Rightarrow> nat res" where
  "mycpu apicids lapicid fl_if =
     (if fl_if then panic ''mycpu called with interrupts enabled''
      else case first_idx (\<lambda>a. a = lapicid) apicids of
             Some i \<Rightarrow> Inr i
           | None \<Rightarrow> panic ''unknown apicid'')"

definition pushcli :: "cpu \<Rightarrow> cpu" where
  "pushcli c =
     (let eflags = iflag c;
          c = c\<lparr>iflag := False\<rparr>;
          c = (if ncli c = 0 then c\<lparr>intena := eflags\<rparr> else c)
      in c\<lparr>ncli := ncli c + 1\<rparr>)"

definition popcli :: "cpu \<Rightarrow> cpu res" where
  "popcli c =
     (if iflag c then panic ''popcli - interruptible''
      else let c = c\<lparr>ncli := ncli c - 1\<rparr>
           in if ncli c < 0 then panic ''popcli''
              else if ncli c = 0 \<and> intena c then Inr (c\<lparr>iflag := True\<rparr>)
              else Inr c)"

definition holding :: "cpu \<Rightarrow> spinlock \<Rightarrow> (bool \<times> cpu) res" where
  "holding c lk =
     (let c = pushcli c;
          r = (locked lk \<and> lcpu lk = Some (cpu_id c))
      in bnd (popcli c) (\<lambda>c. Inr (r, c)))"

definition acquire :: "cpu \<Rightarrow> spinlock \<Rightarrow> (cpu \<times> spinlock) res" where
  "acquire c lk =
     (let c = pushcli c
      in bnd (holding c lk) (\<lambda>(h, c).
           if h then panic ''acquire''
           else if locked lk then Inl Spin
           else Inr (c, lk\<lparr>locked := True, lcpu := Some (cpu_id c)\<rparr>)))"

definition release :: "cpu \<Rightarrow> spinlock \<Rightarrow> (cpu \<times> spinlock) res" where
  "release c lk =
     bnd (holding c lk) (\<lambda>(h, c).
       if \<not> h then panic ''release''
       else bnd (popcli c) (\<lambda>c. Inr (c, lk\<lparr>locked := False, lcpu := None\<rparr>)))"

text \<open>
  One lock shared by CPUs that are outside, in the \<open>xchg\<close> loop of \<open>acquire\<close>, or holding it.
  \<open>enter\<close> is \<open>pushcli\<close> and the \<open>holding\<close> test, \<open>grab\<close> the \<open>xchg\<close> that finds 0 with the
  bookkeeping after it, \<open>spin\<close> the \<open>xchg\<close> that finds 1.
\<close>

datatype lock_pc = Outside | Trying | Holding

record lock_sys =
  lcpus :: "nat \<Rightarrow> cpu"
  lpcs :: "nat \<Rightarrow> lock_pc"
  the_lock :: spinlock

inductive lock_step :: "lock_sys \<Rightarrow> lock_sys \<Rightarrow> bool" where
  enter: "lpcs s i = Outside \<Longrightarrow> holding (pushcli (lcpus s i)) (the_lock s) = Inr (False, c) \<Longrightarrow>
     lock_step s (s\<lparr>lcpus := (lcpus s)(i := c), lpcs := (lpcs s)(i := Trying)\<rparr>)"
| spin: "lpcs s i = Trying \<Longrightarrow> locked (the_lock s) \<Longrightarrow> lock_step s s"
| grab: "lpcs s i = Trying \<Longrightarrow> \<not> locked (the_lock s) \<Longrightarrow>
     lock_step s (s\<lparr>lpcs := (lpcs s)(i := Holding),
       the_lock := (the_lock s)\<lparr>locked := True, lcpu := Some (cpu_id (lcpus s i))\<rparr>\<rparr>)"
| drop: "lpcs s i = Holding \<Longrightarrow> release (lcpus s i) (the_lock s) = Inr (c, lk) \<Longrightarrow>
     lock_step s (s\<lparr>lcpus := (lcpus s)(i := c), lpcs := (lpcs s)(i := Outside), the_lock := lk\<rparr>)"

inductive lock_reach :: "lock_sys \<Rightarrow> bool" where
  start: "(\<forall>i. cpu_id (cs i) = i \<and> ncli (cs i) = 0) \<Longrightarrow>
     lock_reach \<lparr>lcpus = cs, lpcs = (\<lambda>_. Outside), the_lock = initlock\<rparr>"
| step: "lock_reach s \<Longrightarrow> lock_step s t \<Longrightarrow> lock_reach t"

text \<open>
  The state between kernel routines: a free lock, and a CPU whose interrupts are off
  whenever it is inside a critical section.
\<close>

definition cpu_ok :: "cpu \<Rightarrow> bool" where
  "cpu_ok c \<longleftrightarrow> 0 \<le> ncli c \<and> (0 < ncli c \<longrightarrow> \<not> iflag c)"

definition settle :: "cpu \<Rightarrow> cpu" where
  "settle c = (if ncli c = 0 then c\<lparr>intena := iflag c\<rparr> else c)"

subsection \<open>pushcli and popcli\<close>

lemma pushcli_simps [simp]:
  "ncli (pushcli c) = ncli c + 1"
  "iflag (pushcli c) = False"
  "cpu_id (pushcli c) = cpu_id c"
  "cpu_proc (pushcli c) = cpu_proc c"
  by (simp_all add: pushcli_def Let_def)

lemma settle_simps [simp]:
  "ncli (settle c) = ncli c"
  "iflag (settle c) = iflag c"
  "cpu_id (settle c) = cpu_id c"
  "cpu_proc (settle c) = cpu_proc c"
  "settle (settle c) = settle c"
  by (simp_all add: settle_def)

lemma cpu_ok_settle [simp]: "cpu_ok (settle c) = cpu_ok c"
  by (simp add: cpu_ok_def)

lemma cpu_ok_pushcli [simp]: "cpu_ok c \<Longrightarrow> cpu_ok (pushcli c)"
  by (simp add: cpu_ok_def)

lemma popcli_pushcli [lock_simps]: "cpu_ok c \<Longrightarrow> popcli (pushcli c) = Inr (settle c)"
  by (cases c) (auto simp: popcli_def pushcli_def settle_def cpu_ok_def Let_def panic_def)

lemma settle_pushcli [simp]: "cpu_ok c \<Longrightarrow> settle (pushcli c) = pushcli c"
  by (auto simp: settle_def cpu_ok_def)

lemma pushcli_settle [simp]: "pushcli (settle c) = pushcli c"
  by (simp add: pushcli_def settle_def Let_def)

lemma holding_eq [lock_simps]:
  "cpu_ok c \<Longrightarrow> holding c lk = Inr (locked lk \<and> lcpu lk = Some (cpu_id c), settle c)"
  by (simp add: holding_def Let_def popcli_pushcli)

lemma acquire_free [lock_simps]:
  "cpu_ok c \<Longrightarrow> \<not> locked lk \<Longrightarrow>
     acquire c lk = Inr (pushcli c, lk\<lparr>locked := True, lcpu := Some (cpu_id c)\<rparr>)"
  by (simp add: acquire_def Let_def holding_eq)

lemma release_held [lock_simps]:
  "cpu_ok c \<Longrightarrow> locked lk \<Longrightarrow> lcpu lk = Some (cpu_id c) \<Longrightarrow>
     release (pushcli c) lk = Inr (settle c, lk\<lparr>locked := False, lcpu := None\<rparr>)"
  by (simp add: release_def holding_eq popcli_pushcli)


subsection \<open>Panics of the lock operations\<close>

lemma acquire_held_panics:
  "cpu_ok c \<Longrightarrow> locked lk \<Longrightarrow> lcpu lk = Some (cpu_id c) \<Longrightarrow> acquire c lk = panic ''acquire''"
  by (simp add: acquire_def Let_def holding_eq)

lemma acquire_other_spins:
  "cpu_ok c \<Longrightarrow> locked lk \<Longrightarrow> lcpu lk \<noteq> Some (cpu_id c) \<Longrightarrow> acquire c lk = Inl Spin"
  by (simp add: acquire_def Let_def holding_eq)

lemma release_unheld_panics:
  "cpu_ok c \<Longrightarrow> \<not> (locked lk \<and> lcpu lk = Some (cpu_id c)) \<Longrightarrow> release c lk = panic ''release''"
  by (auto simp: release_def holding_eq)

lemma release_pushed:
  assumes "ncli c = 1" and "\<not> iflag c" and "locked lk" and "lcpu lk = Some (cpu_id c)"
  shows "release c lk = Inr (c\<lparr>ncli := 0, iflag := intena c\<rparr>, lk\<lparr>locked := False, lcpu := None\<rparr>)"
  using assms
  by (cases c) (auto simp: release_def holding_eq cpu_ok_def settle_def popcli_def Let_def panic_def)

subsection \<open>Nesting: n pushcli are undone by n popcli\<close>

primrec popclis :: "nat \<Rightarrow> cpu \<Rightarrow> cpu res" where
  "popclis 0 c = Inr c"
| "popclis (Suc n) c = bnd (popcli c) (popclis n)"

lemma cpu_ok_pushclis: "cpu_ok c \<Longrightarrow> cpu_ok ((pushcli ^^ n) c)"
  by (induction n) auto

lemma popclis_pushclis: "cpu_ok c \<Longrightarrow> popclis (Suc n) ((pushcli ^^ Suc n) c) = Inr (settle c)"
proof (induction n)
  case 0
  then show ?case by (simp add: popcli_pushcli)
next
  case (Suc n)
  have "popcli (pushcli ((pushcli ^^ Suc n) c)) = Inr (settle ((pushcli ^^ Suc n) c))"
    by (rule popcli_pushcli) (rule cpu_ok_pushclis [OF Suc.prems])
  moreover have "settle ((pushcli ^^ Suc n) c) = (pushcli ^^ Suc n) c"
    using cpu_ok_pushclis [OF Suc.prems, of n] by simp
  moreover have "(pushcli ^^ Suc (Suc n)) c = pushcli ((pushcli ^^ Suc n) c)" by simp
  ultimately show ?case using Suc by (simp del: funpow.simps)
qed

subsection \<open>Mutual exclusion\<close>

text \<open>
  The invariant: a CPU inside \<open>acquire\<close> or the critical section has interrupts off and
  nesting depth 1, and the CPU recorded in a held lock is exactly the one in the section.
\<close>

definition lock_inv :: "lock_sys \<Rightarrow> bool" where
  "lock_inv s \<longleftrightarrow>
     (\<forall>i. cpu_id (lcpus s i) = i) \<and>
     (\<forall>i. ncli (lcpus s i) = (if lpcs s i = Outside then 0 else 1)) \<and>
     (\<forall>i. lpcs s i \<noteq> Outside \<longrightarrow> \<not> iflag (lcpus s i)) \<and>
     (\<forall>i. lpcs s i = Holding \<longleftrightarrow> locked (the_lock s) \<and> lcpu (the_lock s) = Some i) \<and>
     (locked (the_lock s) \<longrightarrow> lcpu (the_lock s) \<noteq> None)"

lemma lock_inv_at:
  assumes "lock_inv s"
  shows "cpu_id (lcpus s i) = i"
    and "lpcs s i = Outside \<Longrightarrow> ncli (lcpus s i) = 0"
    and "lpcs s i \<noteq> Outside \<Longrightarrow> ncli (lcpus s i) = 1 \<and> \<not> iflag (lcpus s i)"
    and "lpcs s i = Holding \<longleftrightarrow> locked (the_lock s) \<and> lcpu (the_lock s) = Some i"
  using assms unfolding lock_inv_def by metis+

lemma lock_inv_cpu_ok: "lock_inv s \<Longrightarrow> cpu_ok (lcpus s i)"
  by (auto simp: lock_inv_def cpu_ok_def)

lemma lock_inv_enter:
  assumes "lock_inv s" and "lpcs s i = Outside"
  shows "holding (pushcli (lcpus s i)) (the_lock s) = Inr (False, pushcli (lcpus s i))"
  using lock_inv_at [OF assms(1), of i] lock_inv_cpu_ok [OF assms(1), of i] assms(2)
  by (auto simp: holding_eq)

lemma lock_inv_drop:
  assumes "lock_inv s" and "lpcs s i = Holding"
  shows "release (lcpus s i) (the_lock s) =
           Inr ((lcpus s i)\<lparr>ncli := 0, iflag := intena (lcpus s i)\<rparr>,
                (the_lock s)\<lparr>locked := False, lcpu := None\<rparr>)"
proof (rule release_pushed)
  show "ncli (lcpus s i) = 1" "\<not> iflag (lcpus s i)" "locked (the_lock s)"
    "lcpu (the_lock s) = Some (cpu_id (lcpus s i))"
    using lock_inv_at [OF assms(1), of i] assms(2) by auto
qed

lemma lock_step_inv: "lock_step s t \<Longrightarrow> lock_inv s \<Longrightarrow> lock_inv t"
proof (induction rule: lock_step.induct)
  case (enter s i c)
  then have "c = pushcli (lcpus s i)" using lock_inv_enter by fastforce
  moreover have "\<not> (locked (the_lock s) \<and> lcpu (the_lock s) = Some i)"
    using lock_inv_at(4) [OF enter.prems, of i] enter.hyps(1) by simp
  ultimately show ?case using enter by (simp add: lock_inv_def)
next
  case (spin s i)
  then show ?case by simp
next
  case (grab s i)
  then show ?case by (auto simp: lock_inv_def)
next
  case (drop s i c lk)
  then have "c = (lcpus s i)\<lparr>ncli := 0, iflag := intena (lcpus s i)\<rparr>"
    and "lk = (the_lock s)\<lparr>locked := False, lcpu := None\<rparr>"
    using lock_inv_drop [OF drop.prems drop.hyps(1)] by auto
  with drop show ?case by (auto simp: lock_inv_def)
qed

lemma lock_reach_inv: "lock_reach s \<Longrightarrow> lock_inv s"
proof (induction rule: lock_reach.induct)
  case (start cs)
  then show ?case by (simp add: lock_inv_def initlock_def)
next
  case (step s t)
  then show ?case by (blast intro: lock_step_inv)
qed

end
