(* ===== verification/SpinProps.thy ===== *)
theory SpinProps
  imports Spinlock
begin

text \<open>Mutual exclusion and interrupt discipline of the spin locks.\<close>

inductive_cases lock_stepE: "lock_step s t"


definition cold_cpus :: "nat \<Rightarrow> cpu" where
  "cold_cpus i = \<lparr>cpu_id = i, ncli = 0, intena = False, iflag = True, cpu_proc = None\<rparr>"


text \<open>
  Nested \<open>pushcli\<close>: \<open>n + 1\<close> calls followed by \<open>n + 1\<close> calls of \<open>popcli\<close> do not panic and
  restore the interrupt flag and the depth; interrupts stay off in between.
\<close>

theorem cli_nesting:
  assumes "cpu_ok c"
  shows "\<exists>c'. popclis (Suc n) ((pushcli ^^ Suc n) c) = Inr c' \<and> iflag c' = iflag c \<and>
     ncli c' = ncli c \<and> cpu_proc c' = cpu_proc c \<and> \<not> iflag ((pushcli ^^ Suc n) c)"
  using popclis_pushclis [OF assms, of n] by simp

theorem cli_nesting_witness:
  "\<exists>c'. popclis 3 ((pushcli ^^ 3) (cold_cpus 0)) = Inr c' \<and> iflag c'"
proof -
  have "cpu_ok (cold_cpus 0)" by (simp add: cold_cpus_def cpu_ok_def)
  from cli_nesting [OF this, of 2] show ?thesis
    by (auto simp: cold_cpus_def numeral_eq_Suc simp del: popclis.simps funpow.simps)
qed

text \<open>
  What each lock operation does when it is misused: taking a lock the CPU already holds
  and dropping one it does not hold panic; a lock held by another CPU is waited for.
\<close>

theorem lock_misuse:
  assumes "cpu_ok c"
  shows "(if locked lk \<and> lcpu lk = Some (cpu_id c) then acquire c lk = panic ''acquire''
          else if locked lk then acquire c lk = Inl Spin
          else acquire c lk = Inr (pushcli c, lk\<lparr>locked := True, lcpu := Some (cpu_id c)\<rparr>)) \<and>
     (\<not> (locked lk \<and> lcpu lk = Some (cpu_id c)) \<longrightarrow> release c lk = panic ''release'')"
  using assms acquire_held_panics acquire_other_spins acquire_free release_unheld_panics by auto

theorem lock_misuse_witness:
  "acquire (cold_cpus 1) \<lparr>locked = True, lcpu = Some 1\<rparr> = panic ''acquire'' \<and>
     release (cold_cpus 1) initlock = panic ''release''"
proof -
  have "cpu_ok (cold_cpus 1)" by (simp add: cold_cpus_def cpu_ok_def)
  from lock_misuse [OF this, of "\<lparr>locked = True, lcpu = Some 1\<rparr>"] lock_misuse [OF this, of initlock]
  show ?thesis by (auto simp: cold_cpus_def initlock_def)
qed

end
