(* ===== verification/Kalloc.thy ===== *)
theory Kalloc
  imports Spinlock
begin

text \<open>
  The physical page allocator (\<^verbatim>\<open>kalloc.c\<close>) with the address arithmetic of
  \<^verbatim>\<open>memlayout.h\<close> and \<^verbatim>\<open>mmu.h\<close> it uses.

  \<open>mach\<close> holds the executing CPU and the tick counter; the kernel's globals are added to it
  component by component as record extensions, so that a routine defined for one component
  runs unchanged on the state of the components above it.

  Memory is addressed in 32-bit words: \<open>mem a\<close> is the word at the 4-aligned kernel virtual
  address \<open>a\<close>.  Pages are handed out and cleared a whole page at a time, the free list is
  threaded through the first word of each free page, and page tables are arrays of words.
  \<open>kend\<close> and \<open>kdata\<close> are the linker's symbols \<open>end\<close> and \<open>data\<close>; \<open>kpgdir\<close> is the
  kernel's own page directory, and \<open>cr3\<close>, \<open>ts_esp0\<close> are the registers that a context switch
  loads.
\<close>

record mach =
  mcpu :: cpu
  cr3 :: u32
  ts_esp0 :: u32
  ticks :: u32

record kst = mach +
  kmem_lock :: spinlock
  use_lock :: bool
  freelist :: u32
  mem :: "u32 \<Rightarrow> u32"
  kend :: u32
  kdata :: u32
  kpgdir :: u32

definition EXTMEM :: u32 where [simp]: "EXTMEM = 0x100000"
definition PHYSTOP :: u32 where [simp]: "PHYSTOP = 0xE000000"
definition DEVSPACE :: u32 where [simp]: "DEVSPACE = 0xFE000000"
definition KERNBASE :: u32 where [simp]: "KERNBASE = 0x80000000"
definition KERNLINK :: u32 where [simp]: "KERNLINK = KERNBASE + EXTMEM"
definition PGSIZE :: u32 where [simp]: "PGSIZE = 4096"

definition V2P :: "u32 \<Rightarrow> u32" where "V2P a = a - KERNBASE"
definition P2V :: "u32 \<Rightarrow> u32" where "P2V a = a + KERNBASE"
definition PGROUNDUP :: "u32 \<Rightarrow> u32" where
  "PGROUNDUP sz = (sz + PGSIZE - 1) AND NOT (PGSIZE - 1)"
definition PGROUNDDOWN :: "u32 \<Rightarrow> u32" where
  "PGROUNDDOWN a = a AND NOT (PGSIZE - 1)"

definition stosl :: "(u32 \<Rightarrow> u32) \<Rightarrow> u32 \<Rightarrow> u32 \<Rightarrow> u32 \<Rightarrow> u32 \<Rightarrow> u32" where
  "stosl m addr data cnt = (\<lambda>a. if a - addr < 4 * cnt then data else m a)"

definition memset_words :: "(u32 \<Rightarrow> u32) \<Rightarrow> u32 \<Rightarrow> u32 \<Rightarrow> u32 \<Rightarrow> u32 \<Rightarrow> u32" where
  "memset_words m dst c n =
     (let c = c AND 0xFF
      in stosl m dst (push_bit 24 c OR push_bit 16 c OR push_bit 8 c OR c) (n div 4))"

definition kmem_acquire :: "'z kst_scheme \<Rightarrow> 'z kst_scheme res" where
  "kmem_acquire s =
     bnd (acquire (mcpu s) (kmem_lock s)) (\<lambda>(c, l). Inr (s\<lparr>mcpu := c, kmem_lock := l\<rparr>))"

definition kmem_release :: "'z kst_scheme \<Rightarrow> 'z kst_scheme res" where
  "kmem_release s =
     bnd (release (mcpu s) (kmem_lock s)) (\<lambda>(c, l). Inr (s\<lparr>mcpu := c, kmem_lock := l\<rparr>))"

definition kfree :: "u32 \<Rightarrow> 'z kst_scheme \<Rightarrow> 'z kst_scheme res" where
  "kfree v s =
     (if v mod PGSIZE \<noteq> 0 \<or> v < kend s \<or> PHYSTOP \<le> V2P v then panic ''kfree''
      else let s = s\<lparr>mem := memset_words (mem s) v 1 PGSIZE\<rparr>
      in bnd (if use_lock s then kmem_acquire s else Inr s) (\<lambda>s.
         let s = s\<lparr>mem := (mem s)(v := freelist s)\<rparr>;
             s = s\<lparr>freelist := v\<rparr>
         in if use_lock s then kmem_release s else Inr s))"

definition kalloc :: "'z kst_scheme \<Rightarrow> (u32 \<times> 'z kst_scheme) res" where
  "kalloc s =
     bnd (if use_lock s then kmem_acquire s else Inr s) (\<lambda>s.
       let r = freelist s;
           s = (if r \<noteq> 0 then s\<lparr>freelist := mem s r\<rparr> else s)
       in bnd (if use_lock s then kmem_release s else Inr s) (\<lambda>s. Inr (r, s)))"

text \<open>
  The loop of \<open>freerange\<close> ends because \<open>kfree\<close> refuses every address from which adding a
  page would wrap around.
\<close>

lemma kfree_no_wrap:
  assumes "kfree p s = Inr s'"
  shows "unat (p + PGSIZE) = unat p + 4096"
proof -
  have "V2P p < PHYSTOP"
    using assms by (auto simp: kfree_def Let_def panic_def not_le split: if_splits)
  then have "unat (p - 0x80000000) < 0xE000000"
    by (simp add: V2P_def word_less_nat_alt)
  then have "unat p < 0x8E000000"
    using unat_u32_less [of p] by (simp add: unat_u32_sub split: if_splits)
  then show ?thesis by (simp add: unat_u32_add)
qed

function freerange_loop :: "u32 \<Rightarrow> u32 \<Rightarrow> 'z kst_scheme \<Rightarrow> 'z kst_scheme res" where
  "freerange_loop p vend s =
     (if p + PGSIZE \<le> vend
      then bnd (kfree p s) (\<lambda>s. freerange_loop (p + PGSIZE) vend s)
      else Inr s)"
  by pat_completeness auto
termination
proof (relation "measure (\<lambda>(p, vend, s). 2 ^ 32 - unat p)", goal_cases)
  case 1
  then show ?case by simp
next
  case (2 p vend s s')
  then show ?case
    using kfree_no_wrap [of p s s'] unat_u32_less [of p] unat_u32_less [of "p + PGSIZE"]
    by simp
qed

declare freerange_loop.simps [simp del]

definition freerange :: "u32 \<Rightarrow> u32 \<Rightarrow> 'z kst_scheme \<Rightarrow> 'z kst_scheme res" where
  "freerange vstart vend s = freerange_loop (PGROUNDUP vstart) vend s"

definition kinit1 :: "u32 \<Rightarrow> u32 \<Rightarrow> 'z kst_scheme \<Rightarrow> 'z kst_scheme res" where
  "kinit1 vstart vend s =
     freerange vstart vend (s\<lparr>kmem_lock := initlock, use_lock := False\<rparr>)"

definition kinit2 :: "u32 \<Rightarrow> u32 \<Rightarrow> 'z kst_scheme \<Rightarrow> 'z kst_scheme res" where
  "kinit2 vstart vend s =
     bnd (freerange vstart vend s) (\<lambda>s. Inr (s\<lparr>use_lock := True\<rparr>))"

text \<open>
  The allocator's invariant: the free list is a chain of distinct, allocatable pages.
  \<open>ps\<close> is the list of free pages, most recently freed first.
\<close>

primrec free_path :: "(u32 \<Rightarrow> u32) \<Rightarrow> u32 \<Rightarrow> u32 list \<Rightarrow> bool" where
  "free_path m p [] \<longleftrightarrow> p = 0"
| "free_path m p (a # as) \<longleftrightarrow> p = a \<and> a \<noteq> 0 \<and> free_path m (m a) as"

definition page_ok :: "'z kst_scheme \<Rightarrow> u32 \<Rightarrow> bool" where
  "page_ok s v \<longleftrightarrow> v mod PGSIZE = 0 \<and> kend s \<le> v \<and> V2P v < PHYSTOP"

definition kmem_inv :: "'z kst_scheme \<Rightarrow> u32 list \<Rightarrow> bool" where
  "kmem_inv s ps \<longleftrightarrow>
     free_path (mem s) (freelist s) ps \<and> distinct ps \<and> (\<forall>v\<in>set ps. page_ok s v) \<and>
     \<not> locked (kmem_lock s) \<and> lcpu (kmem_lock s) = None \<and> cpu_ok (mcpu s)"

subsection \<open>Lemmas\<close>

lemma free_path_frame:
  "(\<And>v. v \<in> set ps \<Longrightarrow> m' v = m v) \<Longrightarrow> free_path m' p ps = free_path m p ps"
  by (induction ps arbitrary: p) auto

lemma page_ok_nonzero: "page_ok s v \<Longrightarrow> v \<noteq> 0"
  by (auto simp: page_ok_def V2P_def)

lemma word_mod_4096: "unat (v mod (4096 :: u32)) = unat v mod 4096"
  by (simp add: unat_mod)

text \<open>Two different pages do not overlap: an aligned address outside a page is not written.\<close>

lemma aligned_far:
  fixes v w :: u32
  assumes "v mod 4096 = 0" and "w mod 4096 = 0" and "v \<noteq> w"
  shows "\<not> v - w < 4096"
proof
  assume less: "v - w < 4096"
  have "unat v mod 4096 = 0" "unat w mod 4096 = 0"
    using assms(1,2) word_mod_4096 by (metis unat_0)+
  then have dvd: "4096 dvd unat v" "4096 dvd unat w" by auto
  show False
  proof (cases "w \<le> v")
    case True
    then have "unat (v - w) = unat v - unat w" by (simp add: unat_u32_sub word_le_nat_alt)
    with less have "unat v - unat w < 4096" by (simp add: word_less_nat_alt)
    moreover have "4096 dvd unat v - unat w" using dvd by simp
    ultimately have "unat v - unat w = 0" by (metis dvd_imp_le leD neq0_conv)
    with True assms(3) show False
      by (simp add: word_le_nat_alt word_unat_eq_iff)
  next
    case False
    then have lt: "unat v < unat w" by (simp add: word_less_nat_alt not_le)
    then have "unat (v - w) = 2 ^ 32 + unat v - unat w"
      by (simp add: unat_u32_sub)
    with less have "2 ^ 32 + unat v - unat w < 4096" by (simp add: word_less_nat_alt)
    moreover have "4096 dvd 2 ^ 32 + unat v - unat w"
      using dvd by (intro dvd_diff_nat dvd_add) auto
    moreover have "0 < 2 ^ 32 + unat v - unat w" using lt unat_u32_less [of w] by simp
    ultimately show False by (metis dvd_imp_le leD)
  qed
qed

lemma memset_words_other:
  "v mod 4096 = 0 \<Longrightarrow> w mod 4096 = 0 \<Longrightarrow> v \<noteq> w \<Longrightarrow> memset_words m w c PGSIZE v = m v"
  using aligned_far [of v w] by (simp add: memset_words_def stosl_def Let_def)

lemma memset_words_zero:
  "a - dst < 4096 \<Longrightarrow> memset_words m dst 0 PGSIZE a = 0"
  by (simp add: memset_words_def stosl_def Let_def)

lemma kmem_acquire_eq [lock_simps]:
  "cpu_ok (mcpu s) \<Longrightarrow> \<not> locked (kmem_lock s) \<Longrightarrow>
     kmem_acquire s = Inr (s\<lparr>mcpu := pushcli (mcpu s),
       kmem_lock := (kmem_lock s)\<lparr>locked := True, lcpu := Some (cpu_id (mcpu s))\<rparr>\<rparr>)"
  by (simp add: kmem_acquire_def lock_simps)

lemma kmem_release_eq [lock_simps]:
  "cpu_ok c \<Longrightarrow> mcpu s = pushcli c \<Longrightarrow> locked (kmem_lock s) \<Longrightarrow>
     lcpu (kmem_lock s) = Some (cpu_id c) \<Longrightarrow>
     kmem_release s = Inr (s\<lparr>mcpu := settle c,
       kmem_lock := (kmem_lock s)\<lparr>locked := False, lcpu := None\<rparr>\<rparr>)"
  by (simp add: kmem_release_def lock_simps)

lemma unlocked_eq: "\<not> locked l \<Longrightarrow> lcpu l = None \<Longrightarrow> l\<lparr>locked := False, lcpu := None\<rparr> = l"
  by (cases l) simp


subsection \<open>What kfree and kalloc do to the free list\<close>

lemma kfree_bad: "\<not> page_ok s v \<Longrightarrow> kfree v s = panic ''kfree''"
  by (auto simp: kfree_def page_ok_def not_le not_less)

lemma kfree_inv:
  assumes inv: "kmem_inv s ps" and ok: "page_ok s v" and new: "v \<notin> set ps"
  obtains s' where "kfree v s = Inr s'" and "kmem_inv s' (v # ps)"
    and "s' = s\<lparr>mcpu := mcpu s', mem := mem s', freelist := v\<rparr>"
    and "mcpu s' = (if use_lock s then settle (mcpu s) else mcpu s)"
    and "\<And>w. w mod 4096 = 0 \<Longrightarrow> w \<noteq> v \<Longrightarrow> mem s' w = mem s w"
proof -
  let ?m = "(memset_words (mem s) v 1 PGSIZE)(v := freelist s)"
  let ?c = "if use_lock s then settle (mcpu s) else mcpu s"
  let ?s' = "s\<lparr>mcpu := ?c, mem := ?m, freelist := v\<rparr>"
  have v: "v mod 4096 = 0" using ok by (simp add: page_ok_def)
  have "kfree v s = Inr ?s'"
    using inv ok
    by (auto simp: kfree_def page_ok_def kmem_inv_def Let_def lock_simps unlocked_eq)
  moreover have other: "?m w = mem s w" if "w mod 4096 = 0" "w \<noteq> v" for w
    using memset_words_other [of w v "mem s" 1] v that by simp
  moreover have "free_path ?m v (v # ps)"
  proof -
    have "free_path ?m (freelist s) ps = free_path (mem s) (freelist s) ps"
      using inv new by (intro free_path_frame other) (auto simp: kmem_inv_def page_ok_def)
    then show ?thesis using inv page_ok_nonzero [OF ok] by (simp add: kmem_inv_def)
  qed
  then have "kmem_inv ?s' (v # ps)"
    using inv ok new by (auto simp: kmem_inv_def page_ok_def)
  ultimately show ?thesis by (intro that [of ?s']) auto
qed

lemma kalloc_eq:
  "cpu_ok (mcpu s) \<Longrightarrow> \<not> locked (kmem_lock s) \<Longrightarrow> lcpu (kmem_lock s) = None \<Longrightarrow>
     kalloc s = Inr (freelist s, s\<lparr>mcpu := if use_lock s then settle (mcpu s) else mcpu s,
       freelist := if freelist s = 0 then 0 else mem s (freelist s)\<rparr>)"
  by (auto simp: kalloc_def Let_def lock_simps unlocked_eq)

lemma kalloc_empty:
  "kmem_inv s [] \<Longrightarrow>
     kalloc s = Inr (0, s\<lparr>mcpu := if use_lock s then settle (mcpu s) else mcpu s\<rparr>)"
  by (auto simp: kalloc_def kmem_inv_def Let_def lock_simps unlocked_eq)

lemma kalloc_page:
  "kmem_inv s (v # ps) \<Longrightarrow>
     kalloc s = Inr (v, s\<lparr>mcpu := if use_lock s then settle (mcpu s) else mcpu s,
                          freelist := mem s v\<rparr>)"
  by (auto simp: kalloc_def kmem_inv_def Let_def lock_simps unlocked_eq)

lemma kalloc_inv:
  "kmem_inv s (v # ps) \<Longrightarrow> kalloc s = Inr (r, s') \<Longrightarrow> r = v \<and> kmem_inv s' ps"
  by (auto simp: kalloc_page) (auto simp: kmem_inv_def page_ok_def)


end
