(* ===== verification/KallocProps.thy ===== *)
theory KallocProps
  imports Kalloc
begin

text \<open>
  What the page allocator guarantees: the free list after \<open>freerange\<close> and \<open>kinit1\<close>, and the
  round trip of \<open>kfree\<close> and \<open>kalloc\<close>.
\<close>

subsection \<open>freerange\<close>

definition pages_from :: "u32 \<Rightarrow> nat \<Rightarrow> u32 list" where
  "pages_from p n = map (\<lambda>k. p + 4096 * of_nat k) [0..<n]"

lemma pages_from_Suc: "pages_from p (Suc n) = p # pages_from (p + 4096) n"
  unfolding pages_from_def upt_conv_Cons [OF zero_less_Suc] map_Suc_upt [symmetric]
  by (simp add: comp_def distrib_left add.assoc)

lemma length_pages_from [simp]: "length (pages_from p n) = n"
  by (simp add: pages_from_def)

lemma freerange_loop_pages:
  assumes "kmem_inv s ps" and "\<forall>v\<in>set (pages_from p n). page_ok s v \<and> v \<notin> set ps"
    and "distinct (pages_from p n)"
    and "unat p + 4096 * n \<le> unat vend" and "unat vend < unat p + 4096 * n + 4096"
    and "unat vend \<le> 0x8E000000"
  shows "\<exists>s'. freerange_loop p vend s = Inr s' \<and> kmem_inv s' (rev (pages_from p n) @ ps) \<and>
     use_lock s' = use_lock s \<and> kend s' = kend s"
  using assms
proof (induction n arbitrary: p s ps)
  case 0
  have "\<not> p + PGSIZE \<le> vend" using 0 by (simp add: word_le_nat_alt unat_u32_add not_le)
  then show ?case using 0 by (simp add: freerange_loop.simps pages_from_def)
next
  case (Suc n)
  have up: "unat (p + 4096) = unat p + 4096" using Suc.prems(4,6) by (simp add: unat_u32_add)
  have go: "p + PGSIZE \<le> vend" using Suc.prems(4) up by (simp add: word_le_nat_alt)
  have ok: "page_ok s p" "p \<notin> set ps" using Suc.prems(2) by (simp_all add: pages_from_Suc)
  obtain t where t: "kfree p s = Inr t" "kmem_inv t (p # ps)"
      "t = s\<lparr>mcpu := mcpu t, mem := mem t, freelist := p\<rparr>"
    using kfree_inv [OF Suc.prems(1) ok] by metis
  have same: "kend t = kend s" "use_lock t = use_lock s" by (subst t(3), simp)+
  have "\<forall>v\<in>set (pages_from (p + 4096) n). page_ok t v \<and> v \<notin> set (p # ps)"
    using Suc.prems(2,3) by (auto simp: pages_from_Suc page_ok_def same)
  then obtain s' where "freerange_loop (p + 4096) vend t = Inr s'"
      "kmem_inv s' (rev (pages_from (p + 4096) n) @ p # ps)" "use_lock s' = use_lock t" "kend s' = kend t"
    using Suc.IH [OF t(2), of "p + 4096"] Suc.prems(3-6) up by (auto simp: pages_from_Suc)
  then show ?case using t(1) go same by (simp add: freerange_loop.simps [of p] pages_from_Suc)
qed


lemma pground_aligned: "PGROUNDUP a mod 4096 = 0" "PGROUNDDOWN a mod 4096 = 0"
proof -
  have m: "(4095 :: u32) = mask 12" by (simp add: mask_eq_exp_minus_1)
  have "take_bit 12 (x AND NOT (mask 12 :: u32)) = 0" for x
    by (rule bit_word_eqI) (auto simp: bit_simps)
  then have "(x AND NOT (4095 :: u32)) mod 4096 = 0" for x
    unfolding m by (simp only: take_bit_eq_mod) simp
  moreover have "PGSIZE - 1 = 4095" by simp
  ultimately show "PGROUNDUP a mod 4096 = 0" "PGROUNDDOWN a mod 4096 = 0"
    by (simp_all only: PGROUNDUP_def PGROUNDDOWN_def)
qed

lemma unat_pages:
  assumes "unat p + 4096 * n < 4294967296" and "k \<le> n"
  shows "unat (p + 4096 * of_nat k :: u32) = unat p + 4096 * k"
  using assms
proof (induction k)
  case (Suc k)
  have "p + 4096 * of_nat (Suc k) = (p + 4096 * of_nat k) + 4096" by (simp add: distrib_left)
  then show ?case using Suc by (simp only: unat_u32_add) simp
qed simp

lemma pages_from_ok:
  assumes al: "p mod 4096 = 0" and lo: "kend s \<le> p" "0x80000000 \<le> unat p"
    and hi: "unat p + 4096 * n \<le> 0x8E000000"
  shows "\<forall>v\<in>set (pages_from p n). page_ok s v" and "distinct (pages_from p n)"
proof -
  have u: "unat (p + 4096 * of_nat k) = unat p + 4096 * k" if "k < n" for k
    using unat_pages [of p n k] hi that by simp
  have "page_ok s (p + 4096 * of_nat k)" if k: "k < n" for k
  proof -
    obtain q where q: "q = p + 4096 * of_nat k" "unat q = unat p + 4096 * k" using u [OF k] by blast
    have "unat p mod 4096 = 0" using arg_cong [OF al, of unat] by (simp only: word_mod_4096 unat_0)
    then have "unat (q mod 4096) = 0" by (simp add: word_mod_4096 q(2))
    then have "q mod 4096 = 0" by (simp only: unat_eq_zero)
    moreover have "kend s \<le> q"
      using lo(1) by (simp add: word_le_nat_alt q(2))
    moreover have "V2P q < PHYSTOP"
      using lo(2) hi k q(2) by (simp add: V2P_def word_less_nat_alt unat_u32_sub)
    ultimately show ?thesis by (simp add: page_ok_def q(1))
  qed
  then show "\<forall>v\<in>set (pages_from p n). page_ok s v" by (auto simp: pages_from_def)
  show "distinct (pages_from p n)"
    unfolding pages_from_def distinct_map
  proof (intro conjI inj_onI)
    fix j k assume jk: "j \<in> set [0..<n]" "k \<in> set [0..<n]"
      and eq: "p + 4096 * of_nat j = (p + 4096 * of_nat k :: u32)"
    have jn: "j < n" "k < n" using jk by simp_all
    have "unat p + 4096 * j = unat p + 4096 * k"
      using u [OF jn(1)] u [OF jn(2)] unfolding eq by (rule trans [OF sym])
    then show "j = k" by simp
  qed (rule distinct_upt)
qed

subsection \<open>Properties\<close>

text \<open>
  C22: Freeing a page that is not free, and then allocating, gives that page back and leaves
  the free list as it was; the lock is free before and after.  A page that is not aligned,
  below the kernel's end or above the top of memory is refused with a panic.
\<close>

theorem kfree_kalloc:
  assumes "kmem_inv s ps" and "v \<notin> set ps"
  shows "if page_ok s v
     then \<exists>s' s''. kfree v s = Inr s' \<and> kmem_inv s' (v # ps) \<and>
       kalloc s' = Inr (v, s'') \<and> kmem_inv s'' ps
     else kfree v s = panic ''kfree''"
proof (cases "page_ok s v")
  case True
  then obtain s' where s': "kfree v s = Inr s'" "kmem_inv s' (v # ps)"
    using kfree_inv [OF assms(1) _ assms(2)] by metis
  with kalloc_page [OF s'(2)] kalloc_inv [OF s'(2)] True show ?thesis by auto
qed (simp add: kfree_bad)

definition boot_kst :: kst where
  "boot_kst = \<lparr>mcpu = \<lparr>cpu_id = 0, ncli = 0, intena = False, iflag = False, cpu_proc = None\<rparr>,
     cr3 = 0, ts_esp0 = 0, ticks = 0, kmem_lock = initlock,
     use_lock = False, freelist = 0, mem = (\<lambda>_. 0), kend = 0x80115000, kdata = 0x80108000,
     kpgdir = 0\<rparr>"

lemma boot_kst_inv: "kmem_inv boot_kst []"
  by (simp add: kmem_inv_def boot_kst_def initlock_def cpu_ok_def)

theorem kfree_kalloc_witness:
  "\<exists>s' s''. kfree 0x80116000 boot_kst = Inr s' \<and> kalloc s' = Inr (0x80116000, s'') \<and> kmem_inv s'' []"
proof -
  have "page_ok boot_kst 0x80116000" by (simp add: page_ok_def boot_kst_def V2P_def)
  then show ?thesis using kfree_kalloc [OF boot_kst_inv, of "0x80116000"] by auto
qed

text \<open>
  C23: \<open>kinit1\<close> puts on the free list every page between the first page boundary at or after
  \<open>vstart\<close> and \<open>vend\<close>, each once, the highest page first; the loop ends without a panic.
\<close>

theorem kinit1_frees:
  assumes "cpu_ok (mcpu s)" and "freelist s = 0" and "p = PGROUNDUP vstart"
    and "kend s \<le> p" and "KERNBASE \<le> p"
    and "unat p + 4096 * n \<le> unat vend" and "unat vend < unat p + 4096 * n + 4096"
    and "vend \<le> P2V PHYSTOP"
  shows "\<exists>s'. kinit1 vstart vend s = Inr s' \<and> kmem_inv s' (rev (pages_from p n))"
proof -
  let ?s = "s\<lparr>kmem_lock := initlock, use_lock := False\<rparr>"
  have hi: "unat vend \<le> 0x8E000000" using assms(8) by (simp add: P2V_def word_le_nat_alt)
  have al: "p mod 4096 = 0" by (simp add: assms(3) pground_aligned)
  have "0x80000000 \<le> unat p" using assms(5) by (simp add: word_le_nat_alt)
  note ok = pages_from_ok [OF al _ this, of ?s n]
  have inv: "kmem_inv ?s []" using assms(1,2) by (simp add: kmem_inv_def initlock_def)
  show ?thesis
    using freerange_loop_pages [OF inv, of p n vend] ok assms(4,6,7) hi
    by (auto simp: kinit1_def freerange_def assms(3))
qed

theorem kinit1_frees_witness:
  "\<exists>s'. kinit1 0x80115123 0x80118000 boot_kst = Inr s' \<and>
     kmem_inv s' [0x80117000, 0x80116000]"
proof -
  have p: "PGROUNDUP 0x80115123 = 0x80116000" by (simp add: PGROUNDUP_def)
  have "kend boot_kst = 0x80115000" "freelist boot_kst = 0" "cpu_ok (mcpu boot_kst)"
    by (simp_all add: boot_kst_def cpu_ok_def)
  then show ?thesis
    using kinit1_frees [of boot_kst "0x80116000" "0x80115123" 2 "0x80118000"] p
    by (simp add: P2V_def pages_from_def upt_rec)
qed

end
