(* ===== verification/ProcTable.thy ===== *)
theory ProcTable
  imports Kalloc
begin

text \<open>
  The process table and the operations on it that need only the table and the page
  allocator (\<^verbatim>\<open>proc.c\<close>, \<^verbatim>\<open>proc.h\<close>, \<^verbatim>\<open>userdata.h\<close>): the run queues of the
  multilevel feedback scheduler, \<open>allocproc\<close>, \<open>wakeup\<close>, \<open>kill\<close>, \<open>chpr\<close>, \<open>getpinfo\<close>, and
  both halves of \<open>sched\<close>, \<open>yield\<close> and \<open>sleep\<close> (before and after the context switch).

  A process is an index into \<open>procs\<close>; a null pointer is \<open>None\<close>.  The trap frame and the
  saved context live in the process's kernel stack page, that is in \<open>mem\<close>, at the
  addresses \<open>tf\<close> and \<open>ctx\<close>.
\<close>

datatype procstate = UNUSED | EMBRYO | SLEEPING | RUNNABLE | RUNNING | ZOMBIE

record proc =
  sz :: u32
  pgdir :: u32
  kstack :: u32
  pstate :: procstate
  pid :: i32
  parent :: "nat option"
  tf :: u32
  ctx :: u32
  pchan :: "chan option"
  killed :: bool
  ofile :: "nat option list"
  cwd :: "nat option"
  pname :: string
  priority :: i32
  ctime :: i32
  etime :: i32
  wtime :: i32
  rtime :: i32
  pqueue :: int
  modtime :: i32
  retime :: i32
  num_run :: i32
  pticks :: "i32 list"
  last_executed :: i32
  run_curr :: i32

text \<open>
  \<open>ptable\<close>, \<open>initproc\<close>, \<open>nextpid\<close> and the scheduler's \<open>flag\<close>; \<open>forkret_addr\<close> and
  \<open>trapret_addr\<close> are the addresses the linker gives to the two routines.
\<close>

record pst = kst +
  pt_lock :: spinlock
  procs :: "proc list"
  queue_head :: "nat list"
  queue_tail :: "nat list"
  queue :: "nat option list list"
  initproc :: "nat option"
  nextpid :: i32
  sflag :: nat
  forkret_addr :: u32
  trapret_addr :: u32

record proc_stat =
  s_pid :: i32
  s_runtime :: i32
  s_num_run :: i32
  s_current_queue :: int
  s_ticks :: "i32 list"

definition proc0 :: proc where
  "proc0 = \<lparr>sz = 0, pgdir = 0, kstack = 0, pstate = UNUSED, pid = 0, parent = None, tf = 0,
     ctx = 0, pchan = None, killed = False, ofile = replicate NOFILE None, cwd = None,
     pname = [], priority = 0, ctime = 0, etime = 0, wtime = 0, rtime = 0, pqueue = 0,
     modtime = 0, retime = 0, num_run = 0, pticks = replicate 5 0, last_executed = 0,
     run_curr = 0\<rparr>"

definition setp :: "nat \<Rightarrow> (proc \<Rightarrow> proc) \<Rightarrow> 'z pst_scheme \<Rightarrow> 'z pst_scheme" where
  "setp i f s = s\<lparr>procs := upd i f (procs s)\<rparr>"

definition pt_acquire :: "'z pst_scheme \<Rightarrow> 'z pst_scheme res" where
  "pt_acquire s =
     bnd (acquire (mcpu s) (pt_lock s)) (\<lambda>(c, l). Inr (s\<lparr>mcpu := c, pt_lock := l\<rparr>))"

definition pt_release :: "'z pst_scheme \<Rightarrow> 'z pst_scheme res" where
  "pt_release s =
     bnd (release (mcpu s) (pt_lock s)) (\<lambda>(c, l). Inr (s\<lparr>mcpu := c, pt_lock := l\<rparr>))"

definition enqueue :: "int \<Rightarrow> nat \<Rightarrow> 'z pst_scheme \<Rightarrow> 'z pst_scheme res" where
  "enqueue queue_number new s =
     (if queue_number > 4 \<or> queue_number < 0 then panic ''out of bound quenumber''
      else let k = nat queue_number;
               tail_end = queue_tail s ! k;
               s = s\<lparr>queue := upd k (\<lambda>q. q[tail_end := Some new]) (queue s)\<rparr>;
               s = setp new (\<lambda>p. p\<lparr>pqueue := queue_number\<rparr>) s
           in Inr (s\<lparr>queue_tail := upd k (\<lambda>t. (t + 1) mod NPROC) (queue_tail s)\<rparr>))"

definition dequeue :: "int \<Rightarrow> 'z pst_scheme \<Rightarrow> 'z pst_scheme res" where
  "dequeue queue_number s =
     (if queue_number > 4 \<or> queue_number < 0 then panic ''out of bound quenumber''
      else Inr (s\<lparr>queue_head :=
             upd (nat queue_number) (\<lambda>h. (h + 1) mod NPROC) (queue_head s)\<rparr>))"

definition pinit :: "'z pst_scheme \<Rightarrow> 'z pst_scheme" where
  "pinit s = s\<lparr>pt_lock := initlock\<rparr>"

definition myproc :: "'z mach_scheme \<Rightarrow> (nat option \<times> 'z mach_scheme) res" where
  "myproc s =
     (let c = pushcli (mcpu s);
          p = cpu_proc c
      in bnd (popcli c) (\<lambda>c. Inr (p, s\<lparr>mcpu := c\<rparr>)))"

text \<open>\<open>sizeof(struct trapframe)\<close> is 76 and \<open>sizeof(struct context)\<close> is 20.\<close>

definition allocproc :: "'z pst_scheme \<Rightarrow> (nat option \<times> 'z pst_scheme) res" where
  "allocproc s =
     bnd (pt_acquire s) (\<lambda>s.
       case first_idx (\<lambda>p. pstate p = UNUSED) (procs s) of
         None \<Rightarrow> bnd (pt_release s) (\<lambda>s. Inr (None, s))
       | Some i \<Rightarrow>
         let s = setp i (\<lambda>p. p\<lparr>pstate := EMBRYO, pid := nextpid s, priority := 60, pqueue := 0\<rparr>) s;
             s = s\<lparr>nextpid := nextpid s + 1\<rparr>
         in bnd (pt_release s) (\<lambda>s.
            let s = setp i (\<lambda>p. p\<lparr>ctime := ticks s, etime := ticks s, retime := ticks s,
                      rtime := 0, wtime := 0, last_executed := 0, num_run := 0,
                      pticks := replicate 5 0\<rparr>) s
            in bnd (kalloc s) (\<lambda>(k, s).
               let s = setp i (\<lambda>p. p\<lparr>kstack := k\<rparr>) s
               in if k = 0 then Inr (None, setp i (\<lambda>p. p\<lparr>pstate := UNUSED\<rparr>) s)
                  else let sp = k + KSTACKSIZE;
                           sp = sp - 76;
                           s = setp i (\<lambda>p. p\<lparr>tf := sp\<rparr>) s;
                           sp = sp - 4;
                           s = s\<lparr>mem := (mem s)(sp := trapret_addr s)\<rparr>;
                           sp = sp - 20;
                           s = setp i (\<lambda>p. p\<lparr>ctx := sp\<rparr>) s;
                           s = s\<lparr>mem := memset_words (mem s) sp 0 20\<rparr>;
                           s = s\<lparr>mem := (mem s)(sp + 16 := forkret_addr s)\<rparr>
                       in Inr (Some i, s))))"

fun wakeup1_loop :: "nat list \<Rightarrow> chan option \<Rightarrow> 'z pst_scheme \<Rightarrow> 'z pst_scheme res" where
  "wakeup1_loop [] ch s = Inr s"
| "wakeup1_loop (i # is) ch s =
     (if pstate (procs s ! i) = SLEEPING \<and> pchan (procs s ! i) = ch
      then let s = setp i (\<lambda>p. p\<lparr>pstate := RUNNABLE\<rparr>) s
           in bnd (enqueue (pqueue (procs s ! i)) i s) (wakeup1_loop is ch)
      else wakeup1_loop is ch s)"

definition wakeup1 :: "chan option \<Rightarrow> 'z pst_scheme \<Rightarrow> 'z pst_scheme res" where
  "wakeup1 ch s = wakeup1_loop [0..<NPROC] ch s"

definition wakeup :: "chan \<Rightarrow> 'z pst_scheme \<Rightarrow> 'z pst_scheme res" where
  "wakeup ch s = bnd (pt_acquire s) (\<lambda>s. bnd (wakeup1 (Some ch) s) pt_release)"

definition kill :: "i32 \<Rightarrow> 'z pst_scheme \<Rightarrow> (i32 \<times> 'z pst_scheme) res" where
  "kill k s =
     bnd (pt_acquire s) (\<lambda>s.
       case first_idx (\<lambda>p. pid p = k) (procs s) of
         Some i \<Rightarrow>
           let s = setp i (\<lambda>p. p\<lparr>killed := True\<rparr>) s
           in bnd (if pstate (procs s ! i) = SLEEPING
                   then let s = setp i (\<lambda>p. p\<lparr>pstate := RUNNABLE\<rparr>) s
                        in enqueue (pqueue (procs s ! i)) i s
                   else Inr s) (\<lambda>s.
              bnd (pt_release s) (\<lambda>s. Inr (0, s)))
       | None \<Rightarrow> bnd (pt_release s) (\<lambda>s. Inr (-1, s)))"

definition chpr :: "i32 \<Rightarrow> 'z pst_scheme \<Rightarrow> (i32 \<times> 'z pst_scheme) res" where
  "chpr pr s =
     bnd (myproc s) (\<lambda>(cur, s).
       case cur of None \<Rightarrow> Inl OutOfRange
       | Some c \<Rightarrow>
         let k = pid (procs s ! c)
         in bnd (pt_acquire s) (\<lambda>s.
            let s = (case first_idx (\<lambda>p. pid p = k) (procs s) of
                       Some i \<Rightarrow> setp i (\<lambda>p. p\<lparr>priority := pr\<rparr>) s
                     | None \<Rightarrow> s)
            in bnd (pt_release s) (\<lambda>s. Inr (k, s))))"

definition getpinfo :: "'z pst_scheme \<Rightarrow> (i32 \<times> proc_stat option \<times> 'z pst_scheme) res" where
  "getpinfo s =
     bnd (myproc s) (\<lambda>(cur, s).
       case cur of
         Some c \<Rightarrow>
           let p = procs s ! c
           in Inr (1, Some \<lparr>s_pid = pid p, s_runtime = rtime p, s_num_run = num_run p,
                s_current_queue = pqueue p, s_ticks = map (\<lambda>i. pticks p ! i) [0..<5]\<rparr>, s)
       | None \<Rightarrow> Inr (0, None, s))"

text \<open>
  \<open>switchuvm\<close> loads the kernel stack and the page directory of \<open>p\<close> (the fields of the TSS
  descriptor that do not depend on \<open>p\<close> are left out); \<open>switchkvm\<close> goes back to the
  kernel's own page directory.
\<close>

definition switchuvm :: "nat option \<Rightarrow> 'z pst_scheme \<Rightarrow> 'z pst_scheme res" where
  "switchuvm p s =
     (case p of None \<Rightarrow> panic ''switchuvm: no process''
      | Some i \<Rightarrow>
        if kstack (procs s ! i) = 0 then panic ''switchuvm: no kstack''
        else if pgdir (procs s ! i) = 0 then panic ''switchuvm: no pgdir''
        else let c = pushcli (mcpu s);
                 s = s\<lparr>ts_esp0 := kstack (procs s ! i) + KSTACKSIZE\<rparr>;
                 s = s\<lparr>cr3 := V2P (pgdir (procs s ! i))\<rparr>
             in bnd (popcli c) (\<lambda>c. Inr (s\<lparr>mcpu := c\<rparr>)))"

definition switchkvm :: "'z kst_scheme \<Rightarrow> 'z kst_scheme" where
  "switchkvm s = s\<lparr>cr3 := V2P (kpgdir s)\<rparr>"

text \<open>
  \<open>sched\<close> up to its \<open>swtch\<close> (\<open>sched_out\<close>: the checks, and the interrupt state it saves) and
  after it (\<open>sched_in\<close>).  \<open>yield\<close> and \<open>sleep\<close> are split in the same way; between the two
  halves the scheduler and other processes run.  \<open>sleep\<close> takes the release and the acquire
  of the caller's lock, and whether that lock is \<open>ptable.lock\<close> itself.
\<close>

definition sched_out :: "'z pst_scheme \<Rightarrow> (bool \<times> 'z pst_scheme) res" where
  "sched_out s =
     bnd (myproc s) (\<lambda>(p, s).
     bnd (holding (mcpu s) (pt_lock s)) (\<lambda>(h, c).
       let s = s\<lparr>mcpu := c\<rparr>
       in if \<not> h then panic ''sched ptable.lock''
          else if ncli (mcpu s) \<noteq> 1 then panic ''sched locks''
          else case p of None \<Rightarrow> Inl OutOfRange
          | Some i \<Rightarrow>
            if pstate (procs s ! i) = RUNNING then panic ''sched running''
            else if iflag (mcpu s) then panic ''sched interruptible''
            else Inr (intena (mcpu s), s)))"

definition sched_in :: "bool \<Rightarrow> 'z mach_scheme \<Rightarrow> 'z mach_scheme" where
  "sched_in i s = s\<lparr>mcpu := (mcpu s)\<lparr>intena := i\<rparr>\<rparr>"

definition yield_out :: "'z pst_scheme \<Rightarrow> (bool \<times> 'z pst_scheme) res" where
  "yield_out s =
     bnd (pt_acquire s) (\<lambda>s.
     bnd (myproc s) (\<lambda>(p, s).
       case p of None \<Rightarrow> Inl OutOfRange
       | Some i \<Rightarrow> sched_out (setp i (\<lambda>q. q\<lparr>pstate := RUNNABLE\<rparr>) s)))"

definition yield_in :: "bool \<Rightarrow> 'z pst_scheme \<Rightarrow> 'z pst_scheme res" where
  "yield_in i s = pt_release (sched_in i s)"

definition sleep_out ::
  "bool \<Rightarrow> ('z pst_scheme \<Rightarrow> 'z pst_scheme res) \<Rightarrow> chan \<Rightarrow> 'z pst_scheme \<Rightarrow>
     (bool \<times> 'z pst_scheme) res" where
  "sleep_out is_ptlock rel ch s =
     bnd (myproc s) (\<lambda>(p, s).
       case p of None \<Rightarrow> panic ''sleep''
       | Some i \<Rightarrow>
         bnd (if is_ptlock then Inr s else bnd (pt_acquire s) rel) (\<lambda>s.
           sched_out (setp i (\<lambda>q. q\<lparr>pchan := Some ch, pstate := SLEEPING\<rparr>) s)))"

definition sleep_in ::
  "bool \<Rightarrow> ('z pst_scheme \<Rightarrow> 'z pst_scheme res) \<Rightarrow> nat \<Rightarrow> bool \<Rightarrow> 'z pst_scheme \<Rightarrow>
     'z pst_scheme res" where
  "sleep_in is_ptlock acq i b s =
     (let s = sched_in b s;
          s = setp i (\<lambda>q. q\<lparr>pchan := None\<rparr>) s
      in if is_ptlock then Inr s else bnd (pt_release s) acq)"

end
