(* ===== verification/Fifo.thy ===== *)
theory Fifo
  imports Prelude
begin

text \<open>
  The contract of a bounded first-in first-out buffer.  The kernel has three rings of this
  kind, each with its own index arithmetic: the run queues of the feedback scheduler, the
  data buffer of a pipe and the console's input buffer.  A provider gives the elements it
  holds (\<open>contents\<close>) and when another element fits (\<open>room\<close>); what a client may conclude
  about whole sequences of operations is proved here once.
\<close>

datatype 'a fifo_op = Put 'a | Get

locale fifo =
  fixes inv :: "'q \<Rightarrow> bool"
    and contents :: "'q \<Rightarrow> 'a list"
    and room :: "'q \<Rightarrow> bool"
    and put :: "'a \<Rightarrow> 'q \<Rightarrow> 'q"
    and front :: "'q \<Rightarrow> 'a"
    and rest :: "'q \<Rightarrow> 'q"
  assumes put_inv: "inv q \<Longrightarrow> room q \<Longrightarrow> inv (put x q)"
    and put_contents: "inv q \<Longrightarrow> room q \<Longrightarrow> contents (put x q) = contents q @ [x]"
    and rest_inv: "inv q \<Longrightarrow> contents q \<noteq> [] \<Longrightarrow> inv (rest q)"
    and rest_contents: "inv q \<Longrightarrow> contents q \<noteq> [] \<Longrightarrow> contents (rest q) = tl (contents q)"
    and front_contents: "inv q \<Longrightarrow> contents q \<noteq> [] \<Longrightarrow> front q = hd (contents q)"
begin

text \<open>Running a sequence of operations: \<open>None\<close> when one of them does not fit.\<close>

fun run_ops :: "'a fifo_op list \<Rightarrow> 'q \<Rightarrow> ('a list \<times> 'q) option" where
  "run_ops [] q = Some ([], q)"
| "run_ops (Put x # ops) q = (if room q then run_ops ops (put x q) else None)"
| "run_ops (Get # ops) q =
     (if contents q = [] then None
      else map_option (\<lambda>(out, q'). (front q # out, q')) (run_ops ops (rest q)))"

fun inputs :: "'a fifo_op list \<Rightarrow> 'a list" where
  "inputs [] = []"
| "inputs (Put x # ops) = x # inputs ops"
| "inputs (Get # ops) = inputs ops"

lemma run_ops_inv: "inv q \<Longrightarrow> run_ops ops q = Some (out, q') \<Longrightarrow> inv q'"
proof (induction ops q arbitrary: out q' rule: run_ops.induct)
  case (1 q)
  then show ?case by simp
next
  case (2 x ops q)
  then show ?case by (auto simp: put_inv split: if_splits)
next
  case (3 ops q)
  then show ?case by (auto simp: rest_inv split: if_splits)
qed

text \<open>
  Nothing is lost, duplicated or reordered: what came out, followed by what is still
  inside, is what was inside at first, followed by what was put in.
\<close>

lemma run_ops_fifo:
  "inv q \<Longrightarrow> run_ops ops q = Some (out, q') \<Longrightarrow> out @ contents q' = contents q @ inputs ops"
proof (induction ops q arbitrary: out q' rule: run_ops.induct)
  case (1 q)
  then show ?case by simp
next
  case (2 x ops q)
  then show ?case by (simp add: put_inv put_contents split: if_splits)
next
  case (3 ops q)
  then obtain out' where run: "run_ops ops (rest q) = Some (out', q')"
    and out: "out = front q # out'" and ne: "contents q \<noteq> []"
    by (auto split: if_splits)
  have "out' @ contents q' = tl (contents q) @ inputs ops"
    using 3 run ne by (simp add: rest_inv rest_contents)
  then show ?case using out ne 3 by (simp add: front_contents)
qed

end

end
