(* ===== verification/RunQueue.thy ===== *)
theory RunQueue
  imports ProcTable Fifo
begin

text \<open>
  The five run queues of the feedback scheduler as rings (\<open>enqueue\<close> and \<open>dequeue\<close> of
  \<^verbatim>\<open>proc.c\<close>): \<open>queue[k][head..tail)\<close>, indices modulo \<open>NPROC\<close>, empty when head and tail
  are equal.  A ring therefore holds at most \<open>NPROC - 1\<close> entries; one more wraps the tail
  onto the head, and the ring reads as empty.
\<close>

fun ring_from :: "nat \<Rightarrow> nat \<Rightarrow> nat \<Rightarrow> nat list" where
  "ring_from fuel i t =
     (if i = t then []
      else case fuel of 0 \<Rightarrow> [] | Suc f \<Rightarrow> i # ring_from f ((i + 1) mod NPROC) t)"

declare ring_from.simps [simp del]

definition rq :: "nat \<Rightarrow> 'z pst_scheme \<Rightarrow> nat option list" where
  "rq k s = map (\<lambda>i. queue s ! k ! i) (ring_from NPROC (queue_head s ! k) (queue_tail s ! k))"

definition pt_shape :: "'z pst_scheme \<Rightarrow> bool" where
  "pt_shape s \<longleftrightarrow> length (procs s) = NPROC \<and> length (queue_head s) = 5 \<and>
     length (queue_tail s) = 5 \<and> length (queue s) = 5 \<and>
     (\<forall>k<5. length (queue s ! k) = NPROC \<and> queue_head s ! k < NPROC \<and> queue_tail s ! k < NPROC)"

lemma ring_from_eq:
  assumes "h < NPROC" "t < NPROC" "(t + NPROC - h) mod NPROC \<le> fuel"
  shows "ring_from fuel h t = map (\<lambda>j. (h + j) mod NPROC) [0..<(t + NPROC - h) mod NPROC]"
  using assms
proof (induction fuel arbitrary: h)
  case 0
  then have "h = t" by (auto simp: mod_if split: if_splits)
  then show ?case by (simp add: ring_from.simps)
next
  case (Suc f)
  show ?case
  proof (cases "h = t")
    case True
    then show ?thesis by (simp add: ring_from.simps)
  next
    case False
    let ?d = "(t + NPROC - h) mod NPROC" and ?h = "(h + 1) mod NPROC"
    have d: "?d = Suc ((t + NPROC - ?h) mod NPROC)"
      using False Suc.prems by (auto simp: mod_if split: if_splits)
    have IH: "ring_from f ?h t = map (\<lambda>j. (?h + j) mod NPROC) [0..<(t + NPROC - ?h) mod NPROC]"
      using Suc.prems d by (intro Suc.IH) auto
    have "map (\<lambda>j. (h + j) mod NPROC) [0..<?d] =
        h # map (\<lambda>j. (?h + j) mod NPROC) [0..<(t + NPROC - ?h) mod NPROC]"
      unfolding d upt_conv_Cons [OF zero_less_Suc] map_Suc_upt [symmetric]
      using Suc.prems by (simp add: mod_simps add.commute)
    then show ?thesis using False IH by (simp add: ring_from.simps [of "Suc f" h t])
  qed
qed

definition qlen :: "nat \<Rightarrow> 'z pst_scheme \<Rightarrow> nat" where
  "qlen k s = (queue_tail s ! k + NPROC - queue_head s ! k) mod NPROC"

lemma rq_eq:
  assumes "pt_shape s" "k < 5"
  shows "rq k s = map (\<lambda>j. queue s ! k ! ((queue_head s ! k + j) mod NPROC)) [0..<qlen k s]"
proof -
  have "queue_head s ! k < NPROC" "queue_tail s ! k < NPROC"
    using assms by (auto simp: pt_shape_def)
  then have "ring_from NPROC (queue_head s ! k) (queue_tail s ! k) =
      map (\<lambda>j. (queue_head s ! k + j) mod NPROC) [0..<qlen k s]"
    unfolding qlen_def by (intro ring_from_eq) auto
  then show ?thesis by (simp add: rq_def)
qed

lemma length_rq: "pt_shape s \<Longrightarrow> k < 5 \<Longrightarrow> length (rq k s) = qlen k s"
  by (simp add: rq_eq)

lemma qlen_less: "qlen k s < NPROC"
  by (simp add: qlen_def)

subsection \<open>enqueue\<close>

lemma setp_simps [simp]:
  "procs (setp i f s) = upd i f (procs s)"
  "queue (setp i f s) = queue s"
  "queue_head (setp i f s) = queue_head s"
  "queue_tail (setp i f s) = queue_tail s"
  "pt_lock (setp i f s) = pt_lock s"
  "mcpu (setp i f s) = mcpu s"
  "nextpid (setp i f s) = nextpid s"
  "initproc (setp i f s) = initproc s"
  "ticks (setp i f s) = ticks s"
  "mem (setp i f s) = mem s"
  "freelist (setp i f s) = freelist s"
  "kmem_lock (setp i f s) = kmem_lock s"
  "use_lock (setp i f s) = use_lock s"
  "kend (setp i f s) = kend s"
  "sflag (setp i f s) = sflag s"
  by (simp_all add: setp_def)

lemma enqueue_range:
  "enqueue k p s = Inr s' \<Longrightarrow> 0 \<le> k \<and> k \<le> 4"
  by (auto simp: enqueue_def Let_def panic_def split: if_splits)

lemma enqueue_shape:
  "pt_shape s \<Longrightarrow> enqueue k p s = Inr s' \<Longrightarrow> pt_shape s'"
  by (auto simp: enqueue_def pt_shape_def Let_def panic_def split: if_splits)

lemma rq_enqueue_same:
  assumes shape: "pt_shape s" and k: "k < 5" and len: "qlen k s < NPROC - 1"
    and enq: "enqueue (int k) p s = Inr s'"
  shows "rq k s' = rq k s @ [Some p]" and "qlen k s' = Suc (qlen k s)"
proof -
  let ?h = "queue_head s ! k" and ?t = "queue_tail s ! k"
  have ht: "?h < 64" "?t < 64" "length (queue s ! k) = 64" "k < length (queue s)"
      "k < length (queue_tail s)"
    using shape k by (auto simp: pt_shape_def)
  have s': "queue_head s' = queue_head s" "queue_tail s' ! k = (?t + 1) mod 64"
      "queue s' ! k = (queue s ! k)[?t := Some p]"
    using enq ht by (auto simp: enqueue_def Let_def panic_def split: if_splits)
  show len': "qlen k s' = Suc (qlen k s)"
    using len ht by (auto simp: qlen_def s' mod_if split: if_splits)
  have tail: "(?h + qlen k s) mod 64 = ?t"
    using ht by (auto simp: qlen_def mod_if split: if_splits)
  have keep: "(?h + j) mod 64 \<noteq> ?t" if "j < qlen k s" for j
    using mod_ring_inj [of j 64 "qlen k s" ?h] tail that qlen_less [of k s] by auto
  have "rq k s' = map (\<lambda>j. (queue s ! k)[?t := Some p] ! ((?h + j) mod 64)) [0..<Suc (qlen k s)]"
    using rq_eq [OF enqueue_shape [OF shape enq] k] by (simp add: len' s')
  also have "\<dots> = rq k s @ [Some p]"
    using keep [THEN not_sym] ht by (simp add: rq_eq [OF shape k] tail)
  finally show "rq k s' = rq k s @ [Some p]" .
qed

lemma rq_enqueue_other:
  assumes "enqueue k p s = Inr s'" "nat k \<noteq> j" "pt_shape s" "j < 5"
  shows "rq j s' = rq j s"
  using assms by (auto simp: enqueue_def rq_def pt_shape_def Let_def panic_def split: if_splits)

lemma enqueue_ok: "0 \<le> k \<Longrightarrow> k \<le> 4 \<Longrightarrow> \<exists>s'. enqueue k p s = Inr s'"
  by (auto simp: enqueue_def Let_def)

text \<open>The full ring: one entry too many makes all of them disappear.\<close>

lemma rq_enqueue_full:
  assumes shape: "pt_shape s" and k: "k < 5" and len: "qlen k s = NPROC - 1"
    and enq: "enqueue (int k) p s = Inr s'"
  shows "rq k s' = []"
proof -
  have ht: "queue_head s ! k < 64" "queue_tail s ! k < 64" "k < length (queue_tail s)"
    using shape k by (auto simp: pt_shape_def)
  have "queue_head s' = queue_head s" "queue_tail s' ! k = (queue_tail s ! k + 1) mod 64"
    using enq ht by (auto simp: enqueue_def Let_def panic_def split: if_splits)
  then have "qlen k s' = 0"
    using len ht by (auto simp: qlen_def mod_if split: if_splits)
  then show ?thesis using rq_eq [OF enqueue_shape [OF shape enq] k] by simp
qed

subsection \<open>dequeue\<close>

lemma dequeue_ok: "k < 5 \<Longrightarrow> dequeue (int k) s =
    Inr (s\<lparr>queue_head := upd k (\<lambda>h. (h + 1) mod NPROC) (queue_head s)\<rparr>)"
  by (auto simp: dequeue_def)

lemma dequeue_shape: "pt_shape s \<Longrightarrow> dequeue k s = Inr s' \<Longrightarrow> pt_shape s'"
  by (auto simp: dequeue_def pt_shape_def panic_def split: if_splits)

lemma rq_dequeue_same:
  assumes shape: "pt_shape s" and k: "k < 5" and ne: "rq k s \<noteq> []"
    and deq: "dequeue (int k) s = Inr s'"
  shows "rq k s' = tl (rq k s)"
proof -
  let ?h = "queue_head s ! k" and ?t = "queue_tail s ! k"
  have ht: "?h < 64" "?t < 64" "k < length (queue_head s)"
    using shape k by (auto simp: pt_shape_def)
  have s': "queue_tail s' = queue_tail s" "queue s' = queue s"
      "queue_head s' ! k = (?h + 1) mod 64"
    using deq ht k by (auto simp: dequeue_ok)
  have "0 < qlen k s" using ne by (simp add: rq_eq [OF shape k])
  then obtain n where n: "qlen k s = Suc n" by (cases "qlen k s") auto
  then have n': "qlen k s' = n"
    using ht by (auto simp: qlen_def s' mod_if split: if_splits)
  show ?thesis
    unfolding rq_eq [OF shape k] rq_eq [OF dequeue_shape [OF shape deq] k] n n' s'
      upt_conv_Cons [OF zero_less_Suc] map_Suc_upt [symmetric]
    by (simp add: mod_simps add.commute)
qed

lemma rq_dequeue_other:
  "dequeue k s = Inr s' \<Longrightarrow> nat k \<noteq> j \<Longrightarrow> pt_shape s \<Longrightarrow> j < 5 \<Longrightarrow> rq j s' = rq j s"
  by (auto simp: dequeue_def rq_def pt_shape_def panic_def split: if_splits)

text \<open>Each run queue is a first-in first-out buffer with room for \<open>NPROC - 1\<close> processes.\<close>

definition rqp :: "nat \<Rightarrow> 'z pst_scheme \<Rightarrow> nat list" where
  "rqp k s = map the (rq k s)"

interpretation rqfifo: fifo "\<lambda>s. pt_shape s \<and> k < 5" "rqp k" "\<lambda>s. length (rqp k s) < NPROC - 1"
    "\<lambda>p s. projr (enqueue (int k) p s)"
    "\<lambda>s. the (queue s ! k ! (queue_head s ! k))"
    "\<lambda>s. projr (dequeue (int k) s)"
  for k
proof (unfold_locales, goal_cases)
  case (1 q x)
  then obtain s' where "enqueue (int k) x q = Inr s'" using enqueue_ok [of "int k"] by force
  then show ?case using 1 enqueue_shape by auto
next
  case (2 q x)
  then obtain s' where "enqueue (int k) x q = Inr s'" using enqueue_ok [of "int k"] by force
  then show ?case using 2 rq_enqueue_same [of q k x s'] by (simp add: rqp_def length_rq)
next
  case (3 q)
  then show ?case using dequeue_shape [of q "int k"] by (auto simp: dequeue_ok)
next
  case (4 q)
  then show ?case
    using rq_dequeue_same [of q k "projr (dequeue (int k) q)"]
    by (simp add: rqp_def dequeue_ok map_tl)
next
  case (5 q)
  then have "rq k q \<noteq> []" by (simp add: rqp_def)
  then have "0 < qlen k q" using 5 by (simp add: rq_eq)
  then show ?case using 5 by (simp add: rqp_def rq_eq hd_map upt_conv_Cons pt_shape_def)
qed

end
