(* ===== verification/Scheduler.thy ===== *)
theory Scheduler
  imports RunQueue "HOL-Library.Product_Lexorder"
begin

text \<open>
  The scheduler (\<open>scheduler\<close> of \<^verbatim>\<open>proc.c\<close>) with its four policies, selected when the
  kernel is built (\<open>SCHEDULER\<close> in the Makefile): \<open>DEFAULT\<close>, \<open>PBS\<close>, \<open>FCFS\<close> and \<open>MLFQ\<close>.

  One pass of the \<open>for(;;)\<close> loop is \<open>scheduler_body\<close>; the variables that survive a pass are
  the pointer \<open>p\<close> and \<open>ageing_update\<close>.  What the chosen process does between the \<open>swtch\<close>
  to it and the \<open>swtch\<close> back is the argument \<open>run\<close>: any function on the kernel state.
\<close>

datatype policy = DEFAULT | PBS | FCFS | MLFQ

definition slice :: "nat list" where
  "slice = [1, 2, 4, 8, 16]"

definition Ageing_const :: u32 where
  "Ageing_const = 1000"

definition set_cpu_proc :: "nat option \<Rightarrow> 'z mach_scheme \<Rightarrow> 'z mach_scheme" where
  "set_cpu_proc p s = s\<lparr>mcpu := (mcpu s)\<lparr>cpu_proc := p\<rparr>\<rparr>"

definition sti :: "'z mach_scheme \<Rightarrow> 'z mach_scheme" where
  "sti s = s\<lparr>mcpu := (mcpu s)\<lparr>iflag := True\<rparr>\<rparr>"

definition dispatch ::
  "(nat \<Rightarrow> 'z pst_scheme \<Rightarrow> 'z pst_scheme res) \<Rightarrow> nat \<Rightarrow> 'z pst_scheme \<Rightarrow> 'z pst_scheme res" where
  "dispatch run p s =
     (let s = set_cpu_proc (Some p) s
      in bnd (switchuvm (Some p) s) (\<lambda>s.
         let s = setp p (\<lambda>q. q\<lparr>pstate := RUNNING\<rparr>) s
         in bnd (run p s) (\<lambda>s. Inr (set_cpu_proc None (switchkvm s)))))"

definition sched_init :: "'z pst_scheme \<Rightarrow> 'z pst_scheme" where
  "sched_init s =
     (let s = (if sflag s = 0
               then s\<lparr>queue_head := replicate 5 0, queue_tail := replicate 5 0,
                      sflag := sflag s + 1\<rparr>
               else s)
      in set_cpu_proc None s)"

text \<open>
  \<open>DEFAULT\<close>: the first runnable process of the table.  Where there is none, the code reads
  the \<open>state\<close> field of \<open>ptable.proc[NPROC]\<close>, one past the end, which is where
  \<open>queue_head[3]\<close> lies; only the value 3 (\<open>RUNNABLE\<close>) there would make it go on.
\<close>

definition default_pass ::
  "(nat \<Rightarrow> 'z pst_scheme \<Rightarrow> 'z pst_scheme res) \<Rightarrow> 'z pst_scheme \<Rightarrow> 'z pst_scheme res" where
  "default_pass run s =
     (case first_idx (\<lambda>p. pstate p = RUNNABLE) (procs s) of
        Some p \<Rightarrow> dispatch run p s
      | None \<Rightarrow> if queue_head s ! 3 = 3 then Inl OutOfRange else Inr s)"

definition pbs_step :: "proc list \<Rightarrow> nat option \<Rightarrow> nat \<Rightarrow> nat option" where
  "pbs_step ps highP p1 =
     (case highP of
        Some h \<Rightarrow>
          if pstate (ps ! p1) = RUNNABLE \<and> sint (priority (ps ! p1)) < sint (priority (ps ! h))
          then Some p1
          else if pstate (ps ! p1) = RUNNABLE \<and> priority (ps ! h) = priority (ps ! p1)
          then if sint (last_executed (ps ! p1)) < sint (last_executed (ps ! h))
               then Some p1 else Some h
          else Some h
      | None \<Rightarrow> if pstate (ps ! p1) = RUNNABLE then Some p1 else None)"

definition pbs_pick :: "proc list \<Rightarrow> nat option" where
  "pbs_pick ps = fold (\<lambda>i h. pbs_step ps h i) [0..<NPROC] None"

definition pbs_pass ::
  "(nat \<Rightarrow> 'z pst_scheme \<Rightarrow> 'z pst_scheme res) \<Rightarrow> nat option \<Rightarrow> 'z pst_scheme \<Rightarrow>
     (nat option \<times> 'z pst_scheme) res" where
  "pbs_pass run p s =
     (let highP = pbs_pick (procs s);
          p = (if highP \<noteq> None then highP else p)
      in case p of
           Some i \<Rightarrow>
             if pstate (procs s ! i) = RUNNABLE
             then bnd (dispatch run i (setp i (\<lambda>q. q\<lparr>last_executed := ticks s\<rparr>) s))
                    (\<lambda>s. Inr (p, s))
             else Inr (p, s)
         | None \<Rightarrow> Inr (p, s))"

definition fcfs_step :: "proc list \<Rightarrow> nat option \<Rightarrow> nat \<Rightarrow> nat option" where
  "fcfs_step ps minP p1 =
     (if pstate (ps ! p1) \<noteq> RUNNABLE then minP
      else case minP of
             Some m \<Rightarrow> if sint (ctime (ps ! p1)) < sint (ctime (ps ! m)) then Some p1 else Some m
           | None \<Rightarrow> Some p1)"

definition fcfs_pick :: "proc list \<Rightarrow> nat option" where
  "fcfs_pick ps = fold (\<lambda>i m. fcfs_step ps m i) [0..<NPROC] None"

definition fcfs_pass ::
  "(nat \<Rightarrow> 'z pst_scheme \<Rightarrow> 'z pst_scheme res) \<Rightarrow> nat option \<Rightarrow> 'z pst_scheme \<Rightarrow>
     (nat option \<times> 'z pst_scheme) res" where
  "fcfs_pass run p s =
     (let p = (case fcfs_pick (procs s) of
                 Some m \<Rightarrow> if pstate (procs s ! m) = RUNNABLE then Some m else p
               | None \<Rightarrow> p)
      in case p of
           Some i \<Rightarrow> if pstate (procs s ! i) = RUNNABLE
                     then bnd (dispatch run i s) (\<lambda>s. Inr (p, s)) else Inr (p, s)
         | None \<Rightarrow> Inr (p, s))"

text \<open>
  \<open>MLFQ\<close>: the first non-null slot of the first queue that has one.  \<open>ring_from\<close> lists the
  slots in the order in which \<open>while (i != queue_tail[priority])\<close> visits them.
\<close>

fun mlfq_scan :: "nat list \<Rightarrow> 'z pst_scheme \<Rightarrow> nat option" where
  "mlfq_scan [] s = None"
| "mlfq_scan (k # ks) s =
     (case find (\<lambda>e. e \<noteq> None) (rq k s) of Some e \<Rightarrow> e | None \<Rightarrow> mlfq_scan ks s)"

definition mlfq_pick :: "'z pst_scheme \<Rightarrow> nat option" where
  "mlfq_pick s = mlfq_scan [0, 1, 2, 3, 4] s"

text \<open>
  The time slices of the chosen process: at most \<open>slice[p->queue]\<close> runs, ended as soon as
  the process comes back in another state than \<open>RUNNABLE\<close>.
\<close>

function slice_loop ::
  "(nat \<Rightarrow> 'z pst_scheme \<Rightarrow> 'z pst_scheme res) \<Rightarrow> nat \<Rightarrow> nat \<Rightarrow> 'z pst_scheme \<Rightarrow>
     'z pst_scheme res" where
  "slice_loop run p a s =
     (let q = pqueue (procs s ! p)
      in if q < 0 \<or> 4 < q then Inl OutOfRange
         else if a < slice ! nat q
         then bnd (if pstate (procs s ! p) = RUNNABLE
                   then dispatch run p (setp p (\<lambda>q. q\<lparr>num_run := num_run q + 1\<rparr>) s)
                   else Inr (set_cpu_proc None s)) (\<lambda>s.
              if pstate (procs s ! p) \<noteq> RUNNABLE then Inr s
              else slice_loop run p (a + 1) s)
         else Inr s)"
  by pat_completeness auto
termination
proof (relation "measure (\<lambda>(run, p, a, s). 16 - a)", goal_cases)
  case 1
  then show ?case by simp
next
  case (2 run p a s q s')
  then have "nat q \<in> {0, 1, 2, 3, 4}" by auto
  then have "slice ! nat q \<le> 16" by (auto simp: slice_def)
  then show ?case using 2 by simp
qed

declare slice_loop.simps [simp del]

definition mlfq_run ::
  "(nat \<Rightarrow> 'z pst_scheme \<Rightarrow> 'z pst_scheme res) \<Rightarrow> nat \<Rightarrow> 'z pst_scheme \<Rightarrow> 'z pst_scheme res" where
  "mlfq_run run p s =
     (if pstate (procs s ! p) \<noteq> RUNNABLE then panic ''process is sleeping''
      else bnd (dequeue (pqueue (procs s ! p)) s) (\<lambda>s.
           bnd (slice_loop run p 0 s) (\<lambda>s.
             if pstate (procs s ! p) = RUNNABLE
             then let s = (if pqueue (procs s ! p) < 4
                           then setp p (\<lambda>q. q\<lparr>pqueue := pqueue q + 1\<rparr>) s else s)
                  in enqueue (pqueue (procs s ! p)) p s
             else Inr s)))"

text \<open>
  Ageing walks the slots of queue \<open>k\<close>, from its head to its tail.  For an entry that has
  not run for more than \<open>Ageing_const\<close> ticks it removes the \<open>head\<close> of the queue and appends
  the entry to the queue above its own.  The tail is read again at every step, so the walk
  carries fuel; a null slot is a null dereference.
\<close>

fun ageing_walk :: "nat \<Rightarrow> nat \<Rightarrow> nat \<Rightarrow> 'z pst_scheme \<Rightarrow> 'z pst_scheme res" where
  "ageing_walk fuel k i s =
     (if i = queue_tail s ! k then Inr s
      else case fuel of 0 \<Rightarrow> Inl OutOfRange
      | Suc f \<Rightarrow>
        (case queue s ! k ! i of None \<Rightarrow> Inl OutOfRange
         | Some p \<Rightarrow>
           bnd (if ticks s - last_executed (procs s ! p) > Ageing_const
                then bnd (dequeue (int k) s) (enqueue (pqueue (procs s ! p) - 1) p)
                else Inr s) (\<lambda>s.
           ageing_walk f k ((i + 1) mod NPROC) s)))"

declare ageing_walk.simps [simp del]

definition ageing_queue :: "nat \<Rightarrow> 'z pst_scheme \<Rightarrow> 'z pst_scheme res" where
  "ageing_queue k s = ageing_walk NPROC k (queue_head s ! k) s"

definition ageing :: "i32 \<Rightarrow> 'z pst_scheme \<Rightarrow> (i32 \<times> 'z pst_scheme) res" where
  "ageing ageing_update s =
     (if ticks s > ageing_update + Ageing_const
      then bnd (ageing_queue 1 s) (\<lambda>s. bnd (ageing_queue 2 s) (\<lambda>s.
           bnd (ageing_queue 3 s) (\<lambda>s. bnd (ageing_queue 4 s) (\<lambda>s. Inr (ticks s, s)))))
      else Inr (ageing_update, s))"

definition mlfq_pass ::
  "(nat \<Rightarrow> 'z pst_scheme \<Rightarrow> 'z pst_scheme res) \<Rightarrow> i32 \<Rightarrow> 'z pst_scheme \<Rightarrow>
     (i32 \<times> 'z pst_scheme) res" where
  "mlfq_pass run au s =
     bnd (case mlfq_pick s of Some p \<Rightarrow> mlfq_run run p s | None \<Rightarrow> Inr s) (ageing au)"

definition scheduler_body ::
  "policy \<Rightarrow> (nat \<Rightarrow> 'z pst_scheme \<Rightarrow> 'z pst_scheme res) \<Rightarrow> nat option \<times> i32 \<Rightarrow>
     'z pst_scheme \<Rightarrow> ((nat option \<times> i32) \<times> 'z pst_scheme) res" where
  "scheduler_body pol run v s =
     bnd (pt_acquire (sti s)) (\<lambda>s.
     bnd (case pol of
            DEFAULT \<Rightarrow> bnd (default_pass run s) (\<lambda>s. Inr (v, s))
          | PBS \<Rightarrow> bnd (pbs_pass run (fst v) s) (\<lambda>(p, s). Inr ((p, snd v), s))
          | FCFS \<Rightarrow> bnd (fcfs_pass run (fst v) s) (\<lambda>(p, s). Inr ((p, snd v), s))
          | MLFQ \<Rightarrow> bnd (mlfq_pass run (snd v) s) (\<lambda>(au, s). Inr ((fst v, au), s))) (\<lambda>(v, s).
     bnd (pt_release s) (\<lambda>s. Inr (v, s))))"

end
