(* ===== verification/SchedPolicy.thy ===== *)
theory SchedPolicy
  imports Scheduler
begin

text \<open>
  What the scheduling policies choose.  The priority and the first-come policies both walk
  the table once and keep the best candidate so far; their common contract is
  \<open>best_scan\<close>, interpreted below on both.
\<close>

locale best_scan =
  fixes pick_step :: "proc list \<Rightarrow> nat option \<Rightarrow> nat \<Rightarrow> nat option"
    and key :: "proc \<Rightarrow> 'k :: linorder"
  assumes step_skip: "pstate (ps ! i) \<noteq> RUNNABLE \<Longrightarrow> pick_step ps h i = h"
    and step_first: "pstate (ps ! i) = RUNNABLE \<Longrightarrow> pick_step ps None i = Some i"
    and step_less: "pstate (ps ! i) = RUNNABLE \<Longrightarrow> key (ps ! i) < key (ps ! j) \<Longrightarrow>
          pick_step ps (Some j) i = Some i"
    and step_keep: "pstate (ps ! i) = RUNNABLE \<Longrightarrow> \<not> key (ps ! i) < key (ps ! j) \<Longrightarrow>
          pick_step ps (Some j) i = Some j"
begin

definition scan_upto :: "proc list \<Rightarrow> nat \<Rightarrow> nat option" where
  "scan_upto ps n = fold (\<lambda>i h. pick_step ps h i) [0..<n] None"

lemma scan_upto_Suc: "scan_upto ps (Suc n) = pick_step ps (scan_upto ps n) n"
  by (simp add: scan_upto_def)

lemma scan_None: "scan_upto ps n = None \<longleftrightarrow> (\<forall>i<n. pstate (ps ! i) \<noteq> RUNNABLE)"
proof (induction n)
  case 0
  then show ?case by (simp add: scan_upto_def)
next
  case (Suc n)
  show ?case
  proof (cases "pstate (ps ! n) = RUNNABLE")
    case True
    then have "scan_upto ps (Suc n) \<noteq> None"
      by (cases "scan_upto ps n")
        (auto simp: scan_upto_Suc step_first step_less step_keep split: option.splits,
         metis option.distinct(1) step_keep step_less)
    then show ?thesis using True by auto
  next
    case False
    then show ?thesis using Suc by (auto simp: scan_upto_Suc step_skip less_Suc_eq)
  qed
qed

lemma scan_Some:
  "scan_upto ps n = Some j \<Longrightarrow>
     j < n \<and> pstate (ps ! j) = RUNNABLE \<and>
     (\<forall>i<n. pstate (ps ! i) = RUNNABLE \<longrightarrow>
        key (ps ! j) \<le> key (ps ! i) \<and> (i < j \<longrightarrow> key (ps ! j) < key (ps ! i)))"
proof (induction n arbitrary: j)
  case 0
  then show ?case by (simp add: scan_upto_def)
next
  case (Suc n)
  show ?case
  proof (cases "pstate (ps ! n) = RUNNABLE")
    case False
    then have "scan_upto ps n = Some j" using Suc.prems by (simp add: scan_upto_Suc step_skip)
    with Suc.IH False show ?thesis by (auto simp: less_Suc_eq)
  next
    case run: True
    show ?thesis
    proof (cases "scan_upto ps n")
      case None
      then have "j = n" using Suc.prems run by (simp add: scan_upto_Suc step_first)
      moreover have "\<forall>i<n. pstate (ps ! i) \<noteq> RUNNABLE" using None scan_None by blast
      ultimately show ?thesis using run by (auto simp: less_Suc_eq)
    next
      case (Some h)
      note h = Suc.IH [OF Some]
      show ?thesis
      proof (cases "key (ps ! n) < key (ps ! h)")
        case True
        then have "j = n" using Suc.prems run Some by (simp add: scan_upto_Suc step_less)
        with h True run show ?thesis by (fastforce simp: less_Suc_eq)
      next
        case False
        then have "j = h" using Suc.prems run Some by (simp add: scan_upto_Suc step_keep)
        with h False show ?thesis by (auto simp: less_Suc_eq)
      qed
    qed
  qed
qed

end

lemma sint_eq_iff: "sint a = sint b \<longleftrightarrow> a = (b :: i32)"
  by (metis word_eq_iff_signed)

interpretation pbs: best_scan pbs_step "\<lambda>p. (sint (priority p), sint (last_executed p))"
proof (unfold_locales, goal_cases)
  case (3 ps i j)
  then show ?case by (auto simp: pbs_step_def less_prod_def' sint_eq_iff split: if_splits)
next
  case (4 ps i j)
  then show ?case
    by (auto simp: pbs_step_def less_prod_def' split: if_splits)
qed (auto simp: pbs_step_def split: option.splits)

interpretation fcfs: best_scan fcfs_step "\<lambda>p. sint (ctime p)"
  by unfold_locales (auto simp: fcfs_step_def split: option.splits)

lemma pbs_pick_scan: "pbs_pick ps = pbs.scan_upto ps NPROC"
  by (simp add: pbs_pick_def pbs.scan_upto_def)

lemma fcfs_pick_scan: "fcfs_pick ps = fcfs.scan_upto ps NPROC"
  by (simp add: fcfs_pick_def fcfs.scan_upto_def)

end
