(* ===== verification/MlfqInv.thy ===== *)
theory MlfqInv
  imports Scheduler
begin

text \<open>
  The bookkeeping of the feedback scheduler: the run queues hold exactly the runnable
  processes, each once, in the queue its \<open>queue\<close> field names.  \<open>mlfq_inv_ex X\<close> is the
  invariant with the processes of \<open>X\<close> exempt: while the scheduler runs a process, that
  process is in no queue, whatever its state.
\<close>

definition mlfq_inv_ex :: "nat set \<Rightarrow> 'z pst_scheme \<Rightarrow> bool" where
  "mlfq_inv_ex X s \<longleftrightarrow> pt_shape s \<and>
     (\<forall>p<NPROC. 0 \<le> pqueue (procs s ! p) \<and> pqueue (procs s ! p) \<le> 4) \<and>
     (\<forall>k<5. distinct (rq k s)) \<and>
     (\<forall>k<5. \<forall>e\<in>set (rq k s). \<exists>p<NPROC. e = Some p \<and> p \<notin> X \<and>
        pstate (procs s ! p) = RUNNABLE \<and> pqueue (procs s ! p) = int k) \<and>
     (\<forall>p<NPROC. p \<notin> X \<longrightarrow> pstate (procs s ! p) = RUNNABLE \<longrightarrow>
        Some p \<in> set (rq (nat (pqueue (procs s ! p))) s))"

abbreviation mlfq_inv :: "'z pst_scheme \<Rightarrow> bool" where
  "mlfq_inv \<equiv> mlfq_inv_ex {}"

text \<open>A slot besides \<open>p\<close> that holds no runnable process: no ring can be full.\<close>

definition spare_slot :: "nat \<Rightarrow> 'z pst_scheme \<Rightarrow> bool" where
  "spare_slot p s \<longleftrightarrow> (\<exists>q<NPROC. q \<noteq> p \<and> pstate (procs s ! q) \<noteq> RUNNABLE)"

lemma mlfq_inv_exD:
  assumes "mlfq_inv_ex X s"
  shows "pt_shape s"
    and "p < NPROC \<Longrightarrow> 0 \<le> pqueue (procs s ! p)" and "p < NPROC \<Longrightarrow> pqueue (procs s ! p) \<le> 4"
    and "k < 5 \<Longrightarrow> distinct (rq k s)"
    and "k < 5 \<Longrightarrow> e \<in> set (rq k s) \<Longrightarrow> \<exists>p<NPROC. e = Some p \<and> p \<notin> X \<and>
           pstate (procs s ! p) = RUNNABLE \<and> pqueue (procs s ! p) = int k"
    and "p < NPROC \<Longrightarrow> p \<notin> X \<Longrightarrow> pstate (procs s ! p) = RUNNABLE \<Longrightarrow>
           Some p \<in> set (rq (nat (pqueue (procs s ! p))) s)"
  using assms by (auto simp: mlfq_inv_ex_def)

lemma pt_shape_procs: "pt_shape s \<Longrightarrow> length (procs s) = NPROC"
  by (simp add: pt_shape_def)

lemma rq_setp [simp]: "rq k (setp i f s) = rq k s"
  by (simp add: rq_def)

lemma pt_shape_setp [simp]: "pt_shape (setp i f s) = pt_shape s"
  by (simp add: pt_shape_def)

lemma qlen_setp [simp]: "qlen k (setp i f s) = qlen k s"
  by (simp add: qlen_def)

text \<open>With a spare slot, no queue that misses \<open>p\<close> is full.\<close>

lemma spare_slot_room:
  assumes inv: "mlfq_inv_ex X s" and k: "k < 5" and p: "p < NPROC" "Some p \<notin> set (rq k s)"
    and spare: "spare_slot p s"
  shows "qlen k s < NPROC - 1"
proof -
  obtain q where q: "q < NPROC" "q \<noteq> p" "pstate (procs s ! q) \<noteq> RUNNABLE"
    using spare by (auto simp: spare_slot_def)
  have sub: "set (rq k s) \<subseteq> Some ` ({..<NPROC} - {p, q})"
  proof
    fix e assume e: "e \<in> set (rq k s)"
    then obtain r where "r < NPROC" "e = Some r" "pstate (procs s ! r) = RUNNABLE"
      using mlfq_inv_exD(5) [OF inv k] by blast
    with e p q show "e \<in> Some ` ({..<NPROC} - {p, q})" by auto
  qed
  have "qlen k s = card (set (rq k s))"
    using mlfq_inv_exD(1,4) [OF inv] k by (simp add: length_rq [symmetric] distinct_card)
  also have "\<dots> \<le> card (Some ` ({..<NPROC} - {p, q}))"
    by (rule card_mono [OF _ sub]) simp
  also have "\<dots> = NPROC - 2" using p q by (simp add: card_image card_Diff_subset)
  finally show ?thesis by simp
qed

text \<open>Only the queues, the \<open>queue\<close> fields and which non-exempt processes are runnable matter.\<close>

lemma mlfq_inv_cong:
  assumes inv: "mlfq_inv_ex X s" and shape: "pt_shape s'"
    and rq: "\<And>k. k < 5 \<Longrightarrow> rq k s' = rq k s"
    and qu: "\<And>q. q < NPROC \<Longrightarrow> pqueue (procs s' ! q) = pqueue (procs s ! q)"
    and st: "\<And>q. q < NPROC \<Longrightarrow> q \<notin> X \<Longrightarrow>
      (pstate (procs s' ! q) = RUNNABLE) = (pstate (procs s ! q) = RUNNABLE)"
  shows "mlfq_inv_ex X s'"
  unfolding mlfq_inv_ex_def
proof (intro conjI allI impI ballI)
  fix q assume q: "q < NPROC"
  show "0 \<le> pqueue (procs s' ! q)" "pqueue (procs s' ! q) \<le> 4"
    using mlfq_inv_exD(2,3) [OF inv q] qu [OF q] by auto
next
  fix k e assume k: "k < (5 :: nat)" and "e \<in> set (rq k s')"
  then have "e \<in> set (rq k s)" by (simp add: rq)
  then obtain q where "q < NPROC" "e = Some q" "q \<notin> X" "pstate (procs s ! q) = RUNNABLE"
      "pqueue (procs s ! q) = int k"
    using mlfq_inv_exD(5) [OF inv k] by blast
  then show "\<exists>q<NPROC. e = Some q \<and> q \<notin> X \<and> pstate (procs s' ! q) = RUNNABLE \<and>
      pqueue (procs s' ! q) = int k"
    using qu st by metis
next
  fix q assume q: "q < NPROC" "q \<notin> X" "pstate (procs s' ! q) = RUNNABLE"
  have "nat (pqueue (procs s ! q)) < 5" using mlfq_inv_exD(2,3) [OF inv q(1)] by simp
  then show "Some q \<in> set (rq (nat (pqueue (procs s' ! q))) s')"
    using mlfq_inv_exD(6) [OF inv q(1,2)] q st by (simp add: qu rq)
qed (use shape mlfq_inv_exD(4) [OF inv] rq in auto)

lemma mlfq_inv_setp:
  assumes inv: "mlfq_inv_ex X s"
    and "\<And>q. pqueue (f q) = pqueue q" and "i \<in> X \<or> (\<forall>q. pstate (f q) = pstate q)"
  shows "mlfq_inv_ex X (setp i f s)"
proof (rule mlfq_inv_cong [OF inv])
  show "pt_shape (setp i f s)" using mlfq_inv_exD(1) [OF inv] by simp
qed (use assms pt_shape_procs [OF mlfq_inv_exD(1) [OF inv]] in auto)

text \<open>Putting an exempt process in the queue it names.\<close>

lemma enqueue_inv:
  assumes inv: "mlfq_inv_ex (insert p X) s" and p: "p < NPROC" "p \<notin> X"
    and run: "pstate (procs s ! p) = RUNNABLE" and spare: "spare_slot p s"
    and k: "0 \<le> k" "k \<le> 4"
  obtains s' where "enqueue k p s = Inr s'" and "mlfq_inv_ex X s'"
    and "procs s' = upd p (\<lambda>q. q\<lparr>pqueue := k\<rparr>) (procs s)"
    and "s' = s\<lparr>procs := procs s', queue := queue s', queue_tail := queue_tail s'\<rparr>"
proof -
  obtain s' where s': "enqueue k p s = Inr s'" using enqueue_ok k by blast
  define n where "n = nat k"
  have n: "n < 5" "k = int n" using k by (auto simp: n_def)
  note shape = mlfq_inv_exD(1) [OF inv]
  have len: "length (procs s) = 64" using shape by (simp add: pt_shape_def)
  have notin: "Some p \<notin> set (rq j s)" if "j < 5" for j
    using mlfq_inv_exD(5) [OF inv that] by blast
  have room: "qlen n s < NPROC - 1"
    using spare_slot_room [OF inv n(1) p(1) notin [OF n(1)] spare] .
  have eq: "s' = s\<lparr>procs := upd p (\<lambda>q. q\<lparr>pqueue := k\<rparr>) (procs s),
      queue := upd n (\<lambda>q. q[queue_tail s ! n := Some p]) (queue s),
      queue_tail := upd n (\<lambda>t. (t + 1) mod NPROC) (queue_tail s)\<rparr>"
    using s' k by (auto simp: enqueue_def Let_def setp_def n_def)
  have procs: "procs s' = upd p (\<lambda>q. q\<lparr>pqueue := k\<rparr>) (procs s)"
    and frame: "s' = s\<lparr>procs := procs s', queue := queue s', queue_tail := queue_tail s'\<rparr>"
    by (simp_all add: eq)
  have rq: "rq j s' = (if j = n then rq j s @ [Some p] else rq j s)" if "j < 5" for j
  proof (cases "j = n")
    case True
    have "enqueue (int n) p s = Inr s'" using s' n by simp
    then show ?thesis using rq_enqueue_same(1) [OF shape n(1) room] True by simp
  next
    case False
    then have "nat k \<noteq> j" by (simp add: n_def)
    then show ?thesis using rq_enqueue_other [OF s' _ shape that] False by simp
  qed
  have "mlfq_inv_ex X s'"
    unfolding mlfq_inv_ex_def
  proof (intro conjI allI impI ballI)
    show "pt_shape s'" by (rule enqueue_shape [OF shape s'])
  next
    fix q assume q: "q < NPROC"
    show "0 \<le> pqueue (procs s' ! q)" "pqueue (procs s' ! q) \<le> 4"
      using mlfq_inv_exD(2,3) [OF inv, of q] q k len by (auto simp: procs)
  next
    fix j :: nat assume j: "j < 5"
    show "distinct (rq j s')"
      using mlfq_inv_exD(4) [OF inv j] notin [OF j] by (auto simp: rq [OF j])
  next
    fix j e assume j: "j < (5 :: nat)" and e: "e \<in> set (rq j s')"
    show "\<exists>q<NPROC. e = Some q \<and> q \<notin> X \<and> pstate (procs s' ! q) = RUNNABLE \<and>
        pqueue (procs s' ! q) = int j"
    proof (cases "e = Some p")
      case True
      then have "j = n" using e notin [OF j] by (auto simp: rq [OF j] split: if_splits)
      then show ?thesis using True p run len n by (auto simp: procs)
    next
      case False
      then have "e \<in> set (rq j s)" using e by (auto simp: rq [OF j] split: if_splits)
      then obtain q where "q < NPROC" "e = Some q" "q \<notin> insert p X"
          "pstate (procs s ! q) = RUNNABLE" "pqueue (procs s ! q) = int j"
        using mlfq_inv_exD(5) [OF inv j] by blast
      then show ?thesis using len by (auto simp: procs)
    qed
  next
    fix q assume q: "q < NPROC" "q \<notin> X" "pstate (procs s' ! q) = RUNNABLE"
    show "Some q \<in> set (rq (nat (pqueue (procs s' ! q))) s')"
    proof (cases "q = p")
      case True
      then show ?thesis using len p n by (simp add: procs rq)
    next
      case False
      have "nat (pqueue (procs s ! q)) < 5" using mlfq_inv_exD(2,3) [OF inv, of q] q by simp
      moreover have "Some q \<in> set (rq (nat (pqueue (procs s ! q))) s)"
        using mlfq_inv_exD(6) [OF inv, of q] q False len by (simp add: procs)
      ultimately show ?thesis using q False len by (auto simp: procs rq)
    qed
  qed
  with that s' procs frame show ?thesis by blast
qed

text \<open>Waking a process: the step \<open>wakeup1\<close> and \<open>kill\<close> share.\<close>

lemma exempt_runnable:
  assumes inv: "mlfq_inv_ex X s" and p: "p < NPROC"
    and "pstate (procs s ! p) \<noteq> RUNNABLE" "\<And>q. pqueue (f q) = pqueue q"
  shows "mlfq_inv_ex (insert p X) (setp p f s)"
proof -
  have "mlfq_inv_ex (insert p X) s"
    unfolding mlfq_inv_ex_def
  proof (intro conjI allI impI ballI)
    fix k e assume k: "k < (5 :: nat)" and e: "e \<in> set (rq k s)"
    show "\<exists>q<NPROC. e = Some q \<and> q \<notin> insert p X \<and> pstate (procs s ! q) = RUNNABLE \<and>
        pqueue (procs s ! q) = int k"
      using mlfq_inv_exD(5) [OF inv k e] assms(3) by auto
  qed (use mlfq_inv_exD [OF inv] in auto)
  then show ?thesis using assms(4) by (intro mlfq_inv_setp) auto
qed

lemma make_runnable:
  assumes inv: "mlfq_inv_ex X s" and p: "p < NPROC" "p \<notin> X"
    and st: "pstate (procs s ! p) \<noteq> RUNNABLE" and spare: "spare_slot p s"
  obtains s' where "enqueue (pqueue (procs s ! p)) p (setp p (\<lambda>q. q\<lparr>pstate := RUNNABLE\<rparr>) s) = Inr s'"
    and "mlfq_inv_ex X s'"
    and "procs s' = upd p (\<lambda>q. q\<lparr>pstate := RUNNABLE\<rparr>) (procs s)"
    and "s' = s\<lparr>procs := procs s', queue := queue s', queue_tail := queue_tail s'\<rparr>"
proof -
  let ?s = "setp p (\<lambda>q. q\<lparr>pstate := RUNNABLE\<rparr>) s"
  have len: "length (procs s) = 64" using mlfq_inv_exD(1) [OF inv] by (simp add: pt_shape_def)
  have i: "mlfq_inv_ex (insert p X) ?s" by (rule exempt_runnable [OF inv p(1) st]) simp
  have sp: "spare_slot p ?s"
    using spare len by (auto simp: spare_slot_def)
  have r: "pstate (procs ?s ! p) = RUNNABLE" using p len by simp
  obtain s' where s': "enqueue (pqueue (procs s ! p)) p ?s = Inr s'" "mlfq_inv_ex X s'"
      "procs s' = upd p (\<lambda>q. q\<lparr>pqueue := pqueue (procs s ! p)\<rparr>) (procs ?s)"
      "s' = ?s\<lparr>procs := procs s', queue := queue s', queue_tail := queue_tail s'\<rparr>"
    using enqueue_inv [OF i p r sp mlfq_inv_exD(2,3) [OF inv p(1)]] by metis
  have "procs s' = upd p (\<lambda>q. q\<lparr>pstate := RUNNABLE\<rparr>) (procs s)"
    using p len by (simp add: s'(3) upd_def)
  moreover have "s' = s\<lparr>procs := procs s', queue := queue s', queue_tail := queue_tail s'\<rparr>"
    using s'(4) by (simp add: setp_def)
  ultimately show ?thesis using that s'(1,2) by blast
qed


subsection \<open>wakeup1\<close>

definition pt_ok :: "'z pst_scheme \<Rightarrow> bool" where
  "pt_ok s \<longleftrightarrow> pt_shape s \<and> (\<forall>p<NPROC. 0 \<le> pqueue (procs s ! p) \<and> pqueue (procs s ! p) \<le> 4)"

definition woken :: "chan option \<Rightarrow> proc \<Rightarrow> proc" where
  "woken ch p = (if pstate p = SLEEPING \<and> pchan p = ch then p\<lparr>pstate := RUNNABLE\<rparr> else p)"

lemma mlfq_inv_pt_ok: "mlfq_inv_ex X s \<Longrightarrow> pt_ok s"
  by (simp add: mlfq_inv_ex_def pt_ok_def)

lemma pt_ok_length: "pt_ok s \<Longrightarrow> length (procs s) = 64"
  by (simp add: pt_ok_def pt_shape_def)

lemma pt_ok_setp: "pt_ok s \<Longrightarrow> (\<And>q. pqueue (f q) = pqueue q) \<Longrightarrow> pt_ok (setp i f s)"
  by (auto simp: pt_ok_def pt_shape_procs)

lemma enqueue_pt_ok:
  assumes "pt_ok s" "p < NPROC" "0 \<le> k" "k \<le> 4"
  obtains s' where "enqueue k p s = Inr s'" and "pt_ok s'"
    and "procs s' = upd p (\<lambda>q. q\<lparr>pqueue := k\<rparr>) (procs s)"
    and "s' = s\<lparr>procs := procs s', queue := queue s', queue_tail := queue_tail s'\<rparr>"
proof -
  let ?s' = "s\<lparr>procs := upd p (\<lambda>q. q\<lparr>pqueue := k\<rparr>) (procs s),
      queue := upd (nat k) (\<lambda>q. q[queue_tail s ! nat k := Some p]) (queue s),
      queue_tail := upd (nat k) (\<lambda>t. (t + 1) mod NPROC) (queue_tail s)\<rparr>"
  have "enqueue k p s = Inr ?s'" using assms by (simp add: enqueue_def Let_def setp_def)
  moreover from this have "pt_shape ?s'" using enqueue_shape assms by (auto simp: pt_ok_def)
  then have "pt_ok ?s'" using assms by (auto simp: pt_ok_def pt_shape_procs)
  ultimately show ?thesis by (intro that [of ?s']) simp_all
qed

text \<open>One wake-up, for any policy: the process becomes runnable and nothing else changes.\<close>

lemma wake_one:
  assumes ok: "pt_ok s" and i: "i < NPROC"
  obtains s' where "enqueue (pqueue (procs s ! i)) i (setp i (\<lambda>q. q\<lparr>pstate := RUNNABLE\<rparr>) s) = Inr s'"
    and "pt_ok s'" and "procs s' = upd i (\<lambda>q. q\<lparr>pstate := RUNNABLE\<rparr>) (procs s)"
    and "s' = s\<lparr>procs := procs s', queue := queue s', queue_tail := queue_tail s'\<rparr>"
proof -
  let ?s = "setp i (\<lambda>q. q\<lparr>pstate := RUNNABLE\<rparr>) s"
  have len: "length (procs s) = 64" using ok by (simp add: pt_ok_def pt_shape_def)
  have "pt_ok ?s" by (rule pt_ok_setp [OF ok]) simp
  moreover have "0 \<le> pqueue (procs s ! i)" "pqueue (procs s ! i) \<le> 4"
    using ok i by (auto simp: pt_ok_def)
  ultimately obtain s' where s': "enqueue (pqueue (procs s ! i)) i ?s = Inr s'" "pt_ok s'"
      "procs s' = upd i (\<lambda>q. q\<lparr>pqueue := pqueue (procs s ! i)\<rparr>) (procs ?s)"
      "s' = ?s\<lparr>procs := procs s', queue := queue s', queue_tail := queue_tail s'\<rparr>"
    using i enqueue_pt_ok by blast
  have "procs s' = upd i (\<lambda>q. q\<lparr>pstate := RUNNABLE\<rparr>) (procs s)"
    using i len by (simp add: s'(3) upd_def)
  moreover have "s' = s\<lparr>procs := procs s', queue := queue s', queue_tail := queue_tail s'\<rparr>"
    using s'(4) by (simp add: setp_def)
  ultimately show ?thesis using that s'(1,2) by blast
qed

lemma wakeup1_loop_spec:
  assumes "pt_ok s" and "set ks \<subseteq> {..<NPROC}" and "distinct ks"
  shows "\<exists>s'. wakeup1_loop ks ch s = Inr s' \<and> pt_ok s' \<and>
     (\<forall>j<NPROC. procs s' ! j = (if j \<in> set ks then woken ch (procs s ! j) else procs s ! j)) \<and>
     s' = s\<lparr>procs := procs s', queue := queue s', queue_tail := queue_tail s'\<rparr>"
  using assms
proof (induction ks arbitrary: s)
  case Nil
  then show ?case by simp
next
  case (Cons i ks)
  have len: "length (procs s) = 64" using Cons.prems by (simp add: pt_ok_def pt_shape_def)
  show ?case
  proof (cases "pstate (procs s ! i) = SLEEPING \<and> pchan (procs s ! i) = ch")
    case False
    obtain s' where "wakeup1_loop ks ch s = Inr s'" "pt_ok s'"
      "\<forall>j<NPROC. procs s' ! j = (if j \<in> set ks then woken ch (procs s ! j) else procs s ! j)"
      "s' = s\<lparr>procs := procs s', queue := queue s', queue_tail := queue_tail s'\<rparr>"
      using Cons.IH [of s] Cons.prems by auto
    with False show ?thesis by (intro exI [of _ s']) (auto simp: woken_def)
  next
    case True
    obtain t where t: "enqueue (pqueue (procs s ! i)) i (setp i (\<lambda>q. q\<lparr>pstate := RUNNABLE\<rparr>) s) = Inr t"
        "pt_ok t" "procs t = upd i (\<lambda>q. q\<lparr>pstate := RUNNABLE\<rparr>) (procs s)"
        "t = s\<lparr>procs := procs t, queue := queue t, queue_tail := queue_tail t\<rparr>"
      using wake_one [of s i] Cons.prems by auto
    obtain s' where s': "wakeup1_loop ks ch t = Inr s'" "pt_ok s'"
      "\<forall>j<NPROC. procs s' ! j = (if j \<in> set ks then woken ch (procs t ! j) else procs t ! j)"
      "s' = t\<lparr>procs := procs s', queue := queue s', queue_tail := queue_tail s'\<rparr>"
      using Cons.IH [OF t(2)] Cons.prems by auto
    have "wakeup1_loop (i # ks) ch s = Inr s'"
      using True t(1) s'(1) Cons.prems(2) len by simp
    moreover have "\<forall>j<NPROC. procs s' ! j =
        (if j \<in> set (i # ks) then woken ch (procs s ! j) else procs s ! j)"
      using s'(3) Cons.prems len True by (auto simp: t(3) woken_def)
    moreover have "s' = s\<lparr>procs := procs s', queue := queue s', queue_tail := queue_tail s'\<rparr>"
      by (subst s'(4), subst t(4)) simp
    ultimately show ?thesis using s'(2) by blast
  qed
qed

lemma wakeup1_spec:
  assumes "pt_ok s"
  obtains s' where "wakeup1 ch s = Inr s'" and "pt_ok s'"
    and "procs s' = map (woken ch) (procs s)"
    and "s' = s\<lparr>procs := procs s', queue := queue s', queue_tail := queue_tail s'\<rparr>"
proof -
  obtain s' where s': "wakeup1_loop [0..<NPROC] ch s = Inr s'" "pt_ok s'"
      "\<forall>j<NPROC. procs s' ! j =
         (if j \<in> set [0..<NPROC] then woken ch (procs s ! j) else procs s ! j)"
      "s' = s\<lparr>procs := procs s', queue := queue s', queue_tail := queue_tail s'\<rparr>"
    using wakeup1_loop_spec [OF assms, of "[0..<NPROC]" ch] by (auto simp: lessThan_atLeast0)
  have "procs s' = map (woken ch) (procs s)"
    using s'(3) pt_ok_length [OF assms] pt_ok_length [OF s'(2)] by (intro nth_equalityI) auto
  then show ?thesis using that s' by (simp add: wakeup1_def)
qed


text \<open>With a slot that is neither runnable nor asleep, \<open>wakeup1\<close> keeps the queue invariant.\<close>

definition awake_slot :: "'z pst_scheme \<Rightarrow> bool" where
  "awake_slot s \<longleftrightarrow> (\<exists>q<NPROC. pstate (procs s ! q) \<noteq> RUNNABLE \<and> pstate (procs s ! q) \<noteq> SLEEPING)"

lemma awake_spare:
  "awake_slot s \<Longrightarrow> pstate (procs s ! p) = SLEEPING \<Longrightarrow> spare_slot p s"
  by (auto simp: awake_slot_def spare_slot_def)

lemma wakeup1_loop_inv:
  assumes "mlfq_inv_ex X s" and "set ks \<subseteq> {..<NPROC}" and "awake_slot s"
    and "\<And>i. i \<in> X \<Longrightarrow> i < NPROC \<Longrightarrow> pstate (procs s ! i) \<noteq> SLEEPING"
    and "wakeup1_loop ks ch s = Inr s'"
  shows "mlfq_inv_ex X s'"
  using assms
proof (induction ks arbitrary: s)
  case Nil
  then show ?case by simp
next
  case (Cons i ks)
  have len: "length (procs s) = 64" and i: "i < NPROC"
    using Cons.prems mlfq_inv_pt_ok pt_ok_length by auto
  show ?case
  proof (cases "pstate (procs s ! i) = SLEEPING \<and> pchan (procs s ! i) = ch")
    case False
    then show ?thesis using Cons by auto
  next
    case True
    then have iX: "i \<notin> X" using Cons.prems(4) i by blast
    have st: "pstate (procs s ! i) \<noteq> RUNNABLE" using True by simp
    obtain t where t: "enqueue (pqueue (procs s ! i)) i (setp i (\<lambda>q. q\<lparr>pstate := RUNNABLE\<rparr>) s) = Inr t"
        "mlfq_inv_ex X t" "procs t = upd i (\<lambda>q. q\<lparr>pstate := RUNNABLE\<rparr>) (procs s)"
      using make_runnable [OF Cons.prems(1) i iX st] awake_spare Cons.prems(3) True by blast
    have "awake_slot t"
    proof -
      obtain q where q: "q < NPROC" "pstate (procs s ! q) \<noteq> RUNNABLE" "pstate (procs s ! q) \<noteq> SLEEPING"
        using Cons.prems(3) by (auto simp: awake_slot_def)
      then have "q \<noteq> i" using True by auto
      then show ?thesis using q len unfolding awake_slot_def t(3) by (intro exI [of _ q]) simp
    qed
    moreover have "pstate (procs t ! j) \<noteq> SLEEPING" if "j \<in> X" "j < NPROC" for j
      using Cons.prems(4) that iX len by (auto simp: t(3))
    moreover have "wakeup1_loop ks ch t = Inr s'"
      using Cons.prems(5) True t(1) len i by simp
    ultimately show ?thesis using Cons.IH [OF t(2)] Cons.prems(2) by simp
  qed
qed

lemma wakeup1_inv:
  assumes "mlfq_inv_ex X s" and "awake_slot s"
    and "\<And>i. i \<in> X \<Longrightarrow> i < NPROC \<Longrightarrow> pstate (procs s ! i) \<noteq> SLEEPING"
    and "wakeup1 ch s = Inr s'"
  shows "mlfq_inv_ex X s'"
  using wakeup1_loop_inv [of X s "[0..<NPROC]" ch s'] assms
  by (auto simp: wakeup1_def lessThan_atLeast0)

subsection \<open>The choice and the run of a process\<close>

lemma mlfq_inv_ex_same:
  assumes "procs s' = procs s" "queue s' = queue s" "queue_head s' = queue_head s"
    "queue_tail s' = queue_tail s"
  shows "mlfq_inv_ex X s' = mlfq_inv_ex X s"
  using assms by (simp add: mlfq_inv_ex_def rq_def pt_shape_def)

lemma find_not_None_rq:
  assumes "mlfq_inv_ex X s" "k < 5"
  shows "find (\<lambda>e. e \<noteq> None) (rq k s) = (case rq k s of [] \<Rightarrow> None | e # _ \<Rightarrow> Some e)"
  using mlfq_inv_exD(5) [OF assms] by (cases "rq k s") fastforce+

lemma mlfq_scan_Some:
  assumes inv: "mlfq_inv_ex X s" and "set ks \<subseteq> {..<5}" and "mlfq_scan ks s = Some p"
  shows "\<exists>as k bs es. ks = as @ k # bs \<and> rq k s = Some p # es \<and> (\<forall>j\<in>set as. rq j s = [])"
  using assms(2,3)
proof (induction ks)
  case (Cons k ks)
  note f = find_not_None_rq [OF inv, of k]
  show ?case
  proof (cases "rq k s")
    case Nil
    then have "mlfq_scan ks s = Some p" using Cons.prems f by simp
    then obtain as j bs es where "ks = as @ j # bs" "rq j s = Some p # es" "\<forall>j\<in>set as. rq j s = []"
      using Cons.IH Cons.prems by auto
    then have "k # ks = (k # as) @ j # bs" "\<forall>j\<in>set (k # as). rq j s = []" using Nil by auto
    then show ?thesis using \<open>rq j s = Some p # es\<close> by blast
  next
    case rq: (Cons e es)
    then have "e = Some p" using Cons.prems f by simp
    then show ?thesis using rq by (intro exI [of _ "[]"]) auto
  qed
qed simp

lemma mlfq_scan_None:
  assumes inv: "mlfq_inv_ex X s" and "set ks \<subseteq> {..<5}"
  shows "mlfq_scan ks s = None \<longleftrightarrow> (\<forall>k\<in>set ks. rq k s = [])"
  using assms(2)
proof (induction ks)
  case (Cons k ks)
  have "e \<in> set (rq k s) \<Longrightarrow> e \<noteq> None" for e using mlfq_inv_exD(5) [OF inv, of k e] Cons.prems by auto
  then show ?case using find_not_None_rq [OF inv, of k] Cons by (cases "rq k s") auto
qed simp

lemma mlfq_pick_head:
  assumes inv: "mlfq_inv s" and "mlfq_pick s = Some p"
  obtains k es where "k < 5" "rq k s = Some p # es" "\<And>j. j < k \<Longrightarrow> rq j s = []"
    "p < NPROC" "pstate (procs s ! p) = RUNNABLE" "pqueue (procs s ! p) = int k"
proof -
  have upt: "[0, 1, 2, 3, 4] = [0..<5 :: nat]" by (simp add: upt_rec)
  have "set [0..<5 :: nat] \<subseteq> {..<5}" by auto
  then obtain as k bs es where k: "[0..<5] = as @ k # bs" "rq k s = Some p # es"
      "\<forall>j\<in>set as. rq j s = []"
    using mlfq_scan_Some [OF inv] assms(2) unfolding mlfq_pick_def upt by metis
  have len: "length as < 5" using arg_cong [OF k(1), of length] by simp
  have "k = [0..<5] ! length as" by (simp only: k(1) nth_append_length)
  then have kl: "k = length as" using len by simp
  have "as = take (length as) [0..<5]" by (simp add: k(1))
  then have as: "as = [0..<k]" "k < 5" using len kl by (simp_all add: take_upt)
  have "Some p \<in> set (rq k s)" using k by simp
  then have "p < NPROC" "pstate (procs s ! p) = RUNNABLE" "pqueue (procs s ! p) = int k"
    using mlfq_inv_exD(5) [OF inv as(2)] by blast+
  with k as that show ?thesis by auto
qed

end
