(* ===== verification/MlfqRun.thy ===== *)
theory MlfqRun
  imports MlfqInv
begin

text \<open>
  One turn of the feedback scheduler: the chosen process leaves its queue, gets its slices
  and goes back one level down, or stays out of every queue if it is no longer runnable.
  The invariant of the run queues holds again at the end, for every behaviour of the
  processes (\<open>run\<close>) that keeps it while the process is exempt.
\<close>

definition run_contract ::
  "nat \<Rightarrow> (nat \<Rightarrow> 'z pst_scheme \<Rightarrow> 'z pst_scheme res) \<Rightarrow> bool" where
  "run_contract p run \<longleftrightarrow>
     (\<forall>s s'. mlfq_inv_ex {p} s \<and> spare_slot p s \<and> pstate (procs s ! p) = RUNNING \<longrightarrow>
        run p s = Inr s' \<longrightarrow>
        mlfq_inv_ex {p} s' \<and> spare_slot p s' \<and> pqueue (procs s' ! p) = pqueue (procs s ! p) \<and>
        num_run (procs s' ! p) = num_run (procs s ! p))"

lemma set_cpu_proc_simps [simp]:
  "procs (set_cpu_proc p s) = procs s" "queue (set_cpu_proc p s) = queue s"
  "queue_head (set_cpu_proc p s) = queue_head s" "queue_tail (set_cpu_proc p s) = queue_tail s"
  "spare_slot q (set_cpu_proc p s) = spare_slot q s"
  by (simp_all add: set_cpu_proc_def spare_slot_def)

lemma switchkvm_simps [simp]:
  "procs (switchkvm s) = procs s" "queue (switchkvm s) = queue s"
  "queue_head (switchkvm s) = queue_head s" "queue_tail (switchkvm s) = queue_tail s"
  "spare_slot q (switchkvm s) = spare_slot q s"
  by (simp_all add: switchkvm_def spare_slot_def)

lemma switchuvm_frame:
  assumes "switchuvm p s = Inr s'"
  shows "procs s' = procs s" "queue s' = queue s" "queue_head s' = queue_head s"
    "queue_tail s' = queue_tail s"
  using assms by (auto simp: switchuvm_def panic_def res_iff Let_def split: option.splits if_splits)

lemma mlfq_inv_ex_cpu [simp]: "mlfq_inv_ex X (set_cpu_proc p s) = mlfq_inv_ex X s"
  and mlfq_inv_ex_kvm [simp]: "mlfq_inv_ex X (switchkvm s) = mlfq_inv_ex X s"
  by (rule mlfq_inv_ex_same; simp)+

lemma dispatch_inv:
  assumes inv: "mlfq_inv_ex {p} s" and p: "p < NPROC" and run: "run_contract p run"
    and spare: "spare_slot p s" and d: "dispatch run p s = Inr s'"
  shows "mlfq_inv_ex {p} s' \<and> spare_slot p s' \<and> pqueue (procs s' ! p) = pqueue (procs s ! p) \<and>
     num_run (procs s' ! p) = num_run (procs s ! p)"
proof -
  obtain t u where t: "switchuvm (Some p) (set_cpu_proc (Some p) s) = Inr t"
    and u: "run p (setp p (\<lambda>q. q\<lparr>pstate := RUNNING\<rparr>) t) = Inr u"
    and s': "s' = set_cpu_proc None (switchkvm u)"
    using d by (auto simp: dispatch_def Let_def res_iff)
  note tf = switchuvm_frame [OF t, simplified]
  have "mlfq_inv_ex {p} t" using inv mlfq_inv_ex_same [OF tf] by simp
  then have i: "mlfq_inv_ex {p} (setp p (\<lambda>q. q\<lparr>pstate := RUNNING\<rparr>) t)"
    by (rule mlfq_inv_setp) simp_all
  have len: "length (procs t) = 64"
    using inv mlfq_inv_pt_ok pt_ok_length tf by metis
  then have sp: "spare_slot p (setp p (\<lambda>q. q\<lparr>pstate := RUNNING\<rparr>) t)"
    and r: "pstate (procs (setp p (\<lambda>q. q\<lparr>pstate := RUNNING\<rparr>) t) ! p) = RUNNING"
    using spare p by (auto simp: spare_slot_def tf)
  note c = run [unfolded run_contract_def, THEN spec, THEN spec, THEN mp, OF conjI [OF i conjI [OF sp r]],
      THEN mp, OF u]
  from c len p show ?thesis by (simp add: s' tf)
qed

lemma slice_loop_inv:
  assumes "mlfq_inv_ex {p} s" and "p < NPROC" and "run_contract p run"
    and "spare_slot p s" and "slice_loop run p a s = Inr s'"
  shows "mlfq_inv_ex {p} s' \<and> spare_slot p s' \<and> pqueue (procs s' ! p) = pqueue (procs s ! p)"
  using assms
proof (induction run p a s rule: slice_loop.induct)
  case (1 run p a s)
  let ?q = "pqueue (procs s ! p)"
  have len: "length (procs s) = 64" using 1 mlfq_inv_pt_ok pt_ok_length by metis
  have q: "\<not> (?q < 0 \<or> 4 < ?q)" using mlfq_inv_exD(2,3) [OF 1(2,3)] by simp
  show ?case
  proof (cases "a < slice ! nat ?q")
    case False
    then show ?thesis using 1 q by (simp add: slice_loop.simps [of run p a s])
  next
    case True
    let ?d = "if pstate (procs s ! p) = RUNNABLE
              then dispatch run p (setp p (\<lambda>q. q\<lparr>num_run := num_run q + 1\<rparr>) s)
              else Inr (set_cpu_proc None s)"
    obtain t where t: "?d = Inr t"
      and s': "s' = t \<and> pstate (procs t ! p) \<noteq> RUNNABLE \<or>
         pstate (procs t ! p) = RUNNABLE \<and> slice_loop run p (a + 1) t = Inr s'"
      using 1(6) True q
      by (auto simp: slice_loop.simps [of run p a s] res_iff Let_def split: if_splits)
    have inv: "mlfq_inv_ex {p} (setp p (\<lambda>q. q\<lparr>num_run := num_run q + 1\<rparr>) s)"
      by (rule mlfq_inv_setp [OF 1(2)]) simp_all
    have sp: "spare_slot p (setp p (\<lambda>q. q\<lparr>num_run := num_run q + 1\<rparr>) s)"
      using 1(5) len by (auto simp: spare_slot_def)
    have t': "mlfq_inv_ex {p} t" "spare_slot p t" "pqueue (procs t ! p) = ?q"
      using dispatch_inv [OF inv 1(3,4) sp] t 1(2,3,5) len by (auto split: if_splits)
    show ?thesis
      using s' t' 1(1) [OF refl q True t] 1(3,4) by auto
  qed
qed

text \<open>Removing the head of a queue exempts it.\<close>

lemma dequeue_inv:
  assumes inv: "mlfq_inv s" and k: "k < 5" "rq k s = Some p # es"
    and d: "dequeue (int k) s = Inr s'"
  shows "mlfq_inv_ex {p} s'" and "procs s' = procs s" and "rq k s' = es"
proof -
  have shape: "pt_shape s" using mlfq_inv_exD(1) [OF inv] .
  have ne: "rq k s \<noteq> []" using k by simp
  have same: "rq k s' = es"
    using rq_dequeue_same [OF shape k(1) ne d] k(2) by simp
  have other: "rq j s' = rq j s" if "j < 5" "j \<noteq> k" for j
    using rq_dequeue_other [OF d _ shape that(1)] that by simp
  show procs: "procs s' = procs s" using d k by (auto simp: dequeue_def)
  have p: "p < NPROC" "pqueue (procs s ! p) = int k"
    using mlfq_inv_exD(5) [OF inv k(1), of "Some p"] k(2) by auto
  have dist: "distinct (rq k s)" using mlfq_inv_exD(4) [OF inv k(1)] .
  have sub: "e \<in> set (rq j s')  \<Longrightarrow> e \<in> set (rq j s) \<and> e \<noteq> Some p" if "j < 5" for j e
    using that other [of j] same k(2) dist mlfq_inv_exD(5) [OF inv that, of e] p
    by (cases "j = k") auto
  show "mlfq_inv_ex {p} s'"
    unfolding mlfq_inv_ex_def
  proof (intro conjI allI impI ballI)
    show "pt_shape s'" by (rule dequeue_shape [OF shape d])
  next
    fix q assume "q < NPROC"
    then show "0 \<le> pqueue (procs s' ! q)" "pqueue (procs s' ! q) \<le> 4"
      using mlfq_inv_exD(2,3) [OF inv] by (auto simp: procs)
  next
    fix j :: nat assume j: "j < 5"
    show "distinct (rq j s')"
      using mlfq_inv_exD(4) [OF inv j] other [OF j] same k(2) by (cases "j = k") auto
  next
    fix j e assume j: "j < (5 :: nat)" and "e \<in> set (rq j s')"
    then show "\<exists>q<NPROC. e = Some q \<and> q \<notin> {p} \<and> pstate (procs s' ! q) = RUNNABLE \<and>
        pqueue (procs s' ! q) = int j"
      using sub [OF j] mlfq_inv_exD(5) [OF inv j, of e] by (auto simp: procs)
  next
    fix q assume q: "q < NPROC" "q \<notin> {p}" "pstate (procs s' ! q) = RUNNABLE"
    have "nat (pqueue (procs s ! q)) < 5" using mlfq_inv_exD(2,3) [OF inv q(1)] by simp
    moreover have "Some q \<in> set (rq (nat (pqueue (procs s ! q))) s)"
      using mlfq_inv_exD(6) [OF inv q(1)] q by (simp add: procs)
    ultimately show "Some q \<in> set (rq (nat (pqueue (procs s' ! q))) s')"
      using other same k(2) q by (cases "nat (pqueue (procs s ! q)) = k") (auto simp: procs)
  qed
  show "rq k s' = es" by (rule same)
qed


lemma slice_loop_num_run:
  assumes "mlfq_inv_ex {p} s" and "p < NPROC" and "run_contract p run"
    and "slice_loop run p a s = Inr s'" and "pstate (procs s ! p) = RUNNABLE"
    and "pstate (procs s' ! p) = RUNNABLE" and "spare_slot p s"
  shows "num_run (procs s' ! p) = num_run (procs s ! p) +
           of_nat (slice ! nat (pqueue (procs s ! p)) - a)"
  using assms
proof (induction run p a s rule: slice_loop.induct)
  case (1 run p a s)
  let ?q = "pqueue (procs s ! p)"
  let ?s = "setp p (\<lambda>q. q\<lparr>num_run := num_run q + 1\<rparr>) s"
  have len: "length (procs s) = 64" using 1 mlfq_inv_pt_ok pt_ok_length by metis
  have q: "\<not> (?q < 0 \<or> 4 < ?q)" using mlfq_inv_exD(2,3) [OF 1(2,3)] by simp
  show ?case
  proof (cases "a < slice ! nat ?q")
    case False
    then show ?thesis using 1 q by (simp add: slice_loop.simps [of run p a s])
  next
    case True
    let ?d = "if pstate (procs s ! p) = RUNNABLE then dispatch run p ?s
              else Inr (set_cpu_proc None s)"
    obtain t where t: "?d = Inr t"
      and s': "pstate (procs t ! p) = RUNNABLE" "slice_loop run p (a + 1) t = Inr s'"
      using 1(5,7) True q
      by (auto simp: slice_loop.simps [of run p a s] res_iff Let_def split: if_splits)
    have inv: "mlfq_inv_ex {p} ?s" by (rule mlfq_inv_setp [OF 1(2)]) simp_all
    have sp: "spare_slot p ?s" using 1(8) len by (auto simp: spare_slot_def)
    have t': "mlfq_inv_ex {p} t" "spare_slot p t" "pqueue (procs t ! p) = ?q"
        "num_run (procs t ! p) = num_run (procs s ! p) + 1"
      using dispatch_inv [OF inv 1(3,4) sp] t 1(3,6) len by auto
    have "num_run (procs s' ! p) = num_run (procs t ! p) + of_nat (slice ! nat ?q - (a + 1))"
      using 1(1) [OF refl q True t] 1(3,4,7) s' t' by auto
    moreover have "slice ! nat ?q - a = Suc (slice ! nat ?q - (a + 1))" using True by simp
    ultimately show ?thesis by (simp only: t'(4) of_nat_Suc ac_simps)
  qed
qed

text \<open>The queue field of an exempt process may change freely within its range.\<close>

lemma exempt_pqueue:
  assumes inv: "mlfq_inv_ex X s" and "p \<in> X" and "p < NPROC"
    and "0 \<le> pqueue (f (procs s ! p))" and "pqueue (f (procs s ! p)) \<le> 4"
  shows "mlfq_inv_ex X (setp p f s)"
proof -
  have len: "length (procs s) = 64" using inv mlfq_inv_pt_ok pt_ok_length by blast
  show ?thesis
    unfolding mlfq_inv_ex_def
  proof (intro conjI allI impI ballI)
    fix k e assume k: "k < (5 :: nat)" and "e \<in> set (rq k (setp p f s))"
    then obtain q where "q < NPROC" "e = Some q" "q \<notin> X" "pstate (procs s ! q) = RUNNABLE"
        "pqueue (procs s ! q) = int k"
      using mlfq_inv_exD(5) [OF inv k, of e] by auto
    then show "\<exists>q<NPROC. e = Some q \<and> q \<notin> X \<and> pstate (procs (setp p f s) ! q) = RUNNABLE \<and>
        pqueue (procs (setp p f s) ! q) = int k"
      using assms(2) len by (intro exI [of _ q]) auto
  next
    fix q assume "q < NPROC" "q \<notin> X" "pstate (procs (setp p f s) ! q) = RUNNABLE"
    then show "Some q \<in> set (rq (nat (pqueue (procs (setp p f s) ! q))) (setp p f s))"
      using mlfq_inv_exD(6) [OF inv, of q] assms(2) len by auto
  qed (use mlfq_inv_exD [OF inv] assms len in auto)
qed

lemma unexempt:
  assumes "mlfq_inv_ex {p} s" and "pstate (procs s ! p) \<noteq> RUNNABLE"
  shows "mlfq_inv s"
  using assms(2) mlfq_inv_exD [OF assms(1)] unfolding mlfq_inv_ex_def
  by (intro conjI allI impI ballI) (blast | metis singletonD)+

text \<open>The whole turn: the cases of a process that is runnable at the end, and of one that is not.\<close>

lemma mlfq_run_cases:
  assumes inv: "mlfq_inv s" and pick: "mlfq_pick s = Some p" and run: "run_contract p run"
    and spare: "spare_slot p s" and r: "mlfq_run run p s = Inr s'"
  obtains (blocked) "mlfq_inv s'" "pstate (procs s' ! p) \<noteq> RUNNABLE"
  | (demoted) k where "mlfq_inv s'" "pstate (procs s' ! p) = RUNNABLE"
      "k = min 4 (pqueue (procs s ! p) + 1)" "pqueue (procs s' ! p) = k"
      "rq (nat k) s' \<noteq> []" "last (rq (nat k) s') = Some p"
      "num_run (procs s' ! p) =
         num_run (procs s ! p) + of_nat (slice ! nat (pqueue (procs s ! p)))"
proof -
  obtain k es where k: "k < 5" "rq k s = Some p # es" "p < NPROC"
      "pstate (procs s ! p) = RUNNABLE" "pqueue (procs s ! p) = int k"
    using mlfq_pick_head [OF inv pick] by metis
  obtain t where t: "dequeue (int k) s = Inr t" using k(1) dequeue_ok by blast
  note deq = dequeue_inv [OF inv k(1,2) t]
  have len: "length (procs s) = 64" using inv mlfq_inv_pt_ok pt_ok_length by blast
  have st: "spare_slot p t" using spare deq by (simp add: spare_slot_def)
  obtain u where u: "slice_loop run p 0 t = Inr u"
    and s': "if pstate (procs u ! p) = RUNNABLE
             then let u = (if pqueue (procs u ! p) < 4
                           then setp p (\<lambda>q. q\<lparr>pqueue := pqueue q + 1\<rparr>) u else u)
                  in enqueue (pqueue (procs u ! p)) p u = Inr s'
             else s' = u"
    using r t k(4,5) by (auto simp: mlfq_run_def res_iff Let_def split: if_splits)
  have ui: "mlfq_inv_ex {p} u" "pqueue (procs u ! p) = int k" "spare_slot p u"
    using slice_loop_inv [OF deq(1) k(3) run st u] k(5) by (auto simp: deq)
  show ?thesis
  proof (cases "pstate (procs u ! p) = RUNNABLE")
    case False
    then show ?thesis using s' unexempt [OF ui(1)] blocked by simp
  next
    case True
    let ?u = "if pqueue (procs u ! p) < 4
              then setp p (\<lambda>q. q\<lparr>pqueue := pqueue q + 1\<rparr>) u else u"
    let ?k = "min 4 (int k + 1)"
    have lu: "length (procs u) = 64" using ui(1) mlfq_inv_pt_ok pt_ok_length by blast
    have num: "num_run (procs u ! p) = num_run (procs s ! p) + of_nat (slice ! k)"
      using slice_loop_num_run [OF deq(1) k(3) run u] True k(4,5) st by (simp add: deq)
    have pu: "pqueue (procs ?u ! p) = ?k" "pstate (procs ?u ! p) = RUNNABLE"
        "num_run (procs ?u ! p) = num_run (procs u ! p)"
      using ui(2) True lu k(1,3) by auto
    have "mlfq_inv_ex {p} ?u" "spare_slot p ?u"
      using exempt_pqueue [OF ui(1), of p "\<lambda>q. q\<lparr>pqueue := pqueue q + 1\<rparr>"] ui True lu k(1,3)
      by (auto simp: spare_slot_def)
    then obtain v where v: "enqueue ?k p ?u = Inr v" "mlfq_inv v"
        "procs v = upd p (\<lambda>q. q\<lparr>pqueue := ?k\<rparr>) (procs ?u)"
      using enqueue_inv [of p "{}" ?u ?k] k(3) pu by auto
    have "enqueue (pqueue (procs ?u ! p)) p ?u = Inr s'" using s' True by (simp only: Let_def if_True)
    then have vs: "v = s'" using v(1) by (simp only: pu sum.inject)
    have "length (procs ?u) = 64" using lu by simp
    then have s'p: "pstate (procs s' ! p) = RUNNABLE" "pqueue (procs s' ! p) = ?k"
        "num_run (procs s' ! p) = num_run (procs s ! p) + of_nat (slice ! k)"
      using v(3) pu k(3) num by (simp_all add: vs)
    have nk: "nat ?k < 5" by simp
    have "Some p \<notin> set (rq (nat ?k) ?u)"
      using mlfq_inv_exD(5) [OF \<open>mlfq_inv_ex {p} ?u\<close> nk, of "Some p"] by blast
    note room = spare_slot_room [OF \<open>mlfq_inv_ex {p} ?u\<close> nk k(3) this \<open>spare_slot p ?u\<close>]
    have "rq (nat ?k) s' = rq (nat ?k) ?u @ [Some p]"
      using rq_enqueue_same(1) [OF mlfq_inv_exD(1) [OF \<open>mlfq_inv_ex {p} ?u\<close>] nk room, of p s'] v(1) vs by simp
    then show ?thesis using demoted [of ?k] v(2) vs s'p k(5) by simp
  qed
qed

end
