(* ===== verification/BootState.thy ===== *)
theory BootState
  imports MlfqInv
begin

text \<open>
  A concrete kernel state for the witnesses: \<open>idle_pst\<close> has an empty process table, empty
  run queues and no free page; \<open>one_page\<close> has one free page.
\<close>

definition idle_pst :: pst where
  "idle_pst = \<lparr>mcpu = \<lparr>cpu_id = 0, ncli = 0, intena = False, iflag = False, cpu_proc = None\<rparr>,
     cr3 = 0, ts_esp0 = 0, ticks = 2000,
     kmem_lock = initlock, use_lock = True, freelist = 0, mem = (\<lambda>_. 0), kend = 0x80100000,
     kdata = 0x80108000, kpgdir = 0x80400000,
     pt_lock = initlock, procs = replicate 64 (proc0\<lparr>kstack := 0x80200000, pgdir := 0x80300000\<rparr>),
     queue_head = replicate 5 0, queue_tail = replicate 5 0,
     queue = replicate 5 (replicate 64 None), initproc = None, nextpid = 1, sflag = 0,
     forkret_addr = 0x80103000, trapret_addr = 0x80105000\<rparr>"

lemma idle_inv: "mlfq_inv idle_pst"
proof -
  have rq: "rq k idle_pst = []" if "k < 5" for k
    using that by (simp add: rq_def idle_pst_def ring_from.simps)
  have "pt_shape idle_pst" by (simp add: pt_shape_def idle_pst_def)
  moreover have "pstate (procs idle_pst ! p) = UNUSED \<and> pqueue (procs idle_pst ! p) = 0"
    if "p < 64" for p using that by (simp add: idle_pst_def proc0_def)
  ultimately show ?thesis by (simp add: mlfq_inv_ex_def rq)
qed

definition one_page :: pst where
  "one_page = idle_pst\<lparr>freelist := 0x80500000\<rparr>"

lemma one_page_free: "kmem_inv one_page [0x80500000]"
  by (simp add: kmem_inv_def one_page_def idle_pst_def page_ok_def V2P_def initlock_def cpu_ok_def)

lemma one_page_inv: "mlfq_inv one_page"
  using idle_inv mlfq_inv_ex_same [of one_page idle_pst] by (simp add: one_page_def)

end
