(* ===== verification/SchedProps.thy ===== *)
theory SchedProps
  imports SchedPolicy MlfqRun BootState
begin

text \<open>
  The properties of the scheduler: what each policy chooses, what a turn of the feedback
  scheduler does to the run queues, and three places where the queues lose a process.

  The witnesses start from \<open>idle_pst\<close>; \<open>two_ready\<close> has processes 2 and 3 in queues 0 and 1.
\<close>

definition ready :: "int \<Rightarrow> nat \<Rightarrow> pst \<Rightarrow> pst" where
  "ready k p s = projr (enqueue k p (setp p (\<lambda>q. q\<lparr>pstate := RUNNABLE, pqueue := k\<rparr>) s))"

definition two_ready :: pst where
  "two_ready = ready 1 3 (ready 0 2 idle_pst)"

definition yield_run :: "nat \<Rightarrow> pst \<Rightarrow> pst res" where
  "yield_run p s = Inr (setp p (\<lambda>q. q\<lparr>pstate := RUNNABLE\<rparr>) s)"

lemma nonrunnable_any_queue:
  assumes "mlfq_inv s" "p < NPROC" "pstate (procs s ! p) \<noteq> RUNNABLE" "0 \<le> k" "k \<le> 4"
  shows "mlfq_inv_ex {p} (setp p (\<lambda>q. q\<lparr>pstate := RUNNABLE, pqueue := k\<rparr>) s)"
proof -
  have "mlfq_inv_ex {p} (setp p (\<lambda>q. q) s)" using exempt_runnable [OF assms(1-3), of "\<lambda>q. q"] by simp
  moreover have "setp p (\<lambda>q. q) s = s" by (simp add: setp_def upd_same)
  ultimately show ?thesis using assms by (intro exempt_pqueue) auto
qed

lemma ready_spec:
  assumes inv: "mlfq_inv s" and p: "p < NPROC" "pstate (procs s ! p) \<noteq> RUNNABLE"
    and k: "0 \<le> k" "k \<le> 4" and spare: "spare_slot p s"
  shows "mlfq_inv (ready k p s)"
    and "procs (ready k p s) = upd p (\<lambda>q. q\<lparr>pstate := RUNNABLE, pqueue := k\<rparr>) (procs s)"
proof -
  let ?s = "setp p (\<lambda>q. q\<lparr>pstate := RUNNABLE, pqueue := k\<rparr>) s"
  have len: "length (procs s) = 64" using inv mlfq_inv_pt_ok pt_ok_length by blast
  have "spare_slot p ?s" using spare len by (auto simp: spare_slot_def)
  moreover have "pstate (procs ?s ! p) = RUNNABLE" using len p by simp
  ultimately obtain s' where "enqueue k p ?s = Inr s'" "mlfq_inv s'"
      "procs s' = upd p (\<lambda>q. q\<lparr>pqueue := k\<rparr>) (procs ?s)"
    using enqueue_inv [of p "{}" ?s k] nonrunnable_any_queue [OF inv p k] p k by auto
  then show "mlfq_inv (ready k p s)"
    and "procs (ready k p s) = upd p (\<lambda>q. q\<lparr>pstate := RUNNABLE, pqueue := k\<rparr>) (procs s)"
    using p len by (simp_all add: ready_def upd_def)
qed

lemma two_ready_inv: "mlfq_inv two_ready"
  and two_ready_procs: "procs two_ready =
    (procs idle_pst)[2 := (procs idle_pst ! 2)\<lparr>pstate := RUNNABLE, pqueue := 0\<rparr>,
                     3 := (procs idle_pst ! 3)\<lparr>pstate := RUNNABLE, pqueue := 1\<rparr>]"
proof -
  have len: "length (procs idle_pst) = 64" by (simp add: idle_pst_def)
  have u: "pstate (procs idle_pst ! i) = UNUSED" if "i < 64" for i
    using that by (simp add: idle_pst_def proc0_def)
  have "spare_slot 2 idle_pst" unfolding spare_slot_def using u by (intro exI [of _ 0]) simp
  then have r1: "mlfq_inv (ready 0 2 idle_pst)"
    "procs (ready 0 2 idle_pst) =
       upd 2 (\<lambda>q. q\<lparr>pstate := RUNNABLE, pqueue := 0\<rparr>) (procs idle_pst)"
    using ready_spec [OF idle_inv, of 2 0] u by simp_all
  have "spare_slot 3 (ready 0 2 idle_pst)"
    unfolding spare_slot_def r1 using u len by (intro exI [of _ 0]) simp
  then show "mlfq_inv two_ready"
    and "procs two_ready =
    (procs idle_pst)[2 := (procs idle_pst ! 2)\<lparr>pstate := RUNNABLE, pqueue := 0\<rparr>,
                     3 := (procs idle_pst ! 3)\<lparr>pstate := RUNNABLE, pqueue := 1\<rparr>]"
    using ready_spec [OF r1(1), of 3 1] u len by (simp_all add: two_ready_def r1 upd_def)
qed


lemma two_ready_at:
  "i < 64 \<Longrightarrow> pstate (procs two_ready ! i) = (if i = 2 \<or> i = 3 then RUNNABLE else UNUSED)"
  by (simp add: two_ready_procs nth_list_update idle_pst_def proc0_def)

lemma two_ready_spare: "spare_slot 2 two_ready"
  unfolding spare_slot_def by (intro exI [of _ 0]) (simp add: two_ready_at)

lemma two_ready_pick: "mlfq_pick two_ready = Some 2"
  by code_simp

lemma yield_run_contract: "p < NPROC \<Longrightarrow> run_contract p yield_run"
  unfolding run_contract_def yield_run_def
proof (intro allI impI)
  fix s s' :: pst
  assume p: "p < NPROC" and s: "mlfq_inv_ex {p} s \<and> spare_slot p s \<and> pstate (procs s ! p) = RUNNING"
    and "Inr (setp p (\<lambda>q. q\<lparr>pstate := RUNNABLE\<rparr>) s) = (Inr s' :: pst res)"
  then have s': "s' = setp p (\<lambda>q. q\<lparr>pstate := RUNNABLE\<rparr>) s" by simp
  have len: "length (procs s) = 64" using s mlfq_inv_pt_ok pt_ok_length by blast
  have "mlfq_inv_ex {p} s'" unfolding s' using s by (intro mlfq_inv_setp) auto
  moreover have "spare_slot p s'" using s len by (auto simp: s' spare_slot_def)
  ultimately show "mlfq_inv_ex {p} s' \<and> spare_slot p s' \<and>
      pqueue (procs s' ! p) = pqueue (procs s ! p) \<and> num_run (procs s' ! p) = num_run (procs s ! p)"
    using len p by (simp add: s')
qed

lemma two_ready_turn: "\<exists>s'. mlfq_run yield_run 2 two_ready = Inr s' \<and> pstate (procs s' ! 2) = RUNNABLE"
proof -
  have "case mlfq_run yield_run 2 two_ready of Inl _ \<Rightarrow> False
        | Inr s' \<Rightarrow> pstate (procs s' ! 2) = RUNNABLE"
    by code_simp
  then show ?thesis by (simp split: sum.splits)
qed

subsection \<open>Which process a policy runs\<close>

text \<open>
  C11: Feedback policy, choice.  When the run queues are consistent (\<open>mlfq_inv\<close>), the
  scheduler finds nothing exactly if no process is runnable; otherwise the process it finds
  is runnable, no runnable process is in a higher queue, and it is the oldest entry of its
  own queue.
\<close>

theorem mlfq_pick_best:
  assumes inv: "mlfq_inv s"
  shows "case mlfq_pick s of
      None \<Rightarrow> (\<forall>q<NPROC. pstate (procs s ! q) \<noteq> RUNNABLE)
    | Some p \<Rightarrow> p < NPROC \<and> pstate (procs s ! p) = RUNNABLE \<and>
        (\<forall>q<NPROC. pstate (procs s ! q) = RUNNABLE \<longrightarrow> pqueue (procs s ! p) \<le> pqueue (procs s ! q)) \<and>
        hd (rq (nat (pqueue (procs s ! p))) s) = Some p"
proof (cases "mlfq_pick s")
  case None
  have "rq k s = []" if "k < 5" for k
    using None mlfq_scan_None [OF inv, of "[0, 1, 2, 3, 4]"] that
    by (auto simp: mlfq_pick_def less_Suc_eq numeral_eq_Suc)
  then have "pstate (procs s ! q) \<noteq> RUNNABLE" if "q < NPROC" for q
    using mlfq_inv_exD(2,3,6) [OF inv that] by fastforce
  then show ?thesis by (simp add: None)
next
  case (Some p)
  obtain k es where k: "k < 5" "rq k s = Some p # es" "\<And>j. j < k \<Longrightarrow> rq j s = []"
      "p < NPROC" "pstate (procs s ! p) = RUNNABLE" "pqueue (procs s ! p) = int k"
    using mlfq_pick_head [OF inv Some] by metis
  have "int k \<le> pqueue (procs s ! q)" if q: "q < NPROC" "pstate (procs s ! q) = RUNNABLE" for q
  proof -
    have "rq (nat (pqueue (procs s ! q))) s \<noteq> []" using mlfq_inv_exD(6) [OF inv q(1)] q by auto
    then show ?thesis using k(3) [of "nat (pqueue (procs s ! q))"] mlfq_inv_exD(2) [OF inv q(1)]
      by fastforce
  qed
  then show ?thesis using k by (simp add: Some)
qed

theorem mlfq_pick_best_witness:
  "mlfq_inv two_ready \<and> mlfq_pick two_ready = Some 2 \<and>
     pqueue (procs two_ready ! 2) \<le> pqueue (procs two_ready ! 3)"
  using mlfq_pick_best [OF two_ready_inv] two_ready_inv two_ready_pick two_ready_at [of 3] by simp

text \<open>
  C2: Feedback policy, invariant.  A whole turn of the scheduler (the chosen process leaves
  its queue, runs for its slices and goes back to a queue if it is still runnable) leaves
  the run queues consistent: every runnable process is in exactly one queue, once, and in
  the queue its own field names.  This holds for whatever the processes do, as long as they
  keep that invariant for everybody else and one table slot is not runnable.
\<close>

theorem mlfq_turn_inv:
  assumes "mlfq_inv s" and "mlfq_pick s = Some p" and "run_contract p run" and "spare_slot p s"
    and "mlfq_run run p s = Inr s'"
  shows "mlfq_inv s'"
  by (rule mlfq_run_cases [OF assms])

theorem mlfq_turn_inv_witness:
  "\<exists>s'. mlfq_run yield_run 2 two_ready = Inr s' \<and> mlfq_inv s'"
  using mlfq_turn_inv [OF two_ready_inv two_ready_pick yield_run_contract two_ready_spare]
    two_ready_turn by auto

text \<open>
  C12: Feedback policy, demotion.  A process of queue \<open>k\<close> that is still runnable after its
  turn has been dispatched exactly \<open>slice[k]\<close> times, and is now the last entry of queue
  \<open>min(k + 1, 4)\<close>.
\<close>

theorem mlfq_turn_demotes:
  assumes "mlfq_inv s" and "mlfq_pick s = Some p" and "run_contract p run" and "spare_slot p s"
    and "mlfq_run run p s = Inr s'" and run: "pstate (procs s' ! p) = RUNNABLE"
  shows "pqueue (procs s' ! p) = min 4 (pqueue (procs s ! p) + 1) \<and>
     last (rq (nat (pqueue (procs s' ! p))) s') = Some p \<and>
     num_run (procs s' ! p) = num_run (procs s ! p) + of_nat (slice ! nat (pqueue (procs s ! p)))"
  by (rule mlfq_run_cases [OF assms(1-5)]) (use run in auto)

theorem mlfq_turn_demotes_witness:
  "\<exists>s'. mlfq_run yield_run 2 two_ready = Inr s' \<and> pqueue (procs s' ! 2) = 1 \<and>
     last (rq 1 s') = Some 2"
proof -
  obtain s' where s': "mlfq_run yield_run 2 two_ready = Inr s'" "pstate (procs s' ! 2) = RUNNABLE"
    using two_ready_turn by blast
  have "pqueue (procs two_ready ! 2) = 0"
    by (simp add: two_ready_procs nth_list_update idle_pst_def)
  then show ?thesis
    using mlfq_turn_demotes [OF two_ready_inv two_ready_pick yield_run_contract two_ready_spare s'] s'
    by auto
qed

text \<open>
  C13: Priority policy.  If some process is runnable, the pass runs the runnable process
  with the numerically smallest priority, among equals the one that was dispatched longest
  ago, and stamps it with the current tick before running it.
\<close>

theorem pbs_pass_choice:
  assumes "\<exists>i<NPROC. pstate (procs s ! i) = RUNNABLE"
  shows "\<exists>i<NPROC. pstate (procs s ! i) = RUNNABLE \<and>
     (\<forall>j<NPROC. pstate (procs s ! j) = RUNNABLE \<longrightarrow>
        sint (priority (procs s ! i)) < sint (priority (procs s ! j)) \<or>
        priority (procs s ! i) = priority (procs s ! j) \<and>
        sint (last_executed (procs s ! i)) \<le> sint (last_executed (procs s ! j))) \<and>
     pbs_pass run p s =
       bnd (dispatch run i (setp i (\<lambda>q. q\<lparr>last_executed := ticks s\<rparr>) s)) (\<lambda>s. Inr (Some i, s))"
proof -
  obtain i where i: "pbs_pick (procs s) = Some i"
    using assms pbs.scan_None [of "procs s" NPROC] by (metis pbs_pick_scan not_Some_eq)
  from pbs.scan_Some [OF this [unfolded pbs_pick_scan]] show ?thesis
    using i by (intro exI [of _ i]) (auto simp: pbs_pass_def sint_eq_iff less_eq_prod_def)
qed

theorem pbs_pass_choice_witness:
  "\<exists>i. pstate (procs two_ready ! i) = RUNNABLE \<and>
     pbs_pass yield_run None two_ready =
       bnd (dispatch yield_run i (setp i (\<lambda>q. q\<lparr>last_executed := 2000\<rparr>) two_ready))
         (\<lambda>s. Inr (Some i, s))"
proof -
  have "\<exists>i<NPROC. pstate (procs two_ready ! i) = RUNNABLE"
    by (intro exI [of _ 2]) (simp add: two_ready_at)
  moreover have "ticks two_ready = 2000" by code_simp
  ultimately show ?thesis using pbs_pass_choice [of two_ready yield_run None] by auto
qed

text \<open>
  C14: First-come-first-served policy.  If some process is runnable, the pass runs the
  runnable process with the smallest creation tick; of several created at the same tick, the
  first one in the table.
\<close>

theorem fcfs_pass_choice:
  assumes "\<exists>i<NPROC. pstate (procs s ! i) = RUNNABLE"
  shows "\<exists>i<NPROC. pstate (procs s ! i) = RUNNABLE \<and>
     (\<forall>j<NPROC. pstate (procs s ! j) = RUNNABLE \<longrightarrow>
        sint (ctime (procs s ! i)) < sint (ctime (procs s ! j)) \<or>
        ctime (procs s ! i) = ctime (procs s ! j) \<and> i \<le> j) \<and>
     fcfs_pass run p s = bnd (dispatch run i s) (\<lambda>s. Inr (Some i, s))"
proof -
  obtain i where i: "fcfs_pick (procs s) = Some i"
    using assms fcfs.scan_None [of "procs s" NPROC] by (metis fcfs_pick_scan not_Some_eq)
  note best = fcfs.scan_Some [OF this [unfolded fcfs_pick_scan]]
  then have "sint (ctime (procs s ! i)) < sint (ctime (procs s ! j)) \<or>
      ctime (procs s ! i) = ctime (procs s ! j) \<and> i \<le> j"
    if "j < NPROC" "pstate (procs s ! j) = RUNNABLE" for j
    using that by (metis le_less_linear less_le_not_le order_le_less sint_eq_iff)
  with i best show ?thesis by (intro exI [of _ i]) (auto simp: fcfs_pass_def)
qed

theorem fcfs_pass_choice_witness:
  "\<exists>i. pstate (procs two_ready ! i) = RUNNABLE \<and>
     fcfs_pass yield_run None two_ready = bnd (dispatch yield_run i two_ready) (\<lambda>s. Inr (Some i, s))"
proof -
  have "\<exists>i<NPROC. pstate (procs two_ready ! i) = RUNNABLE"
    by (intro exI [of _ 2]) (simp add: two_ready_at)
  then show ?thesis using fcfs_pass_choice [of two_ready yield_run None] by auto
qed


subsection \<open>Where the run queues lose a process\<close>







text \<open>
  C17: The ring of a run queue holds one entry less than it has slots.  Adding an entry to a
  queue that holds \<open>NPROC - 1\<close> processes moves the tail onto the head: the queue then reads
  as empty, and all \<open>NPROC\<close> processes are lost to the scheduler.
\<close>

theorem run_queue_overflow:
  assumes "pt_shape s" and "k < 5" and "length (rq k s) = NPROC - 1"
    and "enqueue (int k) p s = Inr s'"
  shows "rq k s' = []"
  using assms rq_enqueue_full [of s k p s'] by (simp add: length_rq)

definition full_queue :: pst where
  "full_queue = idle_pst\<lparr>queue := replicate 5 (map Some [0..<64]), queue_tail := replicate 5 63\<rparr>"

theorem run_queue_overflow_witness:
  "length (rq 0 full_queue) = 63 \<and> (\<exists>s'. enqueue 0 63 full_queue = Inr s' \<and> rq 0 s' = [])"
proof -
  have shape: "pt_shape full_queue" by (simp add: full_queue_def idle_pst_def pt_shape_def)
  have len: "length (rq 0 full_queue) = 63"
    using shape by (simp add: length_rq qlen_def) (simp add: full_queue_def idle_pst_def)
  obtain s' where "enqueue 0 63 full_queue = Inr s'" using enqueue_ok [of 0] by force
  then show ?thesis using run_queue_overflow [OF shape, of 0 63 s'] len by auto
qed

end
