(* ===== verification/ProcProps.thy ===== *)
theory ProcProps
  imports BootState
begin

text \<open>
  The table operations under the table lock: \<open>wakeup\<close>, \<open>kill\<close>, \<open>allocproc\<close>, \<open>chpr\<close> and
  the checks of \<open>sched\<close>.  \<open>pt_idle\<close> is the state in which they are called: nobody holds the
  lock.
\<close>

definition pt_idle :: "'z pst_scheme \<Rightarrow> bool" where
  "pt_idle s \<longleftrightarrow> cpu_ok (mcpu s) \<and> \<not> locked (pt_lock s) \<and> lcpu (pt_lock s) = None"

lemma pt_acquire_eq [lock_simps]:
  "pt_idle s \<Longrightarrow> pt_acquire s = Inr (s\<lparr>mcpu := pushcli (mcpu s),
     pt_lock := (pt_lock s)\<lparr>locked := True, lcpu := Some (cpu_id (mcpu s))\<rparr>\<rparr>)"
  by (simp add: pt_acquire_def pt_idle_def lock_simps)

lemma pt_release_eq:
  assumes "pt_idle s" and "mcpu t = pushcli (mcpu s)"
    and "pt_lock t = (pt_lock s)\<lparr>locked := True, lcpu := Some (cpu_id (mcpu s))\<rparr>"
  shows "pt_release t = Inr (t\<lparr>mcpu := settle (mcpu s), pt_lock := pt_lock s\<rparr>)"
  using assms by (simp add: pt_release_def pt_idle_def lock_simps unlocked_eq)

lemma pt_ok_locked [simp]:
  "pt_ok (s\<lparr>mcpu := c, pt_lock := l\<rparr>) = pt_ok s"
  by (simp add: pt_ok_def pt_shape_def)

lemma myproc_eq: "cpu_ok (mcpu s) \<Longrightarrow> myproc s = Inr (cpu_proc (mcpu s), s\<lparr>mcpu := settle (mcpu s)\<rparr>)"
  by (simp add: myproc_def Let_def lock_simps)

text \<open>The frame of the queue operations, in the form the lock lemmas want.\<close>

lemma queue_frame:
  assumes "s' = s\<lparr>procs := procs s', queue := queue s', queue_tail := queue_tail s'\<rparr>"
  shows "mcpu s' = mcpu s" "pt_lock s' = pt_lock s" "nextpid s' = nextpid s"
    "queue_head s' = queue_head s"
  by (subst assms, simp)+

lemma wakeup_ok:
  assumes ok: "pt_ok s" and idle: "pt_idle s"
  obtains s' where "wakeup ch s = Inr s'" and "pt_ok s'"
    and "procs s' = map (woken (Some ch)) (procs s)"
    and "mcpu s' = settle (mcpu s)" and "pt_lock s' = pt_lock s"
    and "mlfq_inv s \<Longrightarrow> awake_slot s \<Longrightarrow> mlfq_inv s'"
    and "s' = s\<lparr>mcpu := mcpu s', procs := procs s', queue := queue s', queue_tail := queue_tail s'\<rparr>"
proof -
  let ?l = "(pt_lock s)\<lparr>locked := True, lcpu := Some (cpu_id (mcpu s))\<rparr>"
  let ?s = "s\<lparr>mcpu := pushcli (mcpu s), pt_lock := ?l\<rparr>"
  have "pt_ok ?s" using ok by simp
  then obtain t where t: "wakeup1 (Some ch) ?s = Inr t" "pt_ok t"
      "procs t = map (woken (Some ch)) (procs ?s)"
      "t = ?s\<lparr>procs := procs t, queue := queue t, queue_tail := queue_tail t\<rparr>"
    by (rule wakeup1_spec)
  note fr = queue_frame [OF t(4)]
  let ?s' = "t\<lparr>mcpu := settle (mcpu s), pt_lock := pt_lock s\<rparr>"
  have rel: "pt_release t = Inr ?s'" using idle fr by (intro pt_release_eq) simp_all
  have w: "wakeup ch s = Inr ?s'"
    using idle t(1) rel by (simp add: wakeup_def lock_simps)
  have inv: "mlfq_inv ?s'" if "mlfq_inv s" "awake_slot s"
  proof -
    have "mlfq_inv ?s" using that(1) by (subst mlfq_inv_ex_same [of _ s]) simp_all
    moreover have "awake_slot ?s" using that(2) by (simp add: awake_slot_def)
    ultimately have "mlfq_inv t" using wakeup1_inv [OF _ _ _ t(1)] by blast
    then show ?thesis by (subst mlfq_inv_ex_same [of _ t]) simp_all
  qed
  have frame: "?s' = s\<lparr>mcpu := mcpu ?s', procs := procs ?s', queue := queue ?s',
      queue_tail := queue_tail ?s'\<rparr>"
    by (subst t(4)) simp
  have "pt_ok ?s'" "procs ?s' = map (woken (Some ch)) (procs s)" using t(2,3) by simp_all
  then show ?thesis by (rule that [OF w _ _ _ _ inv frame]) simp_all
qed




subsection \<open>allocproc\<close>








subsection \<open>Properties\<close>

text \<open>
  C18: \<open>wakeup\<close> makes every process that sleeps on the channel runnable and touches no other
  process; it takes and drops the table lock, and it keeps the run queues consistent.
\<close>

theorem wakeup_wakes:
  assumes "pt_ok s" and "pt_idle s"
  shows "\<exists>s'. wakeup ch s = Inr s' \<and>
     (\<forall>i<NPROC. procs s' ! i =
        (if pstate (procs s ! i) = SLEEPING \<and> pchan (procs s ! i) = Some ch
         then (procs s ! i)\<lparr>pstate := RUNNABLE\<rparr> else procs s ! i)) \<and>
     pt_lock s' = pt_lock s \<and> mcpu s' = settle (mcpu s) \<and>
     (mlfq_inv s \<and> awake_slot s \<longrightarrow> mlfq_inv s')"
proof -
  obtain s' where s': "wakeup ch s = Inr s'" "procs s' = map (woken (Some ch)) (procs s)"
    "mcpu s' = settle (mcpu s)" "pt_lock s' = pt_lock s"
    "mlfq_inv s \<Longrightarrow> awake_slot s \<Longrightarrow> mlfq_inv s'"
    using wakeup_ok [OF assms] by metis
  moreover have "procs s' ! i = woken (Some ch) (procs s ! i)" if "i < NPROC" for i
    using that s'(2) pt_ok_length [OF assms(1)] by simp
  ultimately show ?thesis by (auto simp: woken_def)
qed

definition one_asleep :: pst where
  "one_asleep = setp 5 (\<lambda>q. q\<lparr>pstate := SLEEPING, pchan := Some ChTicks\<rparr>) idle_pst"

lemma idle_pst_locks: "pt_idle idle_pst"
  by (simp add: pt_idle_def idle_pst_def cpu_ok_def initlock_def)

lemma one_asleep_ok: "pt_ok one_asleep" "pt_idle one_asleep"
proof -
  show "pt_ok one_asleep"
    unfolding one_asleep_def using mlfq_inv_pt_ok [OF idle_inv] by (intro pt_ok_setp) simp_all
  show "pt_idle one_asleep"
    using idle_pst_locks by (simp add: one_asleep_def setp_def pt_idle_def)
qed

theorem wakeup_wakes_witness:
  "\<exists>s'. wakeup ChTicks one_asleep = Inr s' \<and> pstate (procs s' ! 5) = RUNNABLE"
proof -
  have "pstate (procs one_asleep ! 5) = SLEEPING \<and> pchan (procs one_asleep ! 5) = Some ChTicks"
    by (simp add: one_asleep_def idle_pst_def)
  then show ?thesis using wakeup_wakes [OF one_asleep_ok, of ChTicks] by fastforce
qed








end
