(* ===== verification/Sleeplock.thy ===== *)
theory Sleeplock
  imports ProcProps
begin

text \<open>
  The locks of the components above the process table, and sleep locks
  (\<^verbatim>\<open>sleeplock.c\<close>, \<^verbatim>\<open>sleeplock.h\<close>).

  \<open>locks\<close> holds the spin locks by name, including the one inside each sleep lock.  A
  routine that finds a sleep lock taken goes to sleep until its holder wakes it up; the run
  of that routine ends there, with \<open>Sleeping\<close>.  A sleep lock is a value stored in a buffer or
  an inode: the operations take it and return it changed.
\<close>

datatype lockid =
    LBcache | LBuf nat | LIcache | LInode nat | LLog | LFtable | LPipe u32 | LCons | LIde | LTicks

record sst = pst +
  locks :: "lockid \<Rightarrow> spinlock"

record sleeplock =
  slocked :: bool
  spid :: i32

definition acq :: "lockid \<Rightarrow> 'z sst_scheme \<Rightarrow> 'z sst_scheme res" where
  "acq l s = bnd (acquire (mcpu s) (locks s l))
     (\<lambda>(c, lk). Inr (s\<lparr>mcpu := c, locks := (locks s)(l := lk)\<rparr>))"

definition rel :: "lockid \<Rightarrow> 'z sst_scheme \<Rightarrow> 'z sst_scheme res" where
  "rel l s = bnd (release (mcpu s) (locks s l))
     (\<lambda>(c, lk). Inr (s\<lparr>mcpu := c, locks := (locks s)(l := lk)\<rparr>))"

definition curpid :: "'z pst_scheme \<Rightarrow> (i32 \<times> 'z pst_scheme) res" where
  "curpid s = bnd (myproc s) (\<lambda>(p, s).
     case p of None \<Rightarrow> Inl OutOfRange | Some i \<Rightarrow> Inr (pid (procs s ! i), s))"

definition initsleeplock :: sleeplock where
  "initsleeplock = \<lparr>slocked = False, spid = 0\<rparr>"

definition acquiresleep ::
  "lockid \<Rightarrow> chan \<Rightarrow> sleeplock \<Rightarrow> 'z sst_scheme \<Rightarrow> (sleeplock \<times> 'z sst_scheme) res" where
  "acquiresleep l ch lk s =
     bnd (acq l s) (\<lambda>s.
       if slocked lk then Inl (Sleeping ch)
       else bnd (curpid s) (\<lambda>(p, s).
            bnd (rel l s) (\<lambda>s. Inr (lk\<lparr>slocked := True, spid := p\<rparr>, s))))"

definition releasesleep ::
  "lockid \<Rightarrow> chan \<Rightarrow> sleeplock \<Rightarrow> 'z sst_scheme \<Rightarrow> (sleeplock \<times> 'z sst_scheme) res" where
  "releasesleep l ch lk s =
     bnd (acq l s) (\<lambda>s.
     bnd (wakeup ch s) (\<lambda>s.
     bnd (rel l s) (\<lambda>s. Inr (lk\<lparr>slocked := False, spid := 0\<rparr>, s))))"

definition holdingsleep ::
  "lockid \<Rightarrow> sleeplock \<Rightarrow> 'z sst_scheme \<Rightarrow> (bool \<times> 'z sst_scheme) res" where
  "holdingsleep l lk s =
     bnd (acq l s) (\<lambda>s.
     bnd (curpid s) (\<lambda>(p, s).
     bnd (rel l s) (\<lambda>s. Inr (slocked lk \<and> spid lk = p, s))))"

text \<open>
  \<open>kok c s\<close>: process \<open>c\<close> runs a kernel routine, and no spin lock is held.  It is what the
  components above expect of the state whenever they take a lock, and what they leave.
\<close>

definition kok :: "nat \<Rightarrow> 'z sst_scheme \<Rightarrow> bool" where
  "kok c s \<longleftrightarrow> c < NPROC \<and> cpu_proc (mcpu s) = Some c \<and> pt_ok s \<and> pt_idle s \<and>
     (\<forall>l. \<not> locked (locks s l) \<and> lcpu (locks s l) = None)"

text \<open>
  \<open>calm c s s'\<close>: the step from \<open>s\<close> to \<open>s'\<close> took and dropped locks and woke processes up, and
  did nothing else.  It is stable under every update of the fields of the components above.
\<close>

definition calm :: "nat \<Rightarrow> 'z sst_scheme \<Rightarrow> 'z sst_scheme \<Rightarrow> bool" where
  "calm c s s' \<longleftrightarrow> kok c s' \<and>
     (\<forall>i<NPROC. (procs s' ! i)\<lparr>pstate := RUNNABLE\<rparr> = (procs s ! i)\<lparr>pstate := RUNNABLE\<rparr>) \<and>
     s' = s\<lparr>mcpu := mcpu s', procs := procs s', queue := queue s', queue_tail := queue_tail s'\<rparr>"

lemma calm_kok: "calm c s s' \<Longrightarrow> kok c s'"
  by (simp add: calm_def)

lemma proc_eq_but_state:
  assumes "p\<lparr>pstate := RUNNABLE\<rparr> = q\<lparr>pstate := RUNNABLE\<rparr>"
  shows "pid p = pid q" "ofile p = ofile q" "cwd p = cwd q" "killed p = killed q" "sz p = sz q"
    "pgdir p = pgdir q" "kstack p = kstack q" "tf p = tf q" "ctx p = ctx q" "parent p = parent q"
    "pname p = pname q" "pqueue p = pqueue q"
  using assms by (cases p; cases q; simp)+

lemma calm_proc: "calm c s s' \<Longrightarrow> i < NPROC \<Longrightarrow>
    (procs s' ! i)\<lparr>pstate := RUNNABLE\<rparr> = (procs s ! i)\<lparr>pstate := RUNNABLE\<rparr>"
  by (simp add: calm_def)

lemma calm_pid:
  assumes "calm c s s'"
  shows "pid (procs s' ! c) = pid (procs s ! c)"
proof -
  have "c < NPROC" using assms by (simp add: calm_def kok_def)
  then show ?thesis by (rule proc_eq_but_state(1) [OF calm_proc [OF assms]])
qed

lemma calm_refl: "kok c s \<Longrightarrow> calm c s s"
  by (simp add: calm_def)

lemma calm_trans:
  assumes "calm c s t" and "calm c t u"
  shows "calm c s u"
proof -
  have t: "t = s\<lparr>mcpu := mcpu t, procs := procs t, queue := queue t, queue_tail := queue_tail t\<rparr>"
    and u: "u = t\<lparr>mcpu := mcpu u, procs := procs u, queue := queue u, queue_tail := queue_tail u\<rparr>"
    using assms by (simp_all add: calm_def)
  have "u = s\<lparr>mcpu := mcpu u, procs := procs u, queue := queue u, queue_tail := queue_tail u\<rparr>"
    by (subst u, subst t) simp
  then show ?thesis using assms by (simp add: calm_def)
qed

lemma calm_settle:
  assumes "kok c s"
  shows "calm c s (s\<lparr>mcpu := settle (mcpu s)\<rparr>)"
  using assms by (simp add: calm_def kok_def pt_ok_def pt_shape_def pt_idle_def)

lemma calm_frame:
  "calm c s s' \<Longrightarrow>
     s' = s\<lparr>mcpu := mcpu s', procs := procs s', queue := queue s', queue_tail := queue_tail s'\<rparr>"
  by (simp add: calm_def)

text \<open>Taking a free lock, and dropping it after a step that left the CPU's nesting alone.\<close>

lemma kok_cpu: "kok c s \<Longrightarrow> cpu_ok (mcpu s)"
  by (simp add: kok_def pt_idle_def)

lemma kok_proc: "kok c s \<Longrightarrow> cpu_proc (mcpu s) = Some c"
  and kok_length: "kok c s \<Longrightarrow> length (procs s) = NPROC"
  and kok_less: "kok c s \<Longrightarrow> c < NPROC"
  using pt_ok_length by (auto simp: kok_def)

lemma acq_eq [lock_simps]:
  "kok c s \<Longrightarrow> acq l s = Inr (s\<lparr>mcpu := pushcli (mcpu s),
     locks := (locks s)(l := (locks s l)\<lparr>locked := True, lcpu := Some (cpu_id (mcpu s))\<rparr>)\<rparr>)"
  by (simp add: acq_def kok_def pt_idle_def lock_simps)

lemma rel_eq:
  assumes "kok c s" and "mcpu t = pushcli (mcpu s)"
    and "locks t = (locks s)(l := (locks s l)\<lparr>locked := True, lcpu := Some (cpu_id (mcpu s))\<rparr>)"
  shows "rel l t = Inr (t\<lparr>mcpu := settle (mcpu s), locks := locks s\<rparr>)"
proof -
  have "cpu_ok (mcpu s)" "\<not> locked (locks s l)" "lcpu (locks s l) = None"
    using assms(1) by (auto simp: kok_def pt_idle_def)
  then show ?thesis using assms(2,3) by (simp add: rel_def lock_simps unlocked_eq fun_upd_idem)
qed

lemma curpid_eq:
  "cpu_ok (mcpu s) \<Longrightarrow> cpu_proc (mcpu s) = Some i \<Longrightarrow>
     curpid s = Inr (pid (procs s ! i), s\<lparr>mcpu := settle (mcpu s)\<rparr>)"
  by (simp add: curpid_def myproc_eq)

lemma acquiresleep_free:
  assumes "kok c s" and "\<not> slocked lk"
  shows "acquiresleep l ch lk s =
    Inr (lk\<lparr>slocked := True, spid := pid (procs s ! c)\<rparr>, s\<lparr>mcpu := settle (mcpu s)\<rparr>)"
  using assms kok_cpu [OF assms(1)] kok_proc [OF assms(1)]
  by (simp add: acquiresleep_def lock_simps curpid_eq rel_eq [OF assms(1)])

lemma acquiresleep_taken:
  assumes "kok c s" and "slocked lk"
  shows "acquiresleep l ch lk s = Inl (Sleeping ch)"
  using assms by (simp add: acquiresleep_def lock_simps)

lemma holdingsleep_eq:
  assumes "kok c s"
  shows "holdingsleep l lk s =
    Inr (slocked lk \<and> spid lk = pid (procs s ! c), s\<lparr>mcpu := settle (mcpu s)\<rparr>)"
  using assms kok_cpu [OF assms(1)] kok_proc [OF assms(1)]
  by (simp add: holdingsleep_def lock_simps curpid_eq rel_eq [OF assms(1)])

text \<open>The state after taking a lock.\<close>

definition with_lock :: "lockid \<Rightarrow> 'z sst_scheme \<Rightarrow> 'z sst_scheme" where
  "with_lock l s = s\<lparr>mcpu := pushcli (mcpu s),
      locks := (locks s)(l := (locks s l)\<lparr>locked := True, lcpu := Some (cpu_id (mcpu s))\<rparr>)\<rparr>"

lemma acq_with_lock: "kok c s \<Longrightarrow> acq l s = Inr (with_lock l s)"
  by (simp add: lock_simps with_lock_def)

lemma rel_with_lock: "kok c s \<Longrightarrow> rel l (with_lock l s) = Inr (s\<lparr>mcpu := settle (mcpu s)\<rparr>)"
  by (subst rel_eq [where s = s]) (simp_all add: with_lock_def)

text \<open>A wake-up by the holder of a lock.\<close>

lemma wake_under:
  assumes k: "kok c s"
  shows "\<exists>u. wakeup ch (with_lock l s) = Inr (with_lock l u) \<and> calm c s u \<and>
    procs u = map (woken (Some ch)) (procs s)"
proof -
  let ?s = "with_lock l s"
  have "pt_ok ?s" "pt_idle ?s"
    using k by (simp_all add: kok_def pt_ok_def pt_shape_def pt_idle_def with_lock_def)
  then obtain t where t: "wakeup ch ?s = Inr t" "pt_ok t" "procs t = map (woken (Some ch)) (procs ?s)"
    "mcpu t = settle (mcpu ?s)" "pt_lock t = pt_lock ?s"
    "t = ?s\<lparr>mcpu := mcpu t, procs := procs t, queue := queue t, queue_tail := queue_tail t\<rparr>"
    by (metis wakeup_ok)
  let ?u = "s\<lparr>procs := procs t, queue := queue t, queue_tail := queue_tail t\<rparr>"
  have m: "mcpu t = pushcli (mcpu s)" using t(4) kok_cpu [OF k] by (simp add: with_lock_def)
  have e: "t = with_lock l ?u" by (subst t(6), simp only: m) (simp add: with_lock_def)
  have "pt_ok ?u" using t(2) by (subst (asm) e) (simp add: with_lock_def pt_ok_def pt_shape_def)
  then have "kok c ?u" using k by (simp add: kok_def pt_idle_def)
  moreover have "\<forall>i<NPROC. (procs ?u ! i)\<lparr>pstate := RUNNABLE\<rparr> = (procs s ! i)\<lparr>pstate := RUNNABLE\<rparr>"
    using kok_length [OF k] t(3) by (simp add: woken_def with_lock_def)
  ultimately have "calm c s ?u" by (simp add: calm_def)
  moreover have "procs ?u = map (woken (Some ch)) (procs s)" using t(3) by (simp add: with_lock_def)
  ultimately show ?thesis using t(1) e by metis
qed

lemma wake_release:
  assumes k: "kok c s"
  shows "\<exists>s'. bnd (wakeup ch (with_lock l s)) (rel l) = Inr s' \<and> calm c s s' \<and>
    procs s' = map (woken (Some ch)) (procs s)"
proof -
  obtain u where u: "wakeup ch (with_lock l s) = Inr (with_lock l u)" "calm c s u"
    "procs u = map (woken (Some ch)) (procs s)" using wake_under [OF k] by blast
  let ?v = "u\<lparr>mcpu := settle (mcpu u)\<rparr>"
  have "calm c s ?v" using calm_trans [OF u(2) calm_settle [OF calm_kok [OF u(2)]]] .
  then show ?thesis using u rel_with_lock [OF calm_kok [OF u(2)]] by (intro exI [of _ ?v]) simp
qed

lemma releasesleep_ok:
  assumes k: "kok c s"
  obtains s' where "releasesleep l ch lk s = Inr (lk\<lparr>slocked := False, spid := 0\<rparr>, s')"
    and "calm c s s'"
proof -
  obtain s' where s': "bnd (wakeup ch (with_lock l s)) (rel l) = Inr s'" "calm c s s'"
    using wake_release [OF k] by blast
  then have "releasesleep l ch lk s = Inr (lk\<lparr>slocked := False, spid := 0\<rparr>, s')"
    by (auto simp: releasesleep_def acq_with_lock [OF k] res_iff)
  then show ?thesis using s'(2) by (rule that)
qed

end
