(* ===== verification/Bio.thy ===== *)
theory Bio
  imports Sleeplock
begin

text \<open>
  The buffer cache (\<^verbatim>\<open>bio.c\<close>, \<^verbatim>\<open>buf.h\<close>) on the memory disk (\<^verbatim>\<open>memide.c\<close>).

  \<open>bufs\<close> is \<open>bcache.buf\<close> with \<open>bcache.head\<close> behind it, at index \<open>BHEAD\<close>; \<open>prev\<close> and
  \<open>next\<close> are indices into the same array, so that the list of buffers is as in the code a
  cyclic doubly linked list through the head.  The two bits of \<open>flags\<close> are the fields
  \<open>bvalid\<close> and \<open>bdirty\<close>.  \<open>disk b\<close> is block \<open>b\<close> of the disk image.  \<open>dtrace\<close> is a history
  variable that no routine reads: the block writes that reached the disk, in order.
\<close>

definition BSIZE :: nat where [simp]: "BSIZE = 512"
definition BHEAD :: nat where [simp]: "BHEAD = NBUF"

type_synonym block = "u8 list"

record buf =
  bvalid :: bool
  bdirty :: bool
  bdev :: u32
  bblockno :: u32
  blk :: sleeplock
  brefcnt :: u32
  prev :: nat
  "next" :: nat
  bdata :: block

record bst = sst +
  bufs :: "buf list"
  disk :: "u32 \<Rightarrow> block"
  disksize :: u32
  dtrace :: "(u32 \<times> block) list"

definition setb :: "nat \<Rightarrow> (buf \<Rightarrow> buf) \<Rightarrow> 'z bst_scheme \<Rightarrow> 'z bst_scheme" where
  "setb i f s = s\<lparr>bufs := upd i f (bufs s)\<rparr>"

definition blink :: "nat \<Rightarrow> buf list \<Rightarrow> buf list" where
  "blink b bs =
     (let bs = upd b (\<lambda>x. x\<lparr>next := next (bs ! BHEAD)\<rparr>) bs;
          bs = upd b (\<lambda>x. x\<lparr>prev := BHEAD\<rparr>) bs;
          bs = upd (next (bs ! BHEAD)) (\<lambda>x. x\<lparr>prev := b\<rparr>) bs
      in upd BHEAD (\<lambda>x. x\<lparr>next := b\<rparr>) bs)"

definition bunlink :: "nat \<Rightarrow> buf list \<Rightarrow> buf list" where
  "bunlink b bs =
     (let bs = upd (next (bs ! b)) (\<lambda>x. x\<lparr>prev := prev (bs ! b)\<rparr>) bs
      in upd (prev (bs ! b)) (\<lambda>x. x\<lparr>next := next (bs ! b)\<rparr>) bs)"

definition binit :: "'z bst_scheme \<Rightarrow> 'z bst_scheme" where
  "binit s =
     (let s = s\<lparr>locks := (locks s)(LBcache := initlock)\<rparr>;
          s = setb BHEAD (\<lambda>x. x\<lparr>prev := BHEAD\<rparr>) s;
          s = setb BHEAD (\<lambda>x. x\<lparr>next := BHEAD\<rparr>) s
      in fold (\<lambda>b s.
           let s = setb b (\<lambda>x. x\<lparr>next := next (bufs s ! BHEAD)\<rparr>) s;
               s = setb b (\<lambda>x. x\<lparr>prev := BHEAD\<rparr>) s;
               s = setb b (\<lambda>x. x\<lparr>blk := initsleeplock\<rparr>)
                     (s\<lparr>locks := (locks s)(LBuf b := initlock)\<rparr>);
               s = setb (next (bufs s ! BHEAD)) (\<lambda>x. x\<lparr>prev := b\<rparr>) s
           in setb BHEAD (\<lambda>x. x\<lparr>next := b\<rparr>) s) [0..<NBUF] s)"

text \<open>
  The two loops of \<open>bget\<close> follow \<open>next\<close> or \<open>prev\<close> from the head until they are back at it.
  The fuel is the number of buffers.
\<close>

fun next_scan :: "nat \<Rightarrow> (buf \<Rightarrow> bool) \<Rightarrow> buf list \<Rightarrow> nat \<Rightarrow> nat option" where
  "next_scan fuel P bs b =
     (if b = BHEAD then None
      else if P (bs ! b) then Some b
      else case fuel of 0 \<Rightarrow> None | Suc f \<Rightarrow> next_scan f P bs (next (bs ! b)))"

fun prev_scan :: "nat \<Rightarrow> (buf \<Rightarrow> bool) \<Rightarrow> buf list \<Rightarrow> nat \<Rightarrow> nat option" where
  "prev_scan fuel P bs b =
     (if b = BHEAD then None
      else if P (bs ! b) then Some b
      else case fuel of 0 \<Rightarrow> None | Suc f \<Rightarrow> prev_scan f P bs (prev (bs ! b)))"

declare next_scan.simps [simp del] prev_scan.simps [simp del]

definition lock_buf :: "nat \<Rightarrow> 'z bst_scheme \<Rightarrow> (nat \<times> 'z bst_scheme) res" where
  "lock_buf b s =
     bnd (acquiresleep (LBuf b) (ChBufLock b) (blk (bufs s ! b)) s) (\<lambda>(lk, s).
       Inr (b, setb b (\<lambda>x. x\<lparr>blk := lk\<rparr>) s))"

definition bget :: "u32 \<Rightarrow> u32 \<Rightarrow> 'z bst_scheme \<Rightarrow> (nat \<times> 'z bst_scheme) res" where
  "bget dev blockno s =
     bnd (acq LBcache s) (\<lambda>s.
       case next_scan NBUF (\<lambda>x. bdev x = dev \<and> bblockno x = blockno) (bufs s)
              (next (bufs s ! BHEAD)) of
         Some b \<Rightarrow>
           let s = setb b (\<lambda>x. x\<lparr>brefcnt := brefcnt x + 1\<rparr>) s
           in bnd (rel LBcache s) (lock_buf b)
       | None \<Rightarrow>
         (case prev_scan NBUF (\<lambda>x. brefcnt x = 0 \<and> \<not> bdirty x) (bufs s)
                 (prev (bufs s ! BHEAD)) of
            Some b \<Rightarrow>
              let s = setb b (\<lambda>x. x\<lparr>bdev := dev, bblockno := blockno, bvalid := False,
                        bdirty := False, brefcnt := 1\<rparr>) s
              in bnd (rel LBcache s) (lock_buf b)
          | None \<Rightarrow> panic ''bget: no buffers''))"

definition buf_held :: "nat \<Rightarrow> 'z bst_scheme \<Rightarrow> (bool \<times> 'z bst_scheme) res" where
  "buf_held b s = holdingsleep (LBuf b) (blk (bufs s ! b)) s"

definition iderw :: "nat \<Rightarrow> 'z bst_scheme \<Rightarrow> 'z bst_scheme res" where
  "iderw b s =
     bnd (buf_held b s) (\<lambda>(h, s).
       if \<not> h then panic ''iderw: buf not locked''
       else if bvalid (bufs s ! b) \<and> \<not> bdirty (bufs s ! b) then panic ''iderw: nothing to do''
       else if bdev (bufs s ! b) \<noteq> 1 then panic ''iderw: request not for disk 1''
       else if disksize s \<le> bblockno (bufs s ! b) then panic ''iderw: block out of range''
       else let p = bblockno (bufs s ! b);
                s = (if bdirty (bufs s ! b)
                     then let s = setb b (\<lambda>x. x\<lparr>bdirty := False\<rparr>) s
                          in s\<lparr>disk := (disk s)(p := bdata (bufs s ! b)),
                               dtrace := dtrace s @ [(p, bdata (bufs s ! b))]\<rparr>
                     else setb b (\<lambda>x. x\<lparr>bdata := disk s p\<rparr>) s)
            in Inr (setb b (\<lambda>x. x\<lparr>bvalid := True\<rparr>) s))"

definition bread :: "u32 \<Rightarrow> u32 \<Rightarrow> 'z bst_scheme \<Rightarrow> (nat \<times> 'z bst_scheme) res" where
  "bread dev blockno s =
     bnd (bget dev blockno s) (\<lambda>(b, s).
       if \<not> bvalid (bufs s ! b) then bnd (iderw b s) (\<lambda>s. Inr (b, s)) else Inr (b, s))"

definition bwrite :: "nat \<Rightarrow> 'z bst_scheme \<Rightarrow> 'z bst_scheme res" where
  "bwrite b s =
     bnd (buf_held b s) (\<lambda>(h, s).
       if \<not> h then panic ''bwrite'' else iderw b (setb b (\<lambda>x. x\<lparr>bdirty := True\<rparr>) s))"

definition brelse :: "nat \<Rightarrow> 'z bst_scheme \<Rightarrow> 'z bst_scheme res" where
  "brelse b s =
     bnd (buf_held b s) (\<lambda>(h, s).
       if \<not> h then panic ''brelse''
       else bnd (releasesleep (LBuf b) (ChBufLock b) (blk (bufs s ! b)) s) (\<lambda>(lk, s).
            let s = setb b (\<lambda>x. x\<lparr>blk := lk\<rparr>) s
            in bnd (acq LBcache s) (\<lambda>s.
               let s = setb b (\<lambda>x. x\<lparr>brefcnt := brefcnt x - 1\<rparr>) s;
                   s = (if brefcnt (bufs s ! b) = 0
                        then s\<lparr>bufs := blink b (bunlink b (bufs s))\<rparr> else s)
               in rel LBcache s)))"

subsection \<open>The doubly linked list\<close>

text \<open>\<open>linked\<close>: consecutive elements point at each other.\<close>

fun linked :: "(nat \<Rightarrow> nat) \<Rightarrow> (nat \<Rightarrow> nat) \<Rightarrow> nat list \<Rightarrow> bool" where
  "linked nx pv (a # b # ys) \<longleftrightarrow> nx a = b \<and> pv b = a \<and> linked nx pv (b # ys)"
| "linked nx pv _ \<longleftrightarrow> True"

lemma linked_append:
  "linked nx pv (as @ b # cs) \<longleftrightarrow> linked nx pv (as @ [b]) \<and> linked nx pv (b # cs)"
  by (induction nx pv as rule: linked.induct) auto

lemma linked_frame:
  assumes "\<And>a. a \<in> set (butlast ys) \<Longrightarrow> nx' a = nx a" and "\<And>b. b \<in> set (tl ys) \<Longrightarrow> pv' b = pv b"
  shows "linked nx' pv' ys = linked nx pv ys"
  using assms by (induction nx pv ys rule: linked.induct) auto

lemma linked_remove:
  assumes l: "linked nx pv (as @ p # b # n # cs)"
    and d: "distinct (butlast (as @ p # b # n # cs))" "distinct (tl (as @ p # b # n # cs))"
  shows "linked (nx(p := n)) (pv(n := p)) (as @ p # n # cs)"
proof -
  have ls: "linked nx pv (as @ [p])" "linked nx pv (n # cs)"
    using l linked_append [of nx pv as p "b # n # cs"] by simp_all
  have "p \<notin> set as" using d(1) by (auto simp: butlast_append)
  moreover have "n \<notin> set (tl (as @ [p]))" using d(2) by (cases as) auto
  ultimately have "linked (nx(p := n)) (pv(n := p)) (as @ [p])"
    using ls(1) by (subst linked_frame [of _ _ nx _ pv]) (auto simp: butlast_append)
  moreover have "linked (nx(p := n)) (pv(n := p)) (n # cs)"
  proof -
    have "p \<notin> set (butlast (n # cs))" using d(1) by (auto simp: butlast_append split: if_splits)
    moreover have "n \<notin> set cs" using d(2) by (cases as) auto
    ultimately show ?thesis
      using ls(2) by (subst linked_frame [of _ _ nx _ pv]) auto
  qed
  ultimately show ?thesis
    using linked_append [of "nx(p := n)" "pv(n := p)" as p "n # cs"] by simp
qed

lemma linked_insert:
  assumes l: "linked nx pv (h # xs @ [h])" and "b \<notin> set xs" "b \<noteq> h" "h \<notin> set xs" "distinct xs"
  shows "linked (nx(b := nx h, h := b)) (pv(b := h, nx h := b)) (h # b # xs @ [h])"
proof (cases xs)
  case Nil
  then show ?thesis using assms by auto
next
  case (Cons x ys)
  have x: "nx h = x" "linked nx pv (x # ys @ [h])" using l Cons by auto
  have "linked (nx(b := x, h := b)) (pv(b := h, x := b)) (x # ys @ [h])"
    using x(2) assms Cons by (subst linked_frame [of _ _ nx _ pv]) auto
  then show ?thesis using assms Cons x by auto
qed

end
