(* ===== verification/BioInv.thy ===== *)
theory BioInv
  imports Bio
begin

text \<open>
  The buffer cache's list as an abstract sequence, most recently used first, and the
  invariant of the cache.
\<close>

definition lru :: "buf list \<Rightarrow> nat list \<Rightarrow> bool" where
  "lru bs xs \<longleftrightarrow> length bs = Suc NBUF \<and> distinct xs \<and> set xs = {..<NBUF} \<and>
     linked (\<lambda>i. next (bs ! i)) (\<lambda>i. prev (bs ! i)) (BHEAD # xs @ [BHEAD])"

lemma lruD:
  assumes "lru bs xs"
  shows "length bs = 31" "distinct xs" "set xs = {..<30}" "length xs = 30"
    "linked (\<lambda>i. next (bs ! i)) (\<lambda>i. prev (bs ! i)) (30 # xs @ [30])"
  using assms distinct_card [of xs] by (auto simp: lru_def)

subsection \<open>Following the links\<close>

lemma next_scan_find:
  assumes "linked (\<lambda>i. next (bs ! i)) pv (ys @ [BHEAD])" and "BHEAD \<notin> set ys"
    and "length ys \<le> fuel"
  shows "next_scan fuel P bs (hd (ys @ [BHEAD])) = find (\<lambda>i. P (bs ! i)) ys"
  using assms
proof (induction ys arbitrary: fuel)
  case Nil
  then show ?case by (simp add: next_scan.simps)
next
  case (Cons y ys)
  obtain f where f: "fuel = Suc f" using Cons.prems(3) by (cases fuel) auto
  have "next (bs ! y) = hd (ys @ [BHEAD])" using Cons.prems(1) by (cases ys) auto
  moreover have "linked (\<lambda>i. next (bs ! i)) pv (ys @ [BHEAD])"
    using Cons.prems(1) by (cases ys) auto
  ultimately show ?case
    using Cons.IH [of f] Cons.prems f by (simp add: next_scan.simps [of "Suc f"])
qed

lemma prev_scan_find:
  assumes "linked nx (\<lambda>i. prev (bs ! i)) (BHEAD # ys)" and "BHEAD \<notin> set ys"
    and "length ys \<le> fuel"
  shows "prev_scan fuel P bs (last (BHEAD # ys)) = find (\<lambda>i. P (bs ! i)) (rev ys)"
  using assms
proof (induction ys arbitrary: fuel rule: rev_induct)
  case Nil
  then show ?case by (simp add: prev_scan.simps)
next
  case (snoc y ys)
  obtain f where f: "fuel = Suc f" using snoc.prems(3) by (cases fuel) auto
  have l: "linked nx (\<lambda>i. prev (bs ! i)) (BHEAD # ys)" "prev (bs ! y) = last (BHEAD # ys)"
  proof -
    obtain zs z where z: "BHEAD # ys = zs @ [z]" by (metis rev_exhaust list.distinct(1))
    then have "linked nx (\<lambda>i. prev (bs ! i)) (zs @ z # [y])" using snoc.prems(1)
      by (metis append_Cons append_assoc append_Nil)
    then have "linked nx (\<lambda>i. prev (bs ! i)) (zs @ [z])" "prev (bs ! y) = z"
      using linked_append [of nx _ zs z "[y]"] by simp_all
    then show "linked nx (\<lambda>i. prev (bs ! i)) (BHEAD # ys)" "prev (bs ! y) = last (BHEAD # ys)"
      by (simp_all add: z del: BHEAD_def)
  qed
  then show ?case
    using snoc.IH [of f] snoc.prems f by (simp add: prev_scan.simps [of "Suc f"])
qed

lemma lru_next_scan:
  assumes "lru bs xs"
  shows "next_scan NBUF P bs (next (bs ! BHEAD)) = find (\<lambda>i. P (bs ! i)) xs"
proof -
  have l: "linked (\<lambda>i. next (bs ! i)) (\<lambda>i. prev (bs ! i)) (BHEAD # xs @ [BHEAD])"
    using assms by (simp add: lru_def)
  then have "next (bs ! BHEAD) = hd (xs @ [BHEAD])"
      "linked (\<lambda>i. next (bs ! i)) (\<lambda>i. prev (bs ! i)) (xs @ [BHEAD])"
    by (cases xs; simp)+
  then show ?thesis
    using next_scan_find [of bs _ xs NBUF P] lruD [OF assms] by simp
qed

lemma lru_prev_scan:
  assumes "lru bs xs"
  shows "prev_scan NBUF P bs (prev (bs ! BHEAD)) = find (\<lambda>i. P (bs ! i)) (rev xs)"
proof -
  have l: "linked (\<lambda>i. next (bs ! i)) (\<lambda>i. prev (bs ! i)) (BHEAD # xs @ [BHEAD])"
    using assms by (simp add: lru_def)
  obtain zs z where z: "BHEAD # xs = zs @ [z]" by (metis rev_exhaust list.distinct(1))
  then have "linked (\<lambda>i. next (bs ! i)) (\<lambda>i. prev (bs ! i)) (zs @ z # [BHEAD])"
    using l by (metis append_Cons append_assoc append_Nil)
  then have "linked (\<lambda>i. next (bs ! i)) (\<lambda>i. prev (bs ! i)) (BHEAD # xs)"
      "prev (bs ! BHEAD) = last (BHEAD # xs)"
    using linked_append [of _ _ zs z "[BHEAD]"] z by (simp_all del: BHEAD_def)
  then show ?thesis
    using prev_scan_find [of _ bs xs NBUF P] lruD [OF assms] by simp
qed

subsection \<open>Moving a buffer to the front\<close>

lemma next_upd_next:
  "j < length bs \<Longrightarrow> (\<lambda>i. next (upd j (\<lambda>x. x\<lparr>next := v\<rparr>) bs ! i)) = (\<lambda>i. next (bs ! i))(j := v)"
  by (auto simp: nth_upd_if fun_eq_iff)

lemma prev_upd_prev:
  "j < length bs \<Longrightarrow> (\<lambda>i. prev (upd j (\<lambda>x. x\<lparr>prev := v\<rparr>) bs ! i)) = (\<lambda>i. prev (bs ! i))(j := v)"
  by (auto simp: nth_upd_if fun_eq_iff)

lemma link_upd_other:
  "next (upd j (\<lambda>x. x\<lparr>prev := v\<rparr>) bs ! i) = next (bs ! i)"
  "prev (upd j (\<lambda>x. x\<lparr>next := v\<rparr>) bs ! i) = prev (bs ! i)"
  by (auto simp: nth_upd_if)

lemmas link_upds = next_upd_next prev_upd_prev link_upd_other

definition nolinks :: "buf \<Rightarrow> buf" where
  "nolinks x = x\<lparr>prev := 0, next := 0\<rparr>"

lemma nolinks_upd:
  "nolinks (upd j (\<lambda>x. x\<lparr>prev := v\<rparr>) bs ! i) = nolinks (bs ! i)"
  "nolinks (upd j (\<lambda>x. x\<lparr>next := v\<rparr>) bs ! i) = nolinks (bs ! i)"
  by (auto simp: nth_upd_if nolinks_def)

lemma lru_move:
  assumes lru: "lru bs xs" and b: "b < NBUF"
  shows "lru (blink b (bunlink b bs)) (b # remove1 b xs)"
    and "nolinks (blink b (bunlink b bs) ! i) = nolinks (bs ! i)"
proof -
  note D = lruD [OF lru]
  have "b \<in> set xs" using D(3) b by simp
  then obtain as cs where xs: "xs = as @ b # cs" "b \<notin> set as" by (metis split_list_first)
  then have bcs: "b \<notin> set cs" using D(2) by auto
  obtain ps p where p: "30 # as = ps @ [p]" by (metis rev_exhaust list.distinct(1))
  obtain n qs where n: "cs @ [30] = n # qs" by (metis append_is_Nil_conv list.exhaust not_Cons_self2)
  have all: "30 # xs @ [30] = ps @ p # b # n # qs"
    using p n by (simp add: xs)
  let ?nx = "\<lambda>i. next (bs ! i)" and ?pv = "\<lambda>i. prev (bs ! i)"
  have l: "linked ?nx ?pv (ps @ p # b # n # qs)" using D(5) all by metis
  have dist: "distinct (butlast (ps @ p # b # n # qs))" "distinct (tl (ps @ p # b # n # qs))"
    using D(2,3) unfolding all [symmetric] by (auto simp: butlast_append)
  have pn: "?pv b = p" "?nx b = n"
    using l linked_append [of ?nx ?pv ps p "b # n # qs"] by auto
  have pin: "p \<in> insert 30 (set as)" using arg_cong [OF p, of set] by auto
  have nin: "n \<in> insert 30 (set cs)" using arg_cong [OF n, of set] by auto
  have lt: "x < 30" if "x \<in> set as \<or> x \<in> set cs" for x
  proof -
    have "x \<in> set xs" using that xs(1) by auto
    then show ?thesis using D(3) by simp
  qed
  have b30: "b < 30" using b by simp
  have bp: "b \<noteq> p" "b \<noteq> n" "p < 31" "n < 31" "b < 31"
    using pin nin xs(2) bcs b30 lt [of p] lt [of n] by auto
  let ?u = "bunlink b bs"
  have u: "(\<lambda>i. next (?u ! i)) = ?nx(p := n)" "(\<lambda>i. prev (?u ! i)) = ?pv(n := p)" "length ?u = 31"
    using pn bp D(1) by (simp_all add: bunlink_def Let_def link_upds)
  have "linked (?nx(p := n)) (?pv(n := p)) (ps @ p # n # qs)"
    by (rule linked_remove [OF l dist])
  moreover have "ps @ p # n # qs = 30 # (as @ cs) @ [30]"
    using p n by (metis append_Cons append_assoc append_Nil)
  ultimately have lu: "linked (\<lambda>i. next (?u ! i)) (\<lambda>i. prev (?u ! i)) (30 # (as @ cs) @ [30])"
    by (simp only: u)
  have rest: "b \<notin> set (as @ cs)" "b \<noteq> 30" "30 \<notin> set (as @ cs)" "distinct (as @ cs)"
    using xs bcs b30 D(2) lt [of 30] by auto
  note ins = linked_insert [OF lu rest]
  have nh: "next (?u ! 30) = hd ((as @ cs) @ [30])" using lu by (cases "as @ cs") auto
  have "hd ((as @ cs) @ [30]) \<in> set ((as @ cs) @ [30])" by (rule hd_in_set) simp
  then have n30: "next (?u ! 30) < 31" and nb: "next (?u ! 30) \<noteq> b"
    using nh rest lt [of "next (?u ! 30)"] by auto
  have "linked (\<lambda>i. next (blink b ?u ! i)) (\<lambda>i. prev (blink b ?u ! i)) (30 # b # (as @ cs) @ [30])"
  proof -
    have "(\<lambda>i. next (blink b ?u ! i)) = (\<lambda>i. next (?u ! i))(b := next (?u ! 30), 30 := b)"
      using u(3) bp n30 rest(2) by (simp add: blink_def Let_def link_upds)
    moreover have "(\<lambda>i. prev (blink b ?u ! i)) = (\<lambda>i. prev (?u ! i))(b := 30, next (?u ! 30) := b)"
      using u(3) bp n30 rest(2) by (simp add: blink_def Let_def link_upds)
    ultimately show ?thesis using ins by simp
  qed
  moreover have "remove1 b xs = as @ cs" using xs by (simp add: remove1_append)
  moreover have "length (blink b ?u) = 31" using u(3) by (simp add: blink_def Let_def)
  moreover have "set (b # as @ cs) = set xs" using xs(1) by auto
  ultimately show "lru (blink b ?u) (b # remove1 b xs)"
    using rest D(3) by (simp add: lru_def)
  show "nolinks (blink b ?u ! i) = nolinks (bs ! i)"
    by (simp add: blink_def bunlink_def Let_def nolinks_upd)
qed


subsection \<open>The invariant of the cache\<close>

text \<open>
  \<open>binv c s xs\<close>: the buffers are linked in the order \<open>xs\<close>; no disk block is cached twice; a
  buffer is either unused and unlocked, or used by process \<open>c\<close>, which holds its lock; a
  buffer with contents has a block number on the disk; a dirty buffer has contents; and an
  unused clean buffer with contents agrees with the disk.
\<close>

definition buf_ok :: "i32 \<Rightarrow> u32 \<Rightarrow> (u32 \<Rightarrow> block) \<Rightarrow> buf \<Rightarrow> bool" where
  "buf_ok p n d x \<longleftrightarrow>
     (brefcnt x = 0 \<and> \<not> slocked (blk x) \<or> brefcnt x = 1 \<and> slocked (blk x) \<and> spid (blk x) = p) \<and>
     (bdirty x \<longrightarrow> bvalid x) \<and> (bvalid x \<longrightarrow> bdev x = 1 \<and> bblockno x < n) \<and>
     (brefcnt x = 0 \<longrightarrow> bvalid x \<longrightarrow> \<not> bdirty x \<longrightarrow> bdata x = d (bblockno x))"

definition binv :: "nat \<Rightarrow> 'z bst_scheme \<Rightarrow> nat list \<Rightarrow> bool" where
  "binv c s xs \<longleftrightarrow> kok c s \<and> lru (bufs s) xs \<and>
     (\<forall>i<NBUF. \<forall>j<NBUF. bdev (bufs s ! i) = 1 \<longrightarrow> bdev (bufs s ! j) = 1 \<longrightarrow>
        bblockno (bufs s ! i) = bblockno (bufs s ! j) \<longrightarrow> i = j) \<and>
     (\<forall>i<NBUF. buf_ok (pid (procs s ! c)) (disksize s) (disk s) (bufs s ! i))"

definition cached :: "'z bst_scheme \<Rightarrow> u32 \<Rightarrow> nat \<Rightarrow> bool" where
  "cached s bno i \<longleftrightarrow> i < NBUF \<and> bdev (bufs s ! i) = 1 \<and> bblockno (bufs s ! i) = bno"

text \<open>The contents of a block as a reader sees them, and whether it has yet to be written.\<close>

definition view :: "'z bst_scheme \<Rightarrow> u32 \<Rightarrow> block" where
  "view s bno =
     (case find (\<lambda>i. cached s bno i \<and> bvalid (bufs s ! i)) [0..<NBUF] of
        Some i \<Rightarrow> bdata (bufs s ! i) | None \<Rightarrow> disk s bno)"

definition is_dirty :: "'z bst_scheme \<Rightarrow> u32 \<Rightarrow> bool" where
  "is_dirty s bno \<longleftrightarrow> (\<exists>i<NBUF. cached s bno i \<and> bdirty (bufs s ! i))"

definition evictable :: "'z bst_scheme \<Rightarrow> bool" where
  "evictable s \<longleftrightarrow> (\<exists>i<NBUF. brefcnt (bufs s ! i) = 0 \<and> \<not> bdirty (bufs s ! i))"

lemma binvD:
  assumes "binv c s xs"
  shows "kok c s" "lru (bufs s) xs" "length (bufs s) = 31"
    "cached s b i \<Longrightarrow> cached s b j \<Longrightarrow> i = j"
    "i < 30 \<Longrightarrow> buf_ok (pid (procs s ! c)) (disksize s) (disk s) (bufs s ! i)"
  using assms lruD(1) by (auto simp: binv_def cached_def)

lemma view_at:
  assumes "binv c s xs" "cached s b i" "bvalid (bufs s ! i)"
  shows "view s b = bdata (bufs s ! i)"
proof -
  have "find (\<lambda>i. cached s b i \<and> bvalid (bufs s ! i)) [0..<NBUF] \<noteq> None"
    using assms(2,3) by (auto simp: find_None_iff cached_def)
  then obtain j where j: "find (\<lambda>i. cached s b i \<and> bvalid (bufs s ! i)) [0..<NBUF] = Some j" by blast
  then have "cached s b j" by (auto simp: find_Some_iff)
  then have "j = i" using binvD(4) [OF assms(1)] assms(2) by blast
  then show ?thesis using j by (simp add: view_def)
qed

lemma view_disk:
  assumes "\<And>i. cached s b i \<Longrightarrow> \<not> bvalid (bufs s ! i)"
  shows "view s b = disk s b"
proof -
  have "find (\<lambda>i. cached s b i \<and> bvalid (bufs s ! i)) [0..<NBUF] = None"
    using assms by (auto simp: find_None_iff)
  then show ?thesis by (simp add: view_def)
qed

lemma kok_bst [simp]:
  "kok c (s\<lparr>bufs := b\<rparr>) = kok c s" "kok c (s\<lparr>disk := d\<rparr>) = kok c s"
  "kok c (s\<lparr>dtrace := t\<rparr>) = kok c s"
  by (simp_all add: kok_def pt_ok_def pt_shape_def pt_idle_def)

lemma kok_settle: "kok c s \<Longrightarrow> kok c (s\<lparr>mcpu := settle (mcpu s)\<rparr>)"
  using calm_settle calm_kok by blast

lemma setb_simps [simp]:
  "mcpu (setb i f s) = mcpu s" "locks (setb i f s) = locks s" "procs (setb i f s) = procs s"
  "bufs (setb i f s) = upd i f (bufs s)" "disk (setb i f s) = disk s"
  "disksize (setb i f s) = disksize s" "dtrace (setb i f s) = dtrace s"
  "kok c (setb i f s) = kok c s"
  by (simp_all add: setb_def)

text \<open>Changing one buffer without touching its links.\<close>

lemma linked_same:
  "(\<And>i. nx' i = nx i) \<Longrightarrow> (\<And>i. pv' i = pv i) \<Longrightarrow> linked nx' pv' ys = linked nx pv ys"
  by (rule linked_frame) auto

lemma lru_upd:
  assumes "\<And>x. next (f x) = next x" "\<And>x. prev (f x) = prev x"
  shows "lru (upd i f bs) xs = lru bs xs"
proof -
  have "linked (\<lambda>j. next (upd i f bs ! j)) (\<lambda>j. prev (upd i f bs ! j)) ys =
      linked (\<lambda>j. next (bs ! j)) (\<lambda>j. prev (bs ! j)) ys" for ys
    by (rule linked_same) (auto simp: nth_upd_if assms)
  then show ?thesis by (simp add: lru_def)
qed

subsection \<open>bread\<close>

definition got :: "i32 \<Rightarrow> bool \<Rightarrow> u32 \<Rightarrow> block \<Rightarrow> buf \<Rightarrow> buf" where
  "got p d bno v x = x\<lparr>bvalid := True, bdirty := d, bdev := 1, bblockno := bno,
     blk := \<lparr>slocked = True, spid = p\<rparr>, brefcnt := 1, bdata := v\<rparr>"

lemma sleeplock_taken: "lk\<lparr>slocked := True, spid := p\<rparr> = \<lparr>slocked = True, spid = p\<rparr>"
  and sleeplock_freed: "lk\<lparr>slocked := False, spid := 0\<rparr> = initsleeplock"
  by (cases lk; simp add: initsleeplock_def)+

lemma lock_buf_ok:
  assumes "kok c s" "b < length (bufs s)" "\<not> slocked (blk (bufs s ! b))"
  shows "lock_buf b s = Inr (b, s\<lparr>mcpu := settle (mcpu s),
     bufs := upd b (\<lambda>x. x\<lparr>blk := \<lparr>slocked = True, spid = pid (procs s ! c)\<rparr>\<rparr>) (bufs s)\<rparr>)"
  using assms by (simp add: lock_buf_def acquiresleep_free setb_def sleeplock_taken)

lemma buf_held_eq:
  "kok c s \<Longrightarrow> buf_held b s =
     Inr (slocked (blk (bufs s ! b)) \<and> spid (blk (bufs s ! b)) = pid (procs s ! c),
          s\<lparr>mcpu := settle (mcpu s)\<rparr>)"
  by (simp add: buf_held_def holdingsleep_eq)

lemma upd_upd: "upd i f (upd i g xs) = upd i (\<lambda>x. f (g x)) xs"
  by (cases "i < length xs") (simp_all add: upd_def list_update_beyond)

lemma upd_cong: "(i < length xs \<Longrightarrow> f (xs ! i) = g (xs ! i)) \<Longrightarrow> upd i f xs = upd i g xs"
  by (cases "i < length xs") (simp_all add: upd_def list_update_beyond)


definition fresh_buf :: "u32 \<Rightarrow> buf \<Rightarrow> buf" where
  "fresh_buf bno x = x\<lparr>bdev := 1, bblockno := bno, bvalid := False, bdirty := False\<rparr>"

definition taken :: "i32 \<Rightarrow> buf \<Rightarrow> buf" where
  "taken p x = x\<lparr>brefcnt := 1, blk := \<lparr>slocked = True, spid = p\<rparr>\<rparr>"

lemma bget_hit:
  assumes inv: "binv c s xs" and b: "cached s bno b" "brefcnt (bufs s ! b) = 0"
  shows "bget 1 bno s = Inr (b, s\<lparr>mcpu := settle (mcpu s),
           bufs := upd b (taken (pid (procs s ! c))) (bufs s)\<rparr>)"
proof -
  note k = binvD(1) [OF inv] and len = binvD(3) [OF inv]
  have b30: "b < 30" using b by (simp add: cached_def)
  have nl: "\<not> slocked (blk (bufs s ! b))"
    using binvD(5) [OF inv b30] b(2) by (auto simp: buf_ok_def)
  let ?P = "\<lambda>x. bdev x = 1 \<and> bblockno x = bno"
  have "find (\<lambda>i. ?P (bufs s ! i)) xs \<noteq> None"
    using b lruD(3) [OF binvD(2) [OF inv]] by (auto simp: find_None_iff cached_def)
  then obtain j where j: "find (\<lambda>i. ?P (bufs s ! i)) xs = Some j" by blast
  then have "?P (bufs s ! j)" "j \<in> set xs" by (auto simp: find_Some_iff)
  then have "cached s bno j" using lruD(3) [OF binvD(2) [OF inv]] by (simp add: cached_def)
  then have "j = b" using binvD(4) [OF inv] b(1) by blast
  then have scan: "next_scan NBUF ?P (bufs s) (next (bufs s ! BHEAD)) = Some b"
    using lru_next_scan [OF binvD(2) [OF inv], of ?P] j by simp
  let ?s = "s\<lparr>mcpu := settle (mcpu s), bufs := upd b (\<lambda>x. x\<lparr>brefcnt := 1\<rparr>) (bufs s)\<rparr>"
  have k': "kok c ?s" using kok_settle [OF k] by (simp add: kok_bst)
  have inc: "upd b (\<lambda>x. x\<lparr>brefcnt := brefcnt x + 1\<rparr>) (bufs s) = upd b (\<lambda>x. x\<lparr>brefcnt := 1\<rparr>) (bufs s)"
    using b(2) by (intro upd_cong) simp
  have "bget 1 bno s = lock_buf b ?s"
    using scan k by (auto simp: bget_def lock_simps rel_eq [OF k] setb_def inc intro!: arg_cong [of _ _ "lock_buf b"])
  also have "\<dots> = Inr (b, s\<lparr>mcpu := settle (mcpu s),
           bufs := upd b (taken (pid (procs s ! c))) (bufs s)\<rparr>)"
    using lock_buf_ok [OF k', of b] b30 len nl
    by (simp add: upd_upd taken_def [abs_def])
  finally show ?thesis .
qed


lemma bget_miss:
  assumes inv: "binv c s xs" and none: "\<And>i. \<not> cached s bno i"
    and b: "find (\<lambda>i. brefcnt (bufs s ! i) = 0 \<and> \<not> bdirty (bufs s ! i)) (rev xs) = Some b"
  shows "bget 1 bno s = Inr (b, s\<lparr>mcpu := settle (mcpu s),
           bufs := upd b (\<lambda>x. taken (pid (procs s ! c)) (fresh_buf bno x)) (bufs s)\<rparr>)"
proof -
  note k = binvD(1) [OF inv] and len = binvD(3) [OF inv] and xs = lruD(3) [OF binvD(2) [OF inv]]
  have bP: "brefcnt (bufs s ! b) = 0" "b \<in> set xs"
    using b unfolding find_Some_iff by (metis set_rev nth_mem)+
  then have b30: "b < 30" using xs by simp
  have nl: "\<not> slocked (blk (bufs s ! b))"
    using binvD(5) [OF inv b30] bP(1) by (auto simp: buf_ok_def)
  let ?P = "\<lambda>x. bdev x = 1 \<and> bblockno x = bno"
  have "find (\<lambda>i. ?P (bufs s ! i)) xs = None"
    using none xs by (auto simp: find_None_iff cached_def)
  then have scan: "next_scan NBUF ?P (bufs s) (next (bufs s ! BHEAD)) = None"
    using lru_next_scan [OF binvD(2) [OF inv], of ?P] by simp
  have scan2: "prev_scan NBUF (\<lambda>x. brefcnt x = 0 \<and> \<not> bdirty x) (bufs s) (prev (bufs s ! BHEAD)) = Some b"
    using lru_prev_scan [OF binvD(2) [OF inv], of "\<lambda>x. brefcnt x = 0 \<and> \<not> bdirty x"] b by simp
  let ?s = "s\<lparr>mcpu := settle (mcpu s), bufs := upd b (\<lambda>x. x\<lparr>bdev := 1, bblockno := bno,
      bvalid := False, bdirty := False, brefcnt := 1\<rparr>) (bufs s)\<rparr>"
  have k': "kok c ?s" using kok_settle [OF k] by (simp add: kok_bst)
  have "bget 1 bno s = lock_buf b ?s"
    using scan scan2 k by (auto simp: bget_def lock_simps rel_eq [OF k] setb_def intro!: arg_cong [of _ _ "lock_buf b"])
  also have "\<dots> = Inr (b, s\<lparr>mcpu := settle (mcpu s),
           bufs := upd b (\<lambda>x. taken (pid (procs s ! c)) (fresh_buf bno x)) (bufs s)\<rparr>)"
    using lock_buf_ok [OF k', of b] b30 len nl
    by (simp add: upd_upd taken_def fresh_buf_def)
  finally show ?thesis .
qed

lemma iderw_read:
  assumes k: "kok c s" and b: "b < length (bufs s)" and v: "\<not> bvalid (bufs s ! b)" "\<not> bdirty (bufs s ! b)"
    and l: "blk (bufs s ! b) = \<lparr>slocked = True, spid = pid (procs s ! c)\<rparr>"
    and d: "bdev (bufs s ! b) = 1" "bblockno (bufs s ! b) < disksize s"
  shows "iderw b s = Inr (s\<lparr>mcpu := settle (mcpu s),
    bufs := upd b (\<lambda>x. x\<lparr>bdata := disk s (bblockno (bufs s ! b)), bvalid := True\<rparr>) (bufs s)\<rparr>)"
  using b v l d by (simp add: iderw_def buf_held_eq [OF k] not_le Let_def) (simp add: setb_def upd_upd)

lemma iderw_write:
  assumes k: "kok c s" and b: "b < length (bufs s)" and v: "bdirty (bufs s ! b)"
    and l: "blk (bufs s ! b) = \<lparr>slocked = True, spid = pid (procs s ! c)\<rparr>"
    and d: "bdev (bufs s ! b) = 1" "bblockno (bufs s ! b) < disksize s"
  shows "iderw b s = Inr (s\<lparr>mcpu := settle (mcpu s),
    disk := (disk s)(bblockno (bufs s ! b) := bdata (bufs s ! b)),
    dtrace := dtrace s @ [(bblockno (bufs s ! b), bdata (bufs s ! b))],
    bufs := upd b (\<lambda>x. x\<lparr>bdirty := False, bvalid := True\<rparr>) (bufs s)\<rparr>)"
  using b v l d by (simp add: iderw_def buf_held_eq [OF k] not_le Let_def) (simp add: setb_def upd_upd)


text \<open>The buffer that \<open>bread\<close> hands out: the cached one, or an unused clean one.\<close>

definition takes :: "'z bst_scheme \<Rightarrow> u32 \<Rightarrow> nat \<Rightarrow> bool" where
  "takes s bno b \<longleftrightarrow> b < NBUF \<and> brefcnt (bufs s ! b) = 0 \<and>
     (cached s bno b \<or> (\<forall>i. \<not> cached s bno i) \<and> \<not> bdirty (bufs s ! b))"

lemma bread_takes:
  assumes inv: "binv c s xs" and bno: "bno < disksize s" and t: "takes s bno b"
    and get: "bget 1 bno s = Inr (b, s\<lparr>mcpu := settle (mcpu s), bufs := upd b (taken (pid (procs s ! c)) \<circ> f) (bufs s)\<rparr>)"
    and f: "f = (if cached s bno b then id else fresh_buf bno)"
  shows "bread 1 bno s = Inr (b, s\<lparr>mcpu := settle (mcpu s),
    bufs := upd b (got (pid (procs s ! c)) (is_dirty s bno) bno (view s bno)) (bufs s)\<rparr>)"
proof -
  note k = binvD(1) [OF inv] and len = binvD(3) [OF inv]
  have b: "b < 30" "b < length (bufs s)" using t len by (simp_all add: takes_def)
  note ok = binvD(5) [OF inv b(1)]
  let ?p = "pid (procs s ! c)"
  let ?s = "s\<lparr>mcpu := settle (mcpu s), bufs := upd b (taken ?p \<circ> f) (bufs s)\<rparr>"
  have k': "kok c ?s" using kok_settle [OF k] by (simp add: kok_bst)
  have dirty: "is_dirty s bno = (cached s bno b \<and> bdirty (bufs s ! b))"
    using t binvD(4) [OF inv, of bno] by (auto simp: is_dirty_def takes_def)
  show ?thesis
  proof (cases "bvalid (f (bufs s ! b))")
    case True
    then have c: "cached s bno b" "bvalid (bufs s ! b)" by (auto simp: f fresh_buf_def split: if_splits)
    have v: "view s bno = bdata (bufs s ! b)" by (rule view_at [OF inv c])
    have "upd b (taken ?p \<circ> f) (bufs s) = upd b (got ?p (is_dirty s bno) bno (view s bno)) (bufs s)"
      using c dirty by (intro upd_cong) (auto simp: f taken_def got_def v cached_def)
    moreover have "bvalid (bufs ?s ! b)" using True b by (simp add: taken_def)
    ultimately show ?thesis using get by (simp add: bread_def)
  next
    case False
    have nd: "\<not> bdirty (f (bufs s ! b))" using False ok by (auto simp: f fresh_buf_def buf_ok_def)
    have dev: "bdev (f (bufs s ! b)) = 1" "bblockno (f (bufs s ! b)) = bno"
      by (auto simp: f fresh_buf_def cached_def)
    have v: "view s bno = disk s bno"
      using False t binvD(4) [OF inv, of bno b] by (intro view_disk) (auto simp: f takes_def split: if_splits)
    have nd': "\<not> is_dirty s bno" using False ok dirty by (auto simp: f buf_ok_def)
    have io: "iderw b ?s = Inr (?s\<lparr>mcpu := settle (mcpu ?s),
        bufs := upd b (\<lambda>x. x\<lparr>bdata := disk ?s (bblockno (bufs ?s ! b)), bvalid := True\<rparr>) (bufs ?s)\<rparr>)"
      using b False nd dev bno by (intro iderw_read [OF k']) (simp_all add: taken_def)
    have eq: "(taken ?p (f (bufs s ! b)))\<lparr>bdata := disk s bno, bvalid := True\<rparr>
        = got ?p (is_dirty s bno) bno (view s bno) (bufs s ! b)"
      using dev nd nd' v
      by (cases "bufs s ! b") (auto simp: f taken_def got_def fresh_buf_def split: if_splits)
    have "upd b (\<lambda>x. x\<lparr>bdata := disk ?s (bblockno (bufs ?s ! b)), bvalid := True\<rparr>) (bufs ?s)
        = upd b (got ?p (is_dirty s bno) bno (view s bno)) (bufs s)"
      using b dev eq by (simp add: upd_upd taken_def) (rule upd_cong, simp add: taken_def)
    moreover have "\<not> bvalid (bufs ?s ! b)" using False b by (simp add: taken_def)
    ultimately show ?thesis using get io by (simp add: bread_def)
  qed
qed

lemma bread_ok:
  assumes inv: "binv c s xs" and bno: "bno < disksize s"
    and free: "\<And>i. cached s bno i \<Longrightarrow> brefcnt (bufs s ! i) = 0"
    and room: "(\<exists>i. cached s bno i) \<or> evictable s"
  obtains b where "takes s bno b"
    and "bread 1 bno s = Inr (b, s\<lparr>mcpu := settle (mcpu s),
      bufs := upd b (got (pid (procs s ! c)) (is_dirty s bno) bno (view s bno)) (bufs s)\<rparr>)"
proof (cases "\<exists>i. cached s bno i")
  case True
  then obtain b where b: "cached s bno b" by blast
  have t: "takes s bno b" using b free [OF b] by (simp add: takes_def cached_def)
  have "bget 1 bno s = Inr (b, s\<lparr>mcpu := settle (mcpu s),
      bufs := upd b (taken (pid (procs s ! c)) \<circ> id) (bufs s)\<rparr>)"
    using bget_hit [OF inv b free [OF b]] by simp
  then show ?thesis using that [OF t] bread_takes [OF inv bno t, of id] b by simp
next
  case False
  then obtain i where i: "i < 30" "brefcnt (bufs s ! i) = 0" "\<not> bdirty (bufs s ! i)"
    using room by (auto simp: evictable_def)
  then have "find (\<lambda>i. brefcnt (bufs s ! i) = 0 \<and> \<not> bdirty (bufs s ! i)) (rev xs) \<noteq> None"
    using lruD(3) [OF binvD(2) [OF inv]] by (auto simp: find_None_iff)
  then obtain b where b: "find (\<lambda>i. brefcnt (bufs s ! i) = 0 \<and> \<not> bdirty (bufs s ! i)) (rev xs) = Some b"
    by blast
  then have bP: "brefcnt (bufs s ! b) = 0" "\<not> bdirty (bufs s ! b)" "b \<in> set xs"
    unfolding find_Some_iff by (metis set_rev nth_mem)+
  have t: "takes s bno b" using bP False lruD(3) [OF binvD(2) [OF inv]] by (auto simp: takes_def)
  have "bget 1 bno s = Inr (b, s\<lparr>mcpu := settle (mcpu s),
      bufs := upd b (taken (pid (procs s ! c)) \<circ> fresh_buf bno) (bufs s)\<rparr>)"
    using bget_miss [OF inv _ b] False by (simp add: comp_def)
  then show ?thesis using that [OF t] bread_takes [OF inv bno t, of "fresh_buf bno"] False by simp
qed

end
