(* ===== verification/BioOps.thy ===== *)
theory BioOps
  imports BioInv
begin

text \<open>
  What the cache operations do to the contents of the disk as readers see it (\<open>view\<close>), to
  the set of blocks still to be written (\<open>is_dirty\<close>), and to the disk itself.
\<close>

lemma binv_upd:
  assumes inv: "binv c s xs" and b: "b < NBUF"
    and links: "\<And>x. next (g x) = next x" "\<And>x. prev (g x) = prev x"
    and uniq: "\<And>i. bdev (g (bufs s ! b)) = 1 \<Longrightarrow> cached s (bblockno (g (bufs s ! b))) i \<Longrightarrow> i = b"
    and ok: "buf_ok (pid (procs s ! c)) (disksize s) (disk s) (g (bufs s ! b))"
  shows "binv c (s\<lparr>mcpu := settle (mcpu s), bufs := upd b g (bufs s)\<rparr>) xs"
  unfolding binv_def
proof (intro conjI allI impI)
  let ?s = "s\<lparr>mcpu := settle (mcpu s), bufs := upd b g (bufs s)\<rparr>"
  have len: "length (bufs s) = 31" by (rule binvD(3) [OF inv])
  show "kok c ?s" using kok_settle [OF binvD(1) [OF inv]] by (simp add: kok_bst)
  show "lru (bufs ?s) xs" using binvD(2) [OF inv] lru_upd [OF links] by simp
  fix i assume i: "i < NBUF"
  show "buf_ok (pid (procs ?s ! c)) (disksize ?s) (disk ?s) (bufs ?s ! i)"
    using binvD(5) [OF inv, of i] ok i len by auto
  fix j assume j: "j < NBUF"
    and d: "bdev (bufs ?s ! i) = 1" "bdev (bufs ?s ! j) = 1" "bblockno (bufs ?s ! i) = bblockno (bufs ?s ! j)"
  show "i = j"
    using uniq [of i] uniq [of j] binvD(4) [OF inv, of _ i j] i j d len b
    by (auto simp: cached_def split: if_splits)
qed

lemma cached_upd:
  assumes "length (bufs s) = 31"
  shows "cached (s\<lparr>mcpu := m, bufs := upd b g (bufs s)\<rparr>) x i \<longleftrightarrow>
     (if i = b then b < NBUF \<and> bdev (g (bufs s ! b)) = 1 \<and> bblockno (g (bufs s ! b)) = x
      else cached s x i)"
  using assms by (auto simp: cached_def)

subsection \<open>After bread\<close>

definition bread_post :: "nat \<Rightarrow> 'z bst_scheme \<Rightarrow> u32 \<Rightarrow> nat \<Rightarrow> 'z bst_scheme" where
  "bread_post c s bno b = s\<lparr>mcpu := settle (mcpu s),
     bufs := upd b (got (pid (procs s ! c)) (is_dirty s bno) bno (view s bno)) (bufs s)\<rparr>"

lemma got_simps [simp]:
  "next (got p d bno v x) = next x" "prev (got p d bno v x) = prev x" "bvalid (got p d bno v x)"
  "bdirty (got p d bno v x) = d" "bdev (got p d bno v x) = 1" "bblockno (got p d bno v x) = bno"
  "blk (got p d bno v x) = \<lparr>slocked = True, spid = p\<rparr>" "brefcnt (got p d bno v x) = 1"
  "bdata (got p d bno v x) = v"
  by (simp_all add: got_def)

lemma bread_post_inv:
  assumes inv: "binv c s xs" and bno: "bno < disksize s" and t: "takes s bno b"
  shows "binv c (bread_post c s bno b) xs"
  unfolding bread_post_def
proof (rule binv_upd [OF inv])
  show "b < NBUF" using t by (simp add: takes_def)
next
  fix i
  assume "cached s (bblockno (got (pid (procs s ! c)) (is_dirty s bno) bno (view s bno) (bufs s ! b))) i"
  then show "i = b" using t binvD(4) [OF inv, of bno] by (auto simp: takes_def)
qed (use bno in \<open>auto simp: buf_ok_def\<close>)

lemma bread_post_view:
  assumes inv: "binv c s xs" and bno: "bno < disksize s" and t: "takes s bno b"
  shows "view (bread_post c s bno b) = view s"
proof
  let ?s = "bread_post c s bno b"
  note len = binvD(3) [OF inv]
  have b: "b < 30" using t by (simp add: takes_def)
  note inv' = bread_post_inv [OF inv bno t]
  have cb: "cached ?s bno b" using b len by (simp add: bread_post_def cached_upd)
  fix x
  show "view ?s x = view s x"
  proof (cases "x = bno")
    case True
    have "view ?s bno = bdata (bufs ?s ! b)"
      by (rule view_at [OF inv' cb]) (use b len in \<open>simp add: bread_post_def\<close>)
    then show ?thesis using True b len by (simp add: bread_post_def)
  next
    case False
    have ca: "cached ?s x i \<longleftrightarrow> i \<noteq> b \<and> cached s x i" for i
      using False len by (auto simp: bread_post_def cached_upd)
    have same: "bufs ?s ! i = bufs s ! i" if "i \<noteq> b" "i < 30" for i
      using that len by (simp add: bread_post_def)
    show ?thesis
    proof (cases "\<exists>i. cached s x i \<and> bvalid (bufs s ! i) \<and> i \<noteq> b")
      case True
      then obtain i where i: "cached s x i" "bvalid (bufs s ! i)" "i \<noteq> b" "i < 30"
        by (auto simp: cached_def)
      then have "view ?s x = bdata (bufs ?s ! i)" using ca same by (intro view_at [OF inv']) auto
      moreover have "view s x = bdata (bufs s ! i)" using i by (intro view_at [OF inv]) auto
      ultimately show ?thesis using same i by simp
    next
      case no: False
      have d: "view ?s x = disk ?s x"
        using no ca same by (intro view_disk) (auto simp: cached_def)
      have "view s x = disk s x"
      proof (cases "cached s x b \<and> bvalid (bufs s ! b)")
        case True
        then have "\<not> cached s bno b" using False by (auto simp: cached_def)
        then have "brefcnt (bufs s ! b) = 0" "\<not> bdirty (bufs s ! b)" using t by (auto simp: takes_def)
        then have "bdata (bufs s ! b) = disk s x"
          using True binvD(5) [OF inv b] by (auto simp: buf_ok_def cached_def)
        then show ?thesis using view_at [OF inv] True by metis
      next
        case False
        then show ?thesis using no by (intro view_disk) auto
      qed
      then show ?thesis using d by (simp add: bread_post_def)
    qed
  qed
qed

lemma bread_post_dirty:
  assumes inv: "binv c s xs" and bno: "bno < disksize s" and t: "takes s bno b"
  shows "is_dirty (bread_post c s bno b) = is_dirty s"
proof
  let ?s = "bread_post c s bno b"
  note len = binvD(3) [OF inv]
  have b: "b < 30" using t by (simp add: takes_def)
  fix x
  show "is_dirty ?s x = is_dirty s x"
  proof (cases "x = bno")
    case True
    have "is_dirty ?s bno \<longleftrightarrow> (\<exists>i<NBUF. cached ?s bno i \<and> bdirty (bufs ?s ! i))"
      by (simp add: is_dirty_def)
    moreover have "cached ?s bno b" "bdirty (bufs ?s ! b) = is_dirty s bno"
      using b len by (simp_all add: bread_post_def cached_upd)
    moreover have "i = b" if "cached ?s bno i" for i
      using binvD(4) [OF bread_post_inv [OF inv bno t]] that calculation(2) by blast
    ultimately show ?thesis using True b by auto
  next
    case False
    have "cached ?s x i \<longleftrightarrow> i \<noteq> b \<and> cached s x i" for i
      using False len by (auto simp: bread_post_def cached_upd)
    moreover have "\<not> (cached s x b \<and> bdirty (bufs s ! b))"
      using False t by (auto simp: takes_def cached_def)
    moreover have "bufs ?s ! i = bufs s ! i" if "i \<noteq> b" "i < 30" for i
      using that len by (simp add: bread_post_def)
    ultimately show ?thesis by (simp add: is_dirty_def) metis
  qed
qed


subsection \<open>Changing, writing and releasing a buffer that is held\<close>

definition holds :: "'z bst_scheme \<Rightarrow> u32 \<Rightarrow> nat \<Rightarrow> bool" where
  "holds s bno b \<longleftrightarrow> cached s bno b \<and> bvalid (bufs s ! b) \<and> brefcnt (bufs s ! b) = 1"

definition put_data :: "nat \<Rightarrow> block \<Rightarrow> 'z bst_scheme \<Rightarrow> 'z bst_scheme" where
  "put_data b v s = setb b (\<lambda>x. x\<lparr>bdata := v\<rparr>) s"

lemma holds_blk:
  assumes "binv c s xs" "holds s bno b"
  shows "b < NBUF" "blk (bufs s ! b) = \<lparr>slocked = True, spid = pid (procs s ! c)\<rparr>"
    "bdev (bufs s ! b) = 1" "bblockno (bufs s ! b) = bno" "bno < disksize s"
proof -
  show b: "b < NBUF" "bdev (bufs s ! b) = 1" "bblockno (bufs s ! b) = bno"
    using assms(2) by (auto simp: holds_def cached_def)
  show "blk (bufs s ! b) = \<lparr>slocked = True, spid = pid (procs s ! c)\<rparr>" "bno < disksize s"
    using binvD(5) [OF assms(1), of b] b assms(2)
    by (cases "blk (bufs s ! b)"; auto simp: buf_ok_def holds_def)+
qed

lemma holds_post:
  assumes "binv c s xs" "takes s bno b"
  shows "holds (bread_post c s bno b) bno b"
  using assms binvD(3) [OF assms(1)] by (simp add: holds_def bread_post_def cached_upd takes_def)

lemma binv_same_block:
  assumes inv: "binv c s xs" and h: "cached s bno b"
    and links: "\<And>x. next (g x) = next x" "\<And>x. prev (g x) = prev x"
    and blk: "bdev (g (bufs s ! b)) = 1" "bblockno (g (bufs s ! b)) = bno"
    and ok: "buf_ok (pid (procs s ! c)) (disksize s) (disk s) (g (bufs s ! b))"
  shows "binv c (s\<lparr>mcpu := settle (mcpu s), bufs := upd b g (bufs s)\<rparr>) xs"
proof (rule binv_upd [OF inv _ links _ ok])
  show "b < NBUF" using h by (simp add: cached_def)
  show "i = b" if "cached s (bblockno (g (bufs s ! b))) i" for i
    using that binvD(4) [OF inv _ h] by (simp add: blk)
qed

lemma view_same_block:
  assumes inv: "binv c s xs" and inv': "binv c s' xs'" and b: "cached s bno b"
    and ca: "\<And>x i. cached s' x i \<longleftrightarrow> cached s x i" and va: "bvalid (bufs s' ! b)"
    and same: "\<And>i. i < 30 \<Longrightarrow> i \<noteq> b \<Longrightarrow>
      bvalid (bufs s' ! i) = bvalid (bufs s ! i) \<and> bdata (bufs s' ! i) = bdata (bufs s ! i)"
    and d: "\<And>x. x \<noteq> bno \<Longrightarrow> disk s' x = disk s x"
  shows "view s' = (view s)(bno := bdata (bufs s' ! b))"
proof
  fix x
  show "view s' x = ((view s)(bno := bdata (bufs s' ! b))) x"
  proof (cases "x = bno")
    case True
    then show ?thesis using view_at [OF inv', of bno b] b ca va by simp
  next
    case False
    have nb: "i \<noteq> b" if "cached s x i" for i using that b False by (auto simp: cached_def)
    show ?thesis
    proof (cases "\<exists>i. cached s x i \<and> bvalid (bufs s ! i)")
      case True
      then obtain i where i: "cached s x i" "bvalid (bufs s ! i)" by blast
      then have i': "i < 30" "i \<noteq> b" using nb by (auto simp: cached_def)
      have "view s x = bdata (bufs s ! i)" using i by (intro view_at [OF inv])
      moreover have "view s' x = bdata (bufs s' ! i)"
        using i i' ca same by (intro view_at [OF inv']) auto
      ultimately show ?thesis using same [OF i'] False by simp
    next
      case no: False
      then have "view s x = disk s x" by (intro view_disk) auto
      moreover have "view s' x = disk s' x"
      proof (rule view_disk)
        fix i assume "cached s' x i"
        then have "cached s x i" by (simp add: ca)
        then show "\<not> bvalid (bufs s' ! i)" using no nb same [of i] by (auto simp: cached_def)
      qed
      ultimately show ?thesis using d [OF False] False by simp
    qed
  qed
qed

lemma put_data_ok:
  assumes inv: "binv c s xs" and h: "holds s bno b"
  shows "binv c (put_data b v s) xs" and "view (put_data b v s) = (view s)(bno := v)"
    and "is_dirty (put_data b v s) = is_dirty s" and "holds (put_data b v s) x j = holds s x j"
proof -
  note len = binvD(3) [OF inv] and hb = holds_blk [OF inv h]
  let ?s = "put_data b v s"
  have bufs: "bufs ?s ! i = (if i = b then (bufs s ! b)\<lparr>bdata := v\<rparr> else bufs s ! i)" for i
    using hb(1) len by (auto simp: put_data_def nth_upd_if)
  have same: "bdirty (bufs ?s ! i) = bdirty (bufs s ! i)" "bvalid (bufs ?s ! i) = bvalid (bufs s ! i)"
      "brefcnt (bufs ?s ! i) = brefcnt (bufs s ! i)" "bdev (bufs ?s ! i) = bdev (bufs s ! i)"
      "bblockno (bufs ?s ! i) = bblockno (bufs s ! i)" "blk (bufs ?s ! i) = blk (bufs s ! i)" for i
    by (simp_all add: bufs)
  have ca: "cached ?s x i \<longleftrightarrow> cached s x i" for x i by (simp add: cached_def same)
  show inv': "binv c ?s xs"
    unfolding binv_def
  proof (intro conjI allI impI)
    show "kok c ?s" "lru (bufs ?s) xs"
      using binvD(1,2) [OF inv] by (simp_all add: put_data_def lru_upd)
    fix i assume i: "i < NBUF"
    show "buf_ok (pid (procs ?s ! c)) (disksize ?s) (disk ?s) (bufs ?s ! i)"
      using binvD(5) [OF inv, of i] i h unfolding bufs
      by (auto simp: put_data_def buf_ok_def holds_def)
    fix j assume "j < NBUF" "bdev (bufs ?s ! i) = 1" "bdev (bufs ?s ! j) = 1"
        "bblockno (bufs ?s ! i) = bblockno (bufs ?s ! j)"
    then show "i = j"
      using binvD(4) [OF inv, of "bblockno (bufs s ! i)" i j] i by (simp add: cached_def same)
  qed
  have "view ?s = (view s)(bno := bdata (bufs ?s ! b))"
  proof (rule view_same_block [OF inv inv'])
    show "cached s bno b" "bvalid (bufs ?s ! b)" using h by (simp_all add: holds_def bufs)
    show "disk ?s x = disk s x" for x by (simp add: put_data_def)
    show "cached ?s x i \<longleftrightarrow> cached s x i" for x i by (rule ca)
    show "bvalid (bufs ?s ! i) = bvalid (bufs s ! i) \<and> bdata (bufs ?s ! i) = bdata (bufs s ! i)"
      if "i < 30" "i \<noteq> b" for i using that by (simp add: bufs)
  qed
  then show "view ?s = (view s)(bno := v)" by (simp add: bufs)
  show "is_dirty ?s = is_dirty s" by (simp add: fun_eq_iff is_dirty_def ca same)
  show "holds ?s x j = holds s x j" by (simp add: holds_def ca same)
qed


definition bwrite_post :: "nat \<Rightarrow> u32 \<Rightarrow> nat \<Rightarrow> 'z bst_scheme \<Rightarrow> 'z bst_scheme" where
  "bwrite_post c bno b s = s\<lparr>mcpu := settle (mcpu s),
     disk := (disk s)(bno := bdata (bufs s ! b)),
     dtrace := dtrace s @ [(bno, bdata (bufs s ! b))],
     bufs := upd b (\<lambda>x. x\<lparr>bdirty := False, bvalid := True\<rparr>) (bufs s)\<rparr>"

lemma bwrite_eq:
  assumes inv: "binv c s xs" and h: "holds s bno b"
  shows "bwrite b s = Inr (bwrite_post c bno b s)"
proof -
  note hb = holds_blk [OF inv h] and k = binvD(1) [OF inv] and len = binvD(3) [OF inv]
  let ?s = "setb b (\<lambda>x. x\<lparr>bdirty := True\<rparr>) (s\<lparr>mcpu := settle (mcpu s)\<rparr>)"
  have k': "kok c ?s" using kok_settle [OF k] by simp
  have "bwrite b s = iderw b ?s" by (simp add: bwrite_def buf_held_eq [OF k] hb(2))
  also have "\<dots> = Inr (?s\<lparr>mcpu := settle (mcpu ?s),
    disk := (disk ?s)(bblockno (bufs ?s ! b) := bdata (bufs ?s ! b)),
    dtrace := dtrace ?s @ [(bblockno (bufs ?s ! b), bdata (bufs ?s ! b))],
    bufs := upd b (\<lambda>x. x\<lparr>bdirty := False, bvalid := True\<rparr>) (bufs ?s)\<rparr>)"
    using hb len by (intro iderw_write [OF k']) simp_all
  also have "\<dots> = Inr (bwrite_post c bno b s)"
    using hb len by (simp add: bwrite_post_def setb_def upd_upd)
  finally show ?thesis .
qed

lemma bwrite_post_bufs:
  assumes "b < NBUF" "length (bufs s) = 31"
  shows "bufs (bwrite_post c bno b s) ! i =
    (if i = b then (bufs s ! b)\<lparr>bdirty := False, bvalid := True\<rparr> else bufs s ! i)"
  using assms by (auto simp: bwrite_post_def nth_upd_if)

lemma bwrite_ok:
  assumes inv: "binv c s xs" and h: "holds s bno b"
  shows "binv c (bwrite_post c bno b s) xs"
    and "view (bwrite_post c bno b s) = view s"
    and "is_dirty (bwrite_post c bno b s) x = (is_dirty s x \<and> x \<noteq> bno)"
    and "holds (bwrite_post c bno b s) x j = holds s x j"
proof -
  note len = binvD(3) [OF inv] and hb = holds_blk [OF inv h]
  let ?s = "bwrite_post c bno b s"
  note bufs = bwrite_post_bufs [OF hb(1) len, of c bno]
  have v: "bvalid (bufs s ! b)" "cached s bno b" using h by (simp_all add: holds_def)
  have same: "bvalid (bufs ?s ! i) = bvalid (bufs s ! i)"
      "brefcnt (bufs ?s ! i) = brefcnt (bufs s ! i)" "bdev (bufs ?s ! i) = bdev (bufs s ! i)"
      "bblockno (bufs ?s ! i) = bblockno (bufs s ! i)" "blk (bufs ?s ! i) = blk (bufs s ! i)"
      "bdata (bufs ?s ! i) = bdata (bufs s ! i)" for i
    using v by (simp_all add: bufs)
  have ca: "cached ?s x i \<longleftrightarrow> cached s x i" for x i by (simp add: cached_def same)
  have procs: "procs ?s = procs s" "disksize ?s = disksize s"
      "disk ?s = (disk s)(bno := bdata (bufs s ! b))" by (simp_all add: bwrite_post_def)
  show inv': "binv c ?s xs"
    unfolding binv_def
  proof (intro conjI allI impI)
    show "kok c ?s"
      using kok_settle [OF binvD(1) [OF inv]] by (simp add: bwrite_post_def kok_bst)
    show "lru (bufs ?s) xs"
      using binvD(2) [OF inv] by (simp add: bwrite_post_def lru_upd)
    fix i assume i: "i < NBUF"
    have ob: "bblockno (bufs s ! i) \<noteq> bno \<or> i = b" if "bvalid (bufs s ! i)"
      using that binvD(5) [OF inv, of i] binvD(4) [OF inv _ v(2)] i by (auto simp: buf_ok_def cached_def)
    show "buf_ok (pid (procs ?s ! c)) (disksize ?s) (disk ?s) (bufs ?s ! i)"
    proof (cases "i = b")
      case True
      then show ?thesis
        using binvD(5) [OF inv, of b] i hb(4,5) by (auto simp: buf_ok_def same procs bufs v)
    next
      case False
      then have "bufs ?s ! i = bufs s ! i" by (simp add: bufs)
      then show ?thesis
        using binvD(5) [OF inv, of i] i ob False by (auto simp: buf_ok_def procs)
    qed
    fix j assume "j < NBUF" "bdev (bufs ?s ! i) = 1" "bdev (bufs ?s ! j) = 1"
        "bblockno (bufs ?s ! i) = bblockno (bufs ?s ! j)"
    then show "i = j"
      using binvD(4) [OF inv, of "bblockno (bufs s ! i)" i j] i by (simp add: cached_def same)
  qed
  have "view ?s = (view s)(bno := bdata (bufs ?s ! b))"
  proof (rule view_same_block [OF inv inv' v(2)])
    show "disk ?s x = disk s x" if "x \<noteq> bno" for x using that by (simp add: procs)
  qed (simp_all add: ca same v)
  then show "view ?s = view s" using view_at [OF inv v(2,1)] by (simp add: same fun_upd_idem)
  show "holds ?s x j = holds s x j" by (simp add: holds_def ca same)
  have "is_dirty ?s x \<longleftrightarrow> (\<exists>i<NBUF. cached s x i \<and> bdirty (bufs s ! i) \<and> i \<noteq> b)"
    by (auto simp: is_dirty_def ca bufs split: if_splits)
  also have "\<dots> \<longleftrightarrow> is_dirty s x \<and> x \<noteq> bno"
    using binvD(4) [OF inv _ v(2)] hb(4) by (auto simp: is_dirty_def cached_def)
  finally show "is_dirty ?s x = (is_dirty s x \<and> x \<noteq> bno)" .
qed


subsection \<open>brelse\<close>

text \<open>
  \<open>bframe c s s'\<close>: between \<open>s\<close> and \<open>s'\<close> only the cache, the disk, and what taking locks and
  waking processes up touches have changed.
\<close>

definition bframe :: "nat \<Rightarrow> 'z bst_scheme \<Rightarrow> 'z bst_scheme \<Rightarrow> bool" where
  "bframe c s s' \<longleftrightarrow> kok c s' \<and>
     (\<forall>i<NPROC. (procs s' ! i)\<lparr>pstate := RUNNABLE\<rparr> = (procs s ! i)\<lparr>pstate := RUNNABLE\<rparr>) \<and>
     s' = s\<lparr>mcpu := mcpu s', procs := procs s', queue := queue s', queue_tail := queue_tail s',
            bufs := bufs s', disk := disk s', dtrace := dtrace s'\<rparr>"

lemma bframe_refl: "kok c s \<Longrightarrow> bframe c s s"
  by (simp add: bframe_def)

lemma bframe_eq:
  "bframe c s s' \<Longrightarrow>
     s' = s\<lparr>mcpu := mcpu s', procs := procs s', queue := queue s', queue_tail := queue_tail s',
            bufs := bufs s', disk := disk s', dtrace := dtrace s'\<rparr>"
  by (simp add: bframe_def)

lemma bframe_trans:
  assumes "bframe c s t" and "bframe c t u"
  shows "bframe c s u"
proof -
  have "u = s\<lparr>mcpu := mcpu u, procs := procs u, queue := queue u, queue_tail := queue_tail u,
            bufs := bufs u, disk := disk u, dtrace := dtrace u\<rparr>"
    by (subst bframe_eq [OF assms(2)], subst bframe_eq [OF assms(1)]) simp
  then show ?thesis using assms by (simp add: bframe_def)
qed

lemma bframe_simps:
  assumes "bframe c s s'"
  shows "disksize s' = disksize s" "locks s' = locks s" "kok c s'"
proof -
  show "disksize s' = disksize s" using arg_cong [OF bframe_eq [OF assms], of disksize] by simp
  show "locks s' = locks s" using arg_cong [OF bframe_eq [OF assms], of locks] by simp
  show "kok c s'" using assms by (simp add: bframe_def)
qed

lemma bframe_pid:
  assumes "bframe c s s'"
  shows "pid (procs s' ! c) = pid (procs s ! c)"
proof -
  have "c < NPROC" using assms by (simp add: bframe_def kok_def)
  then show ?thesis using assms by (intro proc_eq_but_state(1)) (simp add: bframe_def)
qed

lemma bframe_bread: "kok c s \<Longrightarrow> bframe c s (bread_post c s bno b)"
  using kok_settle [of c s] by (simp add: bframe_def bread_post_def kok_bst)

lemma bframe_put: "kok c s \<Longrightarrow> bframe c s (put_data b v s)"
  by (simp add: bframe_def put_data_def setb_def kok_bst)

lemma bframe_bwrite: "kok c s \<Longrightarrow> bframe c s (bwrite_post c bno b s)"
  using kok_settle [of c s] by (simp add: bframe_def bwrite_post_def kok_bst)

lemma calm_bframe:
  assumes "calm c s s'"
  shows "bframe c s (s'\<lparr>bufs := bs\<rparr>)"
proof -
  have "s'\<lparr>bufs := bs\<rparr> = s\<lparr>mcpu := mcpu s', procs := procs s', queue := queue s',
      queue_tail := queue_tail s', bufs := bs\<rparr>"
    by (subst calm_frame [OF assms]) simp
  then show ?thesis using assms by (simp add: bframe_def calm_def kok_bst)
qed

text \<open>Fields of a buffer other than the links.\<close>

lemma nolinks_fields:
  assumes "nolinks x = nolinks y"
  shows "bvalid x = bvalid y" "bdirty x = bdirty y" "bdev x = bdev y" "bblockno x = bblockno y"
    "blk x = blk y" "brefcnt x = brefcnt y" "bdata x = bdata y"
  using assms by (cases x; cases y; simp add: nolinks_def)+

lemma brelse_run:
  assumes inv: "binv c s xs" and h: "holds s bno b"
  obtains t where "calm c s t"
    and "brelse b s = Inr (t\<lparr>bufs := blink b (bunlink b
           (upd b (\<lambda>x. x\<lparr>blk := initsleeplock, brefcnt := 0\<rparr>) (bufs s)))\<rparr>)"
proof -
  note hb = holds_blk [OF inv h] and k = binvD(1) [OF inv] and len = binvD(3) [OF inv]
  let ?s1 = "s\<lparr>mcpu := settle (mcpu s)\<rparr>"
  have k1: "kok c ?s1" by (rule kok_settle [OF k])
  obtain t where t: "releasesleep (LBuf b) (ChBufLock b) (blk (bufs s ! b)) ?s1 = Inr (initsleeplock, t)"
      "calm c ?s1 t"
    using releasesleep_ok [OF k1, of "LBuf b" "ChBufLock b" "blk (bufs s ! b)"]
    by (metis sleeplock_freed)
  have tb: "bufs t = bufs s" "locks t = locks s"
    using arg_cong [OF calm_frame [OF t(2)], of bufs] arg_cong [OF calm_frame [OF t(2)], of locks]
    by simp_all
  let ?t = "setb b (\<lambda>x. x\<lparr>blk := initsleeplock\<rparr>) t"
  have kt: "kok c ?t" using calm_kok [OF t(2)] by simp
  have one: "brefcnt (bufs s ! b) = 1" using h by (simp add: holds_def)
  have dec: "upd b (\<lambda>x. x\<lparr>brefcnt := brefcnt x - 1\<rparr>) (bufs ?t) =
      upd b (\<lambda>x. x\<lparr>blk := initsleeplock, brefcnt := 0\<rparr>) (bufs s)"
    using one by (simp add: upd_upd tb) (rule upd_cong, simp)
  let ?bs = "blink b (bunlink b (upd b (\<lambda>x. x\<lparr>blk := initsleeplock, brefcnt := 0\<rparr>) (bufs s)))"
  have z: "brefcnt (upd b (\<lambda>x. x\<lparr>blk := initsleeplock, brefcnt := 0\<rparr>) (bufs s) ! b) = 0"
    using hb(1) len by simp
  have "brelse b s = Inr (t\<lparr>mcpu := settle (mcpu t), bufs := ?bs\<rparr>)"
    using hb(2) t(1) z dec [unfolded setb_simps]
    by (simp add: brelse_def buf_held_eq [OF k] Let_def acq_eq [OF kt] rel_eq [OF kt])
      (simp add: setb_def)
  moreover have "calm c s (t\<lparr>mcpu := settle (mcpu t)\<rparr>)"
    using calm_trans [OF calm_settle [OF k] calm_trans [OF t(2) calm_settle [OF calm_kok [OF t(2)]]]] .
  ultimately show ?thesis using that by simp
qed


lemma brelse_ok:
  assumes inv: "binv c s xs" and h: "holds s bno b"
    and clean: "bdirty (bufs s ! b) \<or> bdata (bufs s ! b) = disk s bno"
  obtains s' where "brelse b s = Inr s'" and "binv c s' (b # remove1 b xs)" and "bframe c s s'"
    and "view s' = view s" and "is_dirty s' = is_dirty s" and "disk s' = disk s" "dtrace s' = dtrace s"
    and "\<And>x j. holds s' x j \<longleftrightarrow> holds s x j \<and> j \<noteq> b"
    and "\<And>j. j < NBUF \<Longrightarrow> j \<noteq> b \<Longrightarrow> nolinks (bufs s' ! j) = nolinks (bufs s ! j)"
    and "\<And>x j. cached s' x j = cached s x j"
    and "brefcnt (bufs s' ! b) = 0"
proof -
  note hb = holds_blk [OF inv h] and k = binvD(1) [OF inv] and len = binvD(3) [OF inv]
  let ?f = "\<lambda>x. x\<lparr>blk := initsleeplock, brefcnt := 0\<rparr> :: buf"
  let ?bs = "blink b (bunlink b (upd b ?f (bufs s)))"
  obtain t where t: "calm c s t" "brelse b s = Inr (t\<lparr>bufs := ?bs\<rparr>)"
    using brelse_run [OF inv h] by blast
  let ?s = "t\<lparr>bufs := ?bs\<rparr>"
  have fr: "bframe c s ?s" by (rule calm_bframe [OF t(1)])
  have td: "disk ?s = disk s" "dtrace ?s = dtrace s"
    using arg_cong [OF calm_frame [OF t(1)], of disk] arg_cong [OF calm_frame [OF t(1)], of dtrace] by simp_all
  have lru: "lru (upd b ?f (bufs s)) xs" using binvD(2) [OF inv] by (simp add: lru_upd)
  note mv = lru_move [OF lru hb(1)]
  have nl: "nolinks (bufs ?s ! i) = nolinks (if i = b then ?f (bufs s ! b) else bufs s ! i)" for i
    using mv(2) [of i] hb(1) len by (simp add: nth_upd_if)
  note fields = nolinks_fields [OF nl]
  have same: "bvalid (bufs ?s ! i) = bvalid (bufs s ! i)" "bdirty (bufs ?s ! i) = bdirty (bufs s ! i)"
      "bdev (bufs ?s ! i) = bdev (bufs s ! i)" "bblockno (bufs ?s ! i) = bblockno (bufs s ! i)"
      "bdata (bufs ?s ! i) = bdata (bufs s ! i)" for i
    using fields [of i] by simp_all
  have ref: "brefcnt (bufs ?s ! i) = (if i = b then 0 else brefcnt (bufs s ! i))"
      "blk (bufs ?s ! i) = (if i = b then initsleeplock else blk (bufs s ! i))" for i
    using fields [of i] by simp_all
  have ca: "cached ?s x i = cached s x i" for x i unfolding cached_def same ..
  have inv': "binv c ?s (b # remove1 b xs)"
    unfolding binv_def
  proof (intro conjI allI impI)
    show "kok c ?s" by (rule bframe_simps(3) [OF fr])
    show "lru (bufs ?s) (b # remove1 b xs)" using mv(1) by simp
    fix i assume i: "i < NBUF"
    show "buf_ok (pid (procs ?s ! c)) (disksize ?s) (disk ?s) (bufs ?s ! i)"
      using binvD(5) [OF inv, of i] i clean hb(4)
      unfolding bframe_pid [OF fr] bframe_simps(1) [OF fr] td(1) buf_ok_def same ref
      by (cases "i = b") (auto simp: initsleeplock_def)
    fix j assume "j < NBUF" "bdev (bufs ?s ! i) = 1" "bdev (bufs ?s ! j) = 1"
        "bblockno (bufs ?s ! i) = bblockno (bufs ?s ! j)"
    then show "i = j"
      unfolding same using binvD(4) [OF inv, of "bblockno (bufs s ! i)" i j] i by (simp add: cached_def)
  qed
  have vb: "bvalid (bufs s ! b)" "cached s bno b" using h by (simp_all add: holds_def)
  have "view ?s = (view s)(bno := bdata (bufs ?s ! b))"
    by (rule view_same_block [OF inv inv' vb(2) ca]) (simp_all only: same vb td)
  then have v: "view ?s = view s" using view_at [OF inv vb(2,1)] by (simp only: same fun_upd_idem)
  show ?thesis
  proof (rule that [OF t(2) inv' fr v])
    show "is_dirty ?s = is_dirty s" unfolding is_dirty_def ca same ..
    show "disk ?s = disk s" "dtrace ?s = dtrace s" by (rule td)+
    show "holds ?s x j \<longleftrightarrow> holds s x j \<and> j \<noteq> b" for x j
      unfolding holds_def ca same ref by simp
    show "nolinks (bufs ?s ! j) = nolinks (bufs s ! j)" if "j \<noteq> b" for j using nl [of j] that by simp
    show "cached ?s x j = cached s x j" for x j by (rule ca)
    show "brefcnt (bufs ?s ! b) = 0" by (simp only: ref if_True simp_thms)
  qed
qed

end
