(* ===== verification/BioQuiet.thy ===== *)
theory BioQuiet
  imports BioOps
begin

text \<open>
  The cache between system calls: nobody holds a buffer (\<open>quiet\<close>).  What the sequences of
  cache operations that the layers above use do, from one quiet state to the next.
\<close>

definition quiet :: "nat \<Rightarrow> 'z bst_scheme \<Rightarrow> bool" where
  "quiet c s \<longleftrightarrow> (\<exists>xs. binv c s xs) \<and> (\<forall>i<NBUF. brefcnt (bufs s ! i) = 0)"

text \<open>\<open>only_held c s H\<close>: the buffers in \<open>H\<close> are held, all others are free.\<close>

definition only_held :: "nat \<Rightarrow> 'z bst_scheme \<Rightarrow> nat set \<Rightarrow> bool" where
  "only_held c s H \<longleftrightarrow> (\<exists>xs. binv c s xs) \<and> (\<forall>i<NBUF. i \<notin> H \<longrightarrow> brefcnt (bufs s ! i) = 0)"

lemma quiet_only: "quiet c s \<longleftrightarrow> only_held c s {}"
  by (simp add: quiet_def only_held_def)

lemma only_held_kok: "only_held c s H \<Longrightarrow> kok c s"
  using binvD(1) by (auto simp: only_held_def)

lemma only_held_mono: "only_held c s H \<Longrightarrow> H \<subseteq> H' \<Longrightarrow> only_held c s H'"
  by (auto simp: only_held_def)

lemmas only_held_unfold = only_held_def quiet_only binv_def kok_def pt_ok_def pt_shape_def pt_idle_def

text \<open>A block that is not dirty and not held is on the disk as readers see it.\<close>

lemma view_clean:
  assumes h: "only_held c s H" and nd: "\<not> is_dirty s x" and nh: "\<And>i. i \<in> H \<Longrightarrow> \<not> cached s x i"
  shows "view s x = disk s x"
proof -
  obtain xs where inv: "binv c s xs" using h by (auto simp: only_held_def)
  show ?thesis
  proof (cases "\<exists>i. cached s x i \<and> bvalid (bufs s ! i)")
    case True
    then obtain i where i: "cached s x i" "bvalid (bufs s ! i)" by blast
    then have i30: "i < 30" by (simp add: cached_def)
    have "brefcnt (bufs s ! i) = 0" using h nh [of i] i(1) i30 by (auto simp: only_held_def)
    moreover have "\<not> bdirty (bufs s ! i)" using nd i(1) i30 by (auto simp: is_dirty_def)
    ultimately have "bdata (bufs s ! i) = disk s x"
      using binvD(5) [OF inv i30] i by (auto simp: buf_ok_def cached_def)
    then show ?thesis using view_at [OF inv i] by simp
  next
    case False
    then show ?thesis by (intro view_disk) auto
  qed
qed

text \<open>A free clean buffer exists when fewer than \<open>NBUF\<close> buffers are held or dirty.\<close>

lemma evictable_room:
  assumes h: "only_held c s H" and fin: "finite H" and d: "\<And>x. is_dirty s x \<Longrightarrow> x \<in> set bl"
    and n: "card H + length bl < NBUF"
  shows "evictable s"
proof (rule ccontr)
  assume no: "\<not> evictable s"
  obtain xs where inv: "binv c s xs" using h by (auto simp: only_held_def)
  let ?D = "{i. i < NBUF \<and> bdirty (bufs s ! i)}"
  have dev: "bdev (bufs s ! i) = 1" if "i \<in> ?D" for i
    using that binvD(5) [OF inv, of i] by (auto simp: buf_ok_def)
  have inj: "inj_on (\<lambda>i. bblockno (bufs s ! i)) ?D"
  proof (rule inj_onI)
    fix i j assume ij: "i \<in> ?D" "j \<in> ?D" "bblockno (bufs s ! i) = bblockno (bufs s ! j)"
    then have "cached s (bblockno (bufs s ! i)) i" "cached s (bblockno (bufs s ! i)) j"
      using dev [OF ij(1)] dev [OF ij(2)] by (simp_all add: cached_def)
    then show "i = j" using binvD(4) [OF inv] by blast
  qed
  have "(\<lambda>i. bblockno (bufs s ! i)) ` ?D \<subseteq> set bl"
  proof
    fix x assume "x \<in> (\<lambda>i. bblockno (bufs s ! i)) ` ?D"
    then obtain i where i: "i \<in> ?D" "x = bblockno (bufs s ! i)" by blast
    then have "is_dirty s x" using dev [OF i(1)] by (auto simp: is_dirty_def cached_def)
    then show "x \<in> set bl" by (rule d)
  qed
  then have "card ?D \<le> length bl"
    using card_inj_on_le [OF inj _ finite_set] card_length [of bl] le_trans by blast
  moreover have "{..<NBUF} \<subseteq> H \<union> ?D" using no h by (auto simp: evictable_def only_held_def)
  then have "NBUF \<le> card (H \<union> ?D)"
    using card_mono [of "H \<union> ?D" "{..<NBUF}"] fin by simp
  moreover have "card (H \<union> ?D) \<le> card H + card ?D" by (rule card_Un_le)
  ultimately show False using n by simp
qed

text \<open>Reading one more block.\<close>

lemma bread_held:
  assumes h: "only_held c s H" and bno: "bno < disksize s"
    and nh: "\<And>i. i \<in> H \<Longrightarrow> \<not> cached s bno i" and room: "(\<exists>i. cached s bno i) \<or> evictable s"
  obtains b s' where "bread 1 bno s = Inr (b, s')" and "only_held c s' (insert b H)"
    and "holds s' bno b" and "b < NBUF" and "brefcnt (bufs s ! b) = 0"
    and "bdata (bufs s' ! b) = view s bno" and "bdirty (bufs s' ! b) = is_dirty s bno"
    and "view s' = view s" and "is_dirty s' = is_dirty s" and "disk s' = disk s" "dtrace s' = dtrace s"
    and "bframe c s s'" and "\<And>j. j \<noteq> b \<Longrightarrow> bufs s' ! j = bufs s ! j"
proof -
  obtain xs where inv: "binv c s xs" using h by (auto simp: only_held_def)
  have free: "brefcnt (bufs s ! i) = 0" if "cached s bno i" for i
    using h nh [of i] that by (auto simp: only_held_def cached_def)
  obtain b where t: "takes s bno b" and eq: "bread 1 bno s = Inr (b, bread_post c s bno b)"
    using bread_ok [OF inv bno free room] unfolding bread_post_def by blast
  let ?s = "bread_post c s bno b"
  have b: "b < NBUF" "brefcnt (bufs s ! b) = 0" using t by (simp_all add: takes_def)
  have len: "length (bufs s) = 31" by (rule binvD(3) [OF inv])
  have other: "bufs ?s ! j = bufs s ! j" if "j \<noteq> b" for j
    using that by (simp add: bread_post_def nth_upd_if)
  have "only_held c ?s (insert b H)"
    using bread_post_inv [OF inv bno t] other h by (auto simp: only_held_def)
  moreover have "bdata (bufs ?s ! b) = view s bno" "bdirty (bufs ?s ! b) = is_dirty s bno"
    using b len by (simp_all add: bread_post_def)
  ultimately show ?thesis
    using that [OF eq _ holds_post [OF inv t] b] bread_post_view [OF inv bno t]
      bread_post_dirty [OF inv bno t] bframe_bread [OF binvD(1) [OF inv]] other
    by (simp add: bread_post_def)
qed

text \<open>Releasing one of the held buffers.\<close>

lemma brelse_held:
  assumes h: "only_held c s H" and b: "holds s bno b"
    and clean: "bdirty (bufs s ! b) \<or> bdata (bufs s ! b) = disk s bno"
  obtains s' where "brelse b s = Inr s'" and "only_held c s' (H - {b})"
    and "view s' = view s" and "is_dirty s' = is_dirty s" and "disk s' = disk s" "dtrace s' = dtrace s"
    and "bframe c s s'" and "\<And>x j. holds s' x j \<longleftrightarrow> holds s x j \<and> j \<noteq> b"
    and "\<And>x j. cached s' x j = cached s x j"
    and "\<And>j. j < NBUF \<Longrightarrow> j \<noteq> b \<Longrightarrow> nolinks (bufs s' ! j) = nolinks (bufs s ! j)"
proof -
  obtain xs where inv: "binv c s xs" using h by (auto simp: only_held_def)
  show ?thesis
  proof (rule brelse_ok [OF inv b clean])
    fix s'
    assume s': "brelse b s = Inr s'" "binv c s' (b # remove1 b xs)" "bframe c s s'"
      "view s' = view s" "is_dirty s' = is_dirty s" "disk s' = disk s" "dtrace s' = dtrace s"
      "\<And>x j. holds s' x j \<longleftrightarrow> holds s x j \<and> j \<noteq> b"
      "\<And>j. j < NBUF \<Longrightarrow> j \<noteq> b \<Longrightarrow> nolinks (bufs s' ! j) = nolinks (bufs s ! j)"
      "\<And>x j. cached s' x j = cached s x j" "brefcnt (bufs s' ! b) = 0"
    have "brefcnt (bufs s' ! i) = 0" if "i < NBUF" "i \<notin> H - {b}" for i
    proof (cases "i = b")
      case False
      then have "brefcnt (bufs s ! i) = 0" using h that by (auto simp: only_held_def)
      then show ?thesis using nolinks_fields(6) [OF s'(9) [OF that(1) False]] by simp
    qed (simp add: s'(11))
    then have "only_held c s' (H - {b})" using s'(2) by (auto simp: only_held_def)
    then show thesis by (rule that [OF s'(1) _ s'(4-7) s'(3) s'(8) s'(10) s'(9)])
  qed
qed


text \<open>
  Changing the contents of a held buffer and writing it, with what stays the same for the
  other held buffers.
\<close>

lemma store_held:
  assumes h: "only_held c s H" and b: "holds s x b"
  obtains s' where "bwrite b (put_data b v s) = Inr s'" and "only_held c s' H"
    and "view s' = (view s)(x := v)" and "\<And>z. is_dirty s' z \<longleftrightarrow> is_dirty s z \<and> z \<noteq> x"
    and "disk s' = (disk s)(x := v)" and "dtrace s' = dtrace s @ [(x, v)]"
    and "bframe c s s'" and "\<And>z j. holds s' z j = holds s z j"
    and "bdata (bufs s' ! b) = v" and "\<And>j. j \<noteq> b \<Longrightarrow> bufs s' ! j = bufs s ! j"
proof -
  obtain xs where inv: "binv c s xs" using h by (auto simp: only_held_def)
  note hb = holds_blk [OF inv b] and len = binvD(3) [OF inv] and k = binvD(1) [OF inv]
  let ?p = "put_data b v s"
  note p = put_data_ok [OF inv b, of v]
  have pb: "bdata (bufs ?p ! b) = v" "length (bufs ?p) = 31" "brefcnt (bufs ?p ! i) = brefcnt (bufs s ! i)" for i
    using hb(1) len by (simp_all add: put_data_def nth_upd_if)
  have hp: "holds ?p x b" using p(4) b by simp
  let ?s = "bwrite_post c x b ?p"
  note w = bwrite_ok [OF p(1) hp]
  note wb = bwrite_post_bufs [OF hb(1) pb(2), of c x]
  have d: "disk ?s = (disk s)(x := v)" "dtrace ?s = dtrace s @ [(x, v)]"
    using pb(1) by (simp_all add: bwrite_post_def put_data_def)
  have fr: "bframe c s ?s"
    using bframe_trans [OF bframe_put [OF k] bframe_bwrite [OF bframe_simps(3) [OF bframe_put [OF k]]]] .
  have "only_held c ?s H"
    using h w(1) pb(3) by (auto simp: only_held_def wb)
  moreover have "bufs ?s ! j = bufs s ! j" if "j \<noteq> b" for j
    using that by (simp add: wb) (simp add: put_data_def nth_upd_if)
  moreover have "bdata (bufs ?s ! b) = v" using pb(1) by (simp add: wb)
  ultimately show ?thesis
    using that [OF bwrite_eq [OF p(1) hp]] w p d fr by simp
qed

lemma copy_tail:
  assumes h: "only_held c s {bt, bf}" and x: "holds s x bt" and y: "holds s y bf" and ne: "x \<noteq> y"
    and clean: "bdirty (bufs s ! bf) \<or> bdata (bufs s ! bf) = disk s y"
  obtains s' where
    "bnd (bwrite bt (put_data bt (bdata (bufs s ! bf)) s)) (\<lambda>s. bnd (brelse bf s) (brelse bt)) = Inr s'"
    and "quiet c s'" and "view s' = (view s)(x := view s y)"
    and "disk s' = (disk s)(x := view s y)" and "dtrace s' = dtrace s @ [(x, view s y)]"
    and "\<And>z. is_dirty s' z \<longleftrightarrow> is_dirty s z \<and> z \<noteq> x" and "bframe c s s'"
proof -
  obtain xs where inv: "binv c s xs" using h by (auto simp: only_held_def)
  have bne: "bt \<noteq> bf" using x y ne by (auto simp: holds_def cached_def)
  have vy: "view s y = bdata (bufs s ! bf)" using y view_at [OF inv] by (simp add: holds_def)
  let ?v = "bdata (bufs s ! bf)"
  show ?thesis
  proof (rule store_held [OF h x, of ?v])
    fix t
    assume t: "bwrite bt (put_data bt ?v s) = Inr t" "only_held c t {bt, bf}"
      "view t = (view s)(x := ?v)" "\<And>z. is_dirty t z \<longleftrightarrow> is_dirty s z \<and> z \<noteq> x"
      "disk t = (disk s)(x := ?v)" "dtrace t = dtrace s @ [(x, ?v)]"
      "bframe c s t" "\<And>z j. holds t z j = holds s z j"
      "bdata (bufs t ! bt) = ?v" "\<And>j. j \<noteq> bt \<Longrightarrow> bufs t ! j = bufs s ! j"
    have cy: "bdirty (bufs t ! bf) \<or> bdata (bufs t ! bf) = disk t y"
      using clean t(10) [of bf] bne ne by (simp add: t(5))
    have hy: "holds t y bf" using t(8) y by simp
    show thesis
    proof (rule brelse_held [OF t(2) hy cy])
      fix u
      assume u: "brelse bf t = Inr u" "only_held c u ({bt, bf} - {bf})" "view u = view t"
        "is_dirty u = is_dirty t" "disk u = disk t" "dtrace u = dtrace t" "bframe c t u"
        "\<And>x j. holds u x j \<longleftrightarrow> holds t x j \<and> j \<noteq> bf" "\<And>x j. cached u x j = cached t x j"
        "\<And>j. j < NBUF \<Longrightarrow> j \<noteq> bf \<Longrightarrow> nolinks (bufs u ! j) = nolinks (bufs t ! j)"
      have hx: "holds u x bt" using u(8) t(8) x bne by simp
      have b30: "bt < NBUF" using x by (simp add: holds_def cached_def)
      have cx: "bdirty (bufs u ! bt) \<or> bdata (bufs u ! bt) = disk u x"
        using nolinks_fields(7) [OF u(10) [OF b30 bne]] t(9) by (simp add: u(5) t(5))
      show thesis
      proof (rule brelse_held [OF u(2) hx cx])
        fix w
        assume w: "brelse bt u = Inr w" "only_held c w ({bt, bf} - {bf} - {bt})" "view w = view u"
          "is_dirty w = is_dirty u" "disk w = disk u" "dtrace w = dtrace u" "bframe c u w"
        have "quiet c w" using only_held_mono [OF w(2), of "{}"] by (auto simp: quiet_only)
        then show thesis
          using that [of w] t(1) u(1) w(1) w(3-6) u(3-6) t(3-6) vy
            bframe_trans [OF t(7) bframe_trans [OF u(7) w(7)]]
          by simp
      qed
    qed
  qed
qed

end
