(* ===== verification/Bytes.thy ===== *)
theory Bytes
  imports Prelude
begin

text \<open>
  Little-endian fields in byte arrays: what a C cast of a buffer to a structure with 16-bit
  and 32-bit members reads and writes.
\<close>

definition le16 :: "u8 list \<Rightarrow> nat \<Rightarrow> u16" where
  "le16 bs i = ucast (bs ! i) OR push_bit 8 (ucast (bs ! (i + 1)))"

definition le32 :: "u8 list \<Rightarrow> nat \<Rightarrow> u32" where
  "le32 bs i = ucast (bs ! i) OR push_bit 8 (ucast (bs ! (i + 1))) OR
     push_bit 16 (ucast (bs ! (i + 2))) OR push_bit 24 (ucast (bs ! (i + 3)))"

definition put16 :: "nat \<Rightarrow> u16 \<Rightarrow> u8 list \<Rightarrow> u8 list" where
  "put16 i w bs = bs[i := ucast w, i + 1 := ucast (drop_bit 8 w)]"

definition put32 :: "nat \<Rightarrow> u32 \<Rightarrow> u8 list \<Rightarrow> u8 list" where
  "put32 i w bs = bs[i := ucast w, i + 1 := ucast (drop_bit 8 w), i + 2 := ucast (drop_bit 16 w),
     i + 3 := ucast (drop_bit 24 w)]"

text \<open>Copying \<open>v\<close> into \<open>bs\<close> at offset \<open>i\<close> (\<open>memmove\<close> to a part of a buffer).\<close>

definition splice :: "nat \<Rightarrow> 'a list \<Rightarrow> 'a list \<Rightarrow> 'a list" where
  "splice i v bs = take i bs @ v @ drop (i + length v) bs"

lemma length_put16 [simp]: "length (put16 i w bs) = length bs"
  by (simp add: put16_def)

lemma length_put32 [simp]: "length (put32 i w bs) = length bs"
  by (simp add: put32_def)

lemma le16_bytes:
  fixes w :: u16
  shows "(ucast (ucast w :: u8) :: u16) OR push_bit 8 (ucast (ucast (drop_bit 8 w) :: u8)) = w"
  by (rule bit_word_eqI) (auto simp: bit_simps)

lemma le32_bytes:
  fixes w :: u32
  shows "(ucast (ucast w :: u8) :: u32) OR push_bit 8 (ucast (ucast (drop_bit 8 w) :: u8)) OR
     push_bit 16 (ucast (ucast (drop_bit 16 w) :: u8)) OR
     push_bit 24 (ucast (ucast (drop_bit 24 w) :: u8)) = w" (is "?l = w")
proof (rule bit_word_eqI)
  fix n assume "n < LENGTH(32)"
  then show "bit ?l n = bit w n"
    by (cases "n < 16"; cases "n < 24") (auto simp: bit_simps)
qed

lemma le16_put16 [simp]: "i + 2 \<le> length bs \<Longrightarrow> le16 (put16 i w bs) i = w"
  using le16_bytes [of w] by (simp add: le16_def put16_def nth_list_update)

lemma le32_put32 [simp]: "i + 4 \<le> length bs \<Longrightarrow> le32 (put32 i w bs) i = w"
  using le32_bytes [of w] by (simp add: le32_def put32_def nth_list_update)

lemma nth_put16: "j < i \<or> i + 2 \<le> j \<Longrightarrow> put16 i w bs ! j = bs ! j"
  by (auto simp: put16_def)

lemma nth_put32: "j < i \<or> i + 4 \<le> j \<Longrightarrow> put32 i w bs ! j = bs ! j"
  by (auto simp: put32_def)

lemma le32_put32_other: "j + 4 \<le> i \<or> i + 4 \<le> j \<Longrightarrow> le32 (put32 i w bs) j = le32 bs j"
  by (auto simp: le32_def nth_put32)

lemma le32_put16_other: "j + 4 \<le> i \<or> i + 2 \<le> j \<Longrightarrow> le32 (put16 i w bs) j = le32 bs j"
  by (auto simp: le32_def nth_put16)

lemma le16_put32_other: "j + 2 \<le> i \<or> i + 4 \<le> j \<Longrightarrow> le16 (put32 i w bs) j = le16 bs j"
  by (auto simp: le16_def nth_put32)

lemma le16_put16_other: "j + 2 \<le> i \<or> i + 2 \<le> j \<Longrightarrow> le16 (put16 i w bs) j = le16 bs j"
  by (auto simp: le16_def nth_put16)

lemmas le_put_other = le32_put32_other le32_put16_other le16_put32_other le16_put16_other

lemma length_splice [simp]: "i + length v \<le> length bs \<Longrightarrow> length (splice i v bs) = length bs"
  by (simp add: splice_def)

lemma nth_splice:
  "i + length v \<le> length bs \<Longrightarrow> j < length bs \<Longrightarrow>
     splice i v bs ! j = (if i \<le> j \<and> j < i + length v then v ! (j - i) else bs ! j)"
  by (auto simp: splice_def nth_append)

lemma take_drop_splice:
  "i + length v \<le> length bs \<Longrightarrow> take (length v) (drop i (splice i v bs)) = v"
  by (simp add: splice_def)

end
