(* ===== verification/Log.thy ===== *)
theory Log
  imports BioQuiet Bytes
begin

text \<open>
  The redo log (\<^verbatim>\<open>log.c\<close>), with \<open>readsb\<close> of \<^verbatim>\<open>fs.c\<close>, which \<open>initlog\<close> calls.

  \<open>lhn\<close> and \<open>lblock\<close> are \<open>log.lh\<close>.  In the header block on the disk, \<open>n\<close> is the 32-bit word at
  offset 0 and \<open>block[i]\<close> the one at offset \<open>4 + 4 * i\<close>.  A header whose \<open>n\<close> is larger than
  \<open>LOGSIZE\<close> would make the code run past \<open>log.lh.block\<close>.
\<close>

record superblock =
  sb_size :: u32
  sb_nblocks :: u32
  sb_ninodes :: u32
  sb_nlog :: u32
  sb_logstart :: u32
  sb_inodestart :: u32
  sb_bmapstart :: u32

record logstate =
  lstart :: u32
  lsize :: int
  outstanding :: int
  committing :: bool
  ldev :: u32
  lhn :: int
  lblock :: "u32 list"

record lst = bst +
  lg :: logstate

definition sb_of :: "block \<Rightarrow> superblock" where
  "sb_of bs = \<lparr>sb_size = le32 bs 0, sb_nblocks = le32 bs 4, sb_ninodes = le32 bs 8,
     sb_nlog = le32 bs 12, sb_logstart = le32 bs 16, sb_inodestart = le32 bs 20,
     sb_bmapstart = le32 bs 24\<rparr>"

definition readsb :: "u32 \<Rightarrow> 'z bst_scheme \<Rightarrow> (superblock \<times> 'z bst_scheme) res" where
  "readsb dev s =
     bnd (bread dev 1 s) (\<lambda>(bp, s).
       let sb = sb_of (bdata (bufs s ! bp))
       in bnd (brelse bp s) (\<lambda>s. Inr (sb, s)))"

definition setlog :: "(logstate \<Rightarrow> logstate) \<Rightarrow> 'z lst_scheme \<Rightarrow> 'z lst_scheme" where
  "setlog f s = s\<lparr>lg := f (lg s)\<rparr>"

text \<open>The bodies of the two copying loops, and the loops.\<close>

definition install_step :: "nat \<Rightarrow> 'z lst_scheme \<Rightarrow> 'z lst_scheme res" where
  "install_step tail s =
     bnd (bread (ldev (lg s)) (lstart (lg s) + of_nat tail + 1) s) (\<lambda>(lbuf, s).
     bnd (bread (ldev (lg s)) (lblock (lg s) ! tail) s) (\<lambda>(dbuf, s).
     let s = put_data dbuf (bdata (bufs s ! lbuf)) s
     in bnd (bwrite dbuf s) (\<lambda>s. bnd (brelse lbuf s) (brelse dbuf))))"

definition install_trans :: "'z lst_scheme \<Rightarrow> 'z lst_scheme res" where
  "install_trans s = foldm install_step [0..<nat (lhn (lg s))] s"

text \<open>The loops that copy \<open>block[i]\<close> for all \<open>i < n\<close> into and out of the header block.\<close>

definition put_list :: "u32 list \<Rightarrow> block \<Rightarrow> block" where
  "put_list bl hb = fold (\<lambda>i hb. put32 (4 + 4 * i) (bl ! i) hb) [0..<length bl] hb"

definition get_list :: "block \<Rightarrow> nat \<Rightarrow> u32 list \<Rightarrow> u32 list" where
  "get_list lh n bl = fold (\<lambda>i bl. bl[i := le32 lh (4 + 4 * i)]) [0..<n] bl"

definition read_head :: "'z lst_scheme \<Rightarrow> 'z lst_scheme res" where
  "read_head s =
     bnd (bread (ldev (lg s)) (lstart (lg s)) s) (\<lambda>(b, s).
       let lh = bdata (bufs s ! b);
           s = setlog (\<lambda>l. l\<lparr>lhn := sint (le32 lh 0)\<rparr>) s
       in if int LOGSIZE < lhn (lg s) then Inl OutOfRange
          else brelse b (setlog (\<lambda>l. l\<lparr>lblock := get_list lh (nat (lhn l)) (lblock l)\<rparr>) s))"

definition write_head :: "'z lst_scheme \<Rightarrow> 'z lst_scheme res" where
  "write_head s =
     bnd (bread (ldev (lg s)) (lstart (lg s)) s) (\<lambda>(b, s).
       let hb = put32 0 (of_int (lhn (lg s))) (bdata (bufs s ! b));
           hb = put_list (take (nat (lhn (lg s))) (lblock (lg s))) hb;
           s = put_data b hb s
       in bnd (bwrite b s) (brelse b))"

definition recover_from_log :: "'z lst_scheme \<Rightarrow> 'z lst_scheme res" where
  "recover_from_log s =
     bnd (read_head s) (\<lambda>s.
     bnd (install_trans s) (\<lambda>s.
     write_head (setlog (\<lambda>l. l\<lparr>lhn := 0\<rparr>) s)))"

text \<open>\<open>sizeof(struct logheader)\<close> is \<open>4 + 4 * LOGSIZE\<close>.\<close>

definition initlog :: "u32 \<Rightarrow> 'z lst_scheme \<Rightarrow> 'z lst_scheme res" where
  "initlog dev s =
     (if BSIZE \<le> 4 + 4 * LOGSIZE then panic ''initlog: too big logheader''
      else let s = s\<lparr>locks := (locks s)(LLog := initlock)\<rparr>
           in bnd (readsb dev s) (\<lambda>(sb, s).
              let s = setlog (\<lambda>l. l\<lparr>lstart := sb_logstart sb, lsize := sint (sb_nlog sb), ldev := dev\<rparr>) s
              in recover_from_log s))"

definition begin_op :: "'z lst_scheme \<Rightarrow> 'z lst_scheme res" where
  "begin_op s =
     bnd (acq LLog s) (\<lambda>s.
       if committing (lg s) then Inl (Sleeping ChLog)
       else if lhn (lg s) + (outstanding (lg s) + 1) * int MAXOPBLOCKS > int LOGSIZE
       then Inl (Sleeping ChLog)
       else rel LLog (setlog (\<lambda>l. l\<lparr>outstanding := outstanding l + 1\<rparr>) s))"

definition write_log_step :: "nat \<Rightarrow> 'z lst_scheme \<Rightarrow> 'z lst_scheme res" where
  "write_log_step tail s =
     bnd (bread (ldev (lg s)) (lstart (lg s) + of_nat tail + 1) s) (\<lambda>(to, s).
     bnd (bread (ldev (lg s)) (lblock (lg s) ! tail) s) (\<lambda>(frm, s).
     let s = put_data to (bdata (bufs s ! frm)) s
     in bnd (bwrite to s) (\<lambda>s. bnd (brelse frm s) (brelse to))))"

definition write_log :: "'z lst_scheme \<Rightarrow> 'z lst_scheme res" where
  "write_log s = foldm write_log_step [0..<nat (lhn (lg s))] s"

definition commit :: "'z lst_scheme \<Rightarrow> 'z lst_scheme res" where
  "commit s =
     (if lhn (lg s) > 0
      then bnd (write_log s) (\<lambda>s.
           bnd (write_head s) (\<lambda>s.
           bnd (install_trans s) (\<lambda>s.
           write_head (setlog (\<lambda>l. l\<lparr>lhn := 0\<rparr>) s))))
      else Inr s)"

definition end_op :: "'z lst_scheme \<Rightarrow> 'z lst_scheme res" where
  "end_op s =
     bnd (acq LLog s) (\<lambda>s.
       let s = setlog (\<lambda>l. l\<lparr>outstanding := outstanding l - 1\<rparr>) s
       in if committing (lg s) then panic ''log.committing''
          else if outstanding (lg s) = 0
          then bnd (rel LLog (setlog (\<lambda>l. l\<lparr>committing := True\<rparr>) s)) (\<lambda>s.
               bnd (commit s) (\<lambda>s.
               bnd (acq LLog s) (\<lambda>s.
               bnd (wakeup ChLog (setlog (\<lambda>l. l\<lparr>committing := False\<rparr>) s)) (rel LLog))))
          else bnd (wakeup ChLog s) (rel LLog))"

text \<open>The loop of \<open>log_write\<close>: where the block is recorded already, or \<open>n\<close>.\<close>

definition log_index :: "u32 \<Rightarrow> logstate \<Rightarrow> nat" where
  "log_index bno l =
     (case first_idx (\<lambda>x. x = bno) (take (nat (lhn l)) (lblock l)) of Some i \<Rightarrow> i | None \<Rightarrow> nat (lhn l))"

definition log_write :: "nat \<Rightarrow> 'z lst_scheme \<Rightarrow> 'z lst_scheme res" where
  "log_write b s =
     (if lhn (lg s) \<ge> int LOGSIZE \<or> lhn (lg s) \<ge> lsize (lg s) - 1
      then panic ''too big a transaction''
      else if outstanding (lg s) < 1 then panic ''log_write outside of trans''
      else bnd (acq LLog s) (\<lambda>s.
        let bno = bblockno (bufs s ! b);
            i = log_index bno (lg s);
            s = setlog (\<lambda>l. l\<lparr>lblock := (lblock l)[i := bno]\<rparr>) s;
            s = (if i = nat (lhn (lg s)) then setlog (\<lambda>l. l\<lparr>lhn := lhn l + 1\<rparr>) s else s);
            s = setb b (\<lambda>x. x\<lparr>bdirty := True\<rparr>) s
        in rel LLog s))"

end
