(* ===== verification/LogInv.thy ===== *)
theory LogInv
  imports Log
begin

text \<open>
  The copying loops of the log, as sequences of block writes.

  \<open>wrote c s s' ws\<close>: between the quiet states \<open>s\<close> and \<open>s'\<close> exactly the block writes \<open>ws\<close>
  reached the disk, in this order, readers see their effect, and the written blocks are no
  longer dirty.
\<close>

definition put_blocks :: "(u32 \<Rightarrow> block) \<Rightarrow> (u32 \<times> block) list \<Rightarrow> u32 \<Rightarrow> block" where
  "put_blocks d ws = foldl (\<lambda>d (b, v). d(b := v)) d ws"

lemma put_blocks_Nil [simp]: "put_blocks d [] = d"
  by (simp add: put_blocks_def)

lemma put_blocks_append: "put_blocks d (xs @ ys) = put_blocks (put_blocks d xs) ys"
  by (simp add: put_blocks_def)

lemma put_blocks_Cons [simp]: "put_blocks d ((b, v) # ws) = put_blocks (d(b := v)) ws"
  by (simp add: put_blocks_def)

lemma put_blocks_other: "x \<notin> fst ` set ws \<Longrightarrow> put_blocks d ws x = d x"
  by (induction ws arbitrary: d) (auto simp: put_blocks_def split_beta)

lemma put_blocks_nth:
  assumes "\<And>i j. i < n \<Longrightarrow> j < n \<Longrightarrow> T i = T j \<Longrightarrow> i = j" and "i < n"
  shows "put_blocks d (map (\<lambda>i. (T i, V i)) [0..<n]) (T i) = V i"
  using assms
proof (induction n)
  case (Suc n)
  show ?case
  proof (cases "i = n")
    case False
    then have "T n \<noteq> T i" using Suc.prems(1) [of n i] Suc.prems(2) by auto
    then show ?thesis using Suc False by (simp add: put_blocks_append)
  qed (simp add: put_blocks_append)
qed simp

definition wrote :: "nat \<Rightarrow> 'z bst_scheme \<Rightarrow> 'z bst_scheme \<Rightarrow> (u32 \<times> block) list \<Rightarrow> bool" where
  "wrote c s s' ws \<longleftrightarrow> quiet c s' \<and> bframe c s s' \<and> view s' = put_blocks (view s) ws \<and>
     disk s' = put_blocks (disk s) ws \<and> dtrace s' = dtrace s @ ws \<and>
     (\<forall>z. is_dirty s' z \<longleftrightarrow> is_dirty s z \<and> z \<notin> fst ` set ws)"

lemma wroteD:
  assumes "wrote c s s' ws"
  shows "quiet c s'" "bframe c s s'" "view s' = put_blocks (view s) ws"
    "disk s' = put_blocks (disk s) ws" "dtrace s' = dtrace s @ ws"
    "is_dirty s' z \<longleftrightarrow> is_dirty s z \<and> z \<notin> fst ` set ws"
  using assms by (simp_all add: wrote_def)

lemma wrote_refl: "quiet c s \<Longrightarrow> wrote c s s []"
  using only_held_kok [of c s "{}"] by (simp add: wrote_def quiet_only bframe_refl)

lemma wrote_trans:
  assumes a: "wrote c s t ws" and b: "wrote c t u vs"
  shows "wrote c s u (ws @ vs)"
  using wroteD [OF a] wroteD [OF b] bframe_trans [OF wroteD(2) [OF a] wroteD(2) [OF b]]
  by (auto simp: wrote_def put_blocks_append)

text \<open>Reading two blocks, one after the other.\<close>

lemma two_reads:
  assumes q: "quiet c s" and x: "x < disksize s" and y: "y < disksize s" and ne: "x \<noteq> y"
    and d: "\<And>z. is_dirty s z \<Longrightarrow> z \<in> set bl" and n: "length bl < NBUF"
    and room: "is_dirty s y \<or> length bl + 1 < NBUF"
  obtains i t j u where "bread 1 x s = Inr (i, t)" and "bread 1 y t = Inr (j, u)"
    and "only_held c u {i, j}" and "holds u x i" and "holds u y j"
    and "bdirty (bufs u ! i) \<or> bdata (bufs u ! i) = disk u x"
    and "bdirty (bufs u ! j) \<or> bdata (bufs u ! j) = disk u y"
    and "view u = view s" and "is_dirty u = is_dirty s" and "disk u = disk s" and "dtrace u = dtrace s"
    and "bframe c s t" and "bframe c t u"
proof -
  have h: "only_held c s {}" using q by (simp add: quiet_only)
  have ev: "evictable s" by (rule evictable_room [OF h _ d]) (use n in simp_all)
  have clean: "is_dirty s z \<or> view s z = disk s z" for z
    using view_clean [OF h, of z] by auto
  show ?thesis
  proof (rule bread_held [OF h x])
    fix i t
    assume t: "bread 1 x s = Inr (i, t)" "only_held c t {i}" "holds t x i" "i < NBUF"
      "brefcnt (bufs s ! i) = 0" "bdata (bufs t ! i) = view s x" "bdirty (bufs t ! i) = is_dirty s x"
      "view t = view s" "is_dirty t = is_dirty s" "disk t = disk s" "dtrace t = dtrace s"
      "bframe c s t" "\<And>j. j \<noteq> i \<Longrightarrow> bufs t ! j = bufs s ! j"
    have y': "y < disksize t" using y bframe_simps(1) [OF t(12)] by simp
    have nh: "\<not> cached t y k" if "k \<in> {i}" for k
      using that t(3) ne by (auto simp: holds_def cached_def)
    have room': "(\<exists>k. cached t y k) \<or> evictable t"
    proof (cases "is_dirty s y")
      case True
      then have "is_dirty t y" by (simp add: t(9))
      then show ?thesis by (auto simp: is_dirty_def)
    next
      case False
      then have "evictable t"
        by (intro evictable_room [OF t(2), of bl]) (use d room t(9) in auto)
      then show ?thesis ..
    qed
    show thesis
    proof (rule bread_held [OF t(2) y' nh room'])
      fix j u
      assume u: "bread 1 y t = Inr (j, u)" "only_held c u {j, i}" "holds u y j" "j < NBUF"
        "brefcnt (bufs t ! j) = 0" "bdata (bufs u ! j) = view t y" "bdirty (bufs u ! j) = is_dirty t y"
        "view u = view t" "is_dirty u = is_dirty t" "disk u = disk t" "dtrace u = dtrace t"
        "bframe c t u" "\<And>k. k \<noteq> j \<Longrightarrow> bufs u ! k = bufs t ! k"
      have ij: "i \<noteq> j" using u(5) t(3) by (auto simp: holds_def)
      have ui: "bufs u ! i = bufs t ! i" by (rule u(13) [OF ij])
      have hx: "holds u x i" using t(3) ui by (simp add: holds_def cached_def)
      have "only_held c u {i, j}" using u(2) by (simp add: insert_commute)
      then show thesis
        using that [OF t(1) u(1) _ hx u(3) _ _ _ _ _ _ t(12) u(12)] clean [of x] clean [of y]
        by (simp add: ui t(6-11) u(6-11))
    qed
  qed (use ev in auto)
qed

subsection \<open>The copying loops\<close>

lemma bframe_lg: "bframe c s s' \<Longrightarrow> lg s' = lg s"
  using arg_cong [OF bframe_eq, of c s s' lg] by simp

lemma write_log_step_ok:
  assumes q: "quiet c s" and dev: "ldev (lg s) = 1"
    and x: "lstart (lg s) + of_nat i + 1 = x" "x < disksize s"
    and y: "lblock (lg s) ! i = y" "y < disksize s" and ne: "x \<noteq> y"
    and d: "\<And>z. is_dirty s z \<Longrightarrow> z \<in> set bl" and n: "length bl < NBUF"
    and room: "is_dirty s y \<or> length bl + 1 < NBUF"
  shows "\<exists>s'. write_log_step i s = Inr s' \<and> wrote c s s' [(x, view s y)]"
proof (rule two_reads [OF q x(2) y(2) ne d n room])
  fix a t b u
  assume tu: "bread 1 x s = Inr (a, t)" "bread 1 y t = Inr (b, u)" "only_held c u {a, b}"
    "holds u x a" "holds u y b" "bdirty (bufs u ! a) \<or> bdata (bufs u ! a) = disk u x"
    "bdirty (bufs u ! b) \<or> bdata (bufs u ! b) = disk u y"
    "view u = view s" "is_dirty u = is_dirty s" "disk u = disk s" "dtrace u = dtrace s"
    "bframe c s t" "bframe c t u"
  show ?thesis
  proof (rule copy_tail [OF tu(3-5) ne tu(7)])
    fix s'
    assume s': "bnd (bwrite a (put_data a (bdata (bufs u ! b)) u)) (\<lambda>s. bnd (brelse b s) (brelse a)) = Inr s'"
      "quiet c s'" "view s' = (view u)(x := view u y)" "disk s' = (disk u)(x := view u y)"
      "dtrace s' = dtrace u @ [(x, view u y)]" "\<And>z. is_dirty s' z \<longleftrightarrow> is_dirty u z \<and> z \<noteq> x" "bframe c u s'"
    have "write_log_step i s = Inr s'"
      using s'(1) by (simp add: write_log_step_def dev x(1) y(1) tu(1,2) bframe_lg [OF tu(12)])
    then show ?thesis
      using s'(2-6) bframe_trans [OF tu(12) bframe_trans [OF tu(13) s'(7)]]
      by (auto simp: wrote_def tu(8-11))
  qed
qed

lemma install_step_ok:
  assumes q: "quiet c s" and dev: "ldev (lg s) = 1"
    and x: "lstart (lg s) + of_nat i + 1 = x" "x < disksize s"
    and y: "lblock (lg s) ! i = y" "y < disksize s" and ne: "x \<noteq> y"
    and d: "\<And>z. is_dirty s z \<Longrightarrow> z \<in> set bl" and n: "length bl < NBUF"
    and room: "is_dirty s y \<or> length bl + 1 < NBUF"
  shows "\<exists>s'. install_step i s = Inr s' \<and> wrote c s s' [(y, view s x)]"
proof (rule two_reads [OF q x(2) y(2) ne d n room])
  fix a t b u
  assume tu: "bread 1 x s = Inr (a, t)" "bread 1 y t = Inr (b, u)" "only_held c u {a, b}"
    "holds u x a" "holds u y b" "bdirty (bufs u ! a) \<or> bdata (bufs u ! a) = disk u x"
    "bdirty (bufs u ! b) \<or> bdata (bufs u ! b) = disk u y"
    "view u = view s" "is_dirty u = is_dirty s" "disk u = disk s" "dtrace u = dtrace s"
    "bframe c s t" "bframe c t u"
  have h: "only_held c u {b, a}" using tu(3) by (simp add: insert_commute)
  show ?thesis
  proof (rule copy_tail [OF h tu(5,4) ne [symmetric] tu(6)])
    fix s'
    assume s': "bnd (bwrite b (put_data b (bdata (bufs u ! a)) u)) (\<lambda>s. bnd (brelse a s) (brelse b)) = Inr s'"
      "quiet c s'" "view s' = (view u)(y := view u x)" "disk s' = (disk u)(y := view u x)"
      "dtrace s' = dtrace u @ [(y, view u x)]" "\<And>z. is_dirty s' z \<longleftrightarrow> is_dirty u z \<and> z \<noteq> y" "bframe c u s'"
    have "install_step i s = Inr s'"
      using s'(1) by (simp add: install_step_def dev x(1) y(1) tu(1,2) bframe_lg [OF tu(12)])
    then show ?thesis
      using s'(2-6) bframe_trans [OF tu(12) bframe_trans [OF tu(13) s'(7)]]
      by (auto simp: wrote_def tu(8-11))
  qed
qed

text \<open>A loop whose \<open>i\<close>-th step copies block \<open>F i\<close> to block \<open>T i\<close>.\<close>

lemma copy_loop:
  assumes q: "quiet c s0"
    and step: "\<And>i s. i < n \<Longrightarrow> quiet c s \<Longrightarrow> bframe c s0 s \<Longrightarrow>
      (\<And>z. is_dirty s z \<longleftrightarrow> is_dirty s0 z \<and> z \<notin> T ` {..<i}) \<Longrightarrow>
      \<exists>s'. f i s = Inr s' \<and> wrote c s s' [(T i, view s (F i))]"
    and disj: "\<And>i j. i < n \<Longrightarrow> j < n \<Longrightarrow> F i \<noteq> T j"
  shows "\<exists>s'. foldm f [0..<n] s0 = Inr s' \<and>
     wrote c s0 s' (map (\<lambda>i. (T i, view s0 (F i))) [0..<n])"
  using step disj
proof (induction n)
  case 0
  then show ?case using wrote_refl [OF q] by simp
next
  case (Suc n)
  let ?ws = "map (\<lambda>i. (T i, view s0 (F i))) [0..<n]"
  obtain t where t: "foldm f [0..<n] s0 = Inr t" "wrote c s0 t ?ws"
    using Suc.IH Suc.prems by auto
  have Tn: "fst ` set ?ws = T ` {..<n}" by force
  have "F n \<noteq> T j" if "j < n" for j using Suc.prems(2) [of n j] that by simp
  then have "F n \<notin> fst ` set ?ws" unfolding Tn by blast
  then have v: "view t (F n) = view s0 (F n)"
    by (simp add: wroteD(3) [OF t(2)] put_blocks_other)
  have "is_dirty t z \<longleftrightarrow> is_dirty s0 z \<and> z \<notin> T ` {..<n}" for z
    using wroteD(6) [OF t(2), of z] Tn by simp
  then obtain u where u: "f n t = Inr u" "wrote c t u [(T n, view s0 (F n))]"
    using Suc.prems(1) [of n t] wroteD(1,2) [OF t(2)] v by auto
  then show ?case using wrote_trans [OF t(2) u(2)] t(1) by (simp add: foldm_append)
qed

subsection \<open>The header block\<close>

lemma length_put_list [simp]: "length (put_list bl hb) = length hb"
proof -
  have "length (fold (\<lambda>i hb. put32 (4 + 4 * i) (bl ! i) hb) js hb) = length hb" for js
    by (induction js arbitrary: hb) simp_all
  then show ?thesis by (simp add: put_list_def)
qed

lemma put_list_le32:
  assumes "4 + 4 * n \<le> length hb"
  shows "le32 (fold (\<lambda>i hb. put32 (4 + 4 * i) (bl ! i) hb) [0..<n] hb) 0 = le32 hb 0"
    and "i < n \<Longrightarrow> le32 (fold (\<lambda>i hb. put32 (4 + 4 * i) (bl ! i) hb) [0..<n] hb) (4 + 4 * i) = bl ! i"
proof -
  have len: "length (fold (\<lambda>i hb. put32 (4 + 4 * i) (bl ! i) hb) js hb) = length hb" for js
    by (induction js arbitrary: hb) simp_all
  show "le32 (fold (\<lambda>i hb. put32 (4 + 4 * i) (bl ! i) hb) [0..<n] hb) 0 = le32 hb 0"
    using assms by (induction n) (simp_all add: le_put_other)
  show "i < n \<Longrightarrow> le32 (fold (\<lambda>i hb. put32 (4 + 4 * i) (bl ! i) hb) [0..<n] hb) (4 + 4 * i) = bl ! i"
    using assms
  proof (induction n)
    case (Suc n)
    then show ?case using len [of "[0..<n]"] by (cases "i = n") (simp_all add: le_put_other)
  qed simp
qed

lemma get_list_nth:
  assumes "n \<le> length bl" and "j < length bl"
  shows "get_list lh n bl ! j = (if j < n then le32 lh (4 + 4 * j) else bl ! j)"
proof -
  have len: "length (fold (\<lambda>i bl. bl[i := le32 lh (4 + 4 * i)]) js bl) = length bl" for js
    by (induction js arbitrary: bl) simp_all
  show ?thesis
    using assms unfolding get_list_def
  proof (induction n)
    case (Suc n)
    then show ?case using len [of "[0..<n]"] by (auto simp: nth_list_update less_Suc_eq)
  qed simp
qed

lemma length_get_list [simp]: "length (get_list lh n bl) = length bl"
proof -
  have "length (fold (\<lambda>i bl. bl[i := le32 lh (4 + 4 * i)]) js bl) = length bl" for js
    by (induction js arbitrary: bl) simp_all
  then show ?thesis by (simp add: get_list_def)
qed

definition head_block :: "u32 list \<Rightarrow> block \<Rightarrow> block" where
  "head_block bl hb = put_list bl (put32 0 (of_nat (length bl)) hb)"

lemma length_head_block [simp]: "length (head_block bl hb) = length hb"
  by (simp add: head_block_def)

lemma head_block_fields:
  assumes "length hb = BSIZE" and "length bl \<le> LOGSIZE"
  shows "le32 (head_block bl hb) 0 = of_nat (length bl)"
    and "i < length bl \<Longrightarrow> le32 (head_block bl hb) (4 + 4 * i) = bl ! i"
  using assms put_list_le32 [where n = "length bl" and hb = "put32 0 (of_nat (length bl)) hb" and bl = bl]
  by (simp_all add: head_block_def put_list_def)

text \<open>The blocks recorded in \<open>log.lh\<close>.\<close>

definition logged :: "'z lst_scheme \<Rightarrow> u32 list" where
  "logged s = take (nat (lhn (lg s))) (lblock (lg s))"

lemma write_head_ok:
  assumes q: "quiet c s" and dev: "ldev (lg s) = 1" and x: "lstart (lg s) < disksize s"
    and n: "0 \<le> lhn (lg s)" "lhn (lg s) \<le> int LOGSIZE" "length (lblock (lg s)) = LOGSIZE"
    and d: "\<And>z. is_dirty s z \<Longrightarrow> z \<in> set bl" and bl: "length bl < NBUF"
  shows "\<exists>s'. write_head s = Inr s' \<and>
     wrote c s s' [(lstart (lg s), head_block (logged s) (view s (lstart (lg s))))]"
proof -
  let ?x = "lstart (lg s)"
  have h: "only_held c s {}" using q by (simp add: quiet_only)
  have ev: "evictable s" by (rule evictable_room [OF h _ d]) (use bl in simp_all)
  show ?thesis
  proof (rule bread_held [OF h x])
    fix b t
    assume t: "bread 1 ?x s = Inr (b, t)" "only_held c t {b}" "holds t ?x b" "b < NBUF"
      "brefcnt (bufs s ! b) = 0" "bdata (bufs t ! b) = view s ?x" "bdirty (bufs t ! b) = is_dirty s ?x"
      "view t = view s" "is_dirty t = is_dirty s" "disk t = disk s" "dtrace t = dtrace s"
      "bframe c s t" "\<And>j. j \<noteq> b \<Longrightarrow> bufs t ! j = bufs s ! j"
    let ?v = "head_block (logged s) (view s ?x)"
    show ?thesis
    proof (rule store_held [OF t(2,3), of ?v])
      fix u
      assume u: "bwrite b (put_data b ?v t) = Inr u" "only_held c u {b}"
        "view u = (view t)(?x := ?v)" "\<And>z. is_dirty u z \<longleftrightarrow> is_dirty t z \<and> z \<noteq> ?x"
        "disk u = (disk t)(?x := ?v)" "dtrace u = dtrace t @ [(?x, ?v)]"
        "bframe c t u" "\<And>z j. holds u z j = holds t z j"
        "bdata (bufs u ! b) = ?v" "\<And>j. j \<noteq> b \<Longrightarrow> bufs u ! j = bufs t ! j"
      have hb: "holds u ?x b" using u(8) t(3) by simp
      have cl: "bdirty (bufs u ! b) \<or> bdata (bufs u ! b) = disk u ?x" by (simp add: u(9,5))
      show ?thesis
      proof (rule brelse_held [OF u(2) hb cl])
        fix w
        assume w: "brelse b u = Inr w" "only_held c w ({b} - {b})" "view w = view u"
          "is_dirty w = is_dirty u" "disk w = disk u" "dtrace w = dtrace u" "bframe c u w"
        have "length (logged s) = nat (lhn (lg s))" using n by (simp add: logged_def)
        then have "(word_of_int (lhn (lg s)) :: u32) = of_nat (length (logged s))" using n(1) by simp
        then have "write_head s = Inr w"
          using u(1) w(1) by (simp add: write_head_def dev t(1,6) bframe_lg [OF t(12)] Let_def
              head_block_def logged_def)
        moreover have "quiet c w" using w(2) by (simp add: quiet_only)
        ultimately show ?thesis
          using w(3-6) u(3-6) t(8-11) bframe_trans [OF t(12) bframe_trans [OF u(7) w(7)]]
          by (auto simp: wrote_def)
      qed
    qed
  qed (use ev in auto)
qed

end
