(* ===== verification/LogCrash.thy ===== *)
theory LogCrash
  imports LogInv
begin

text \<open>
  What a commit writes, what recovery makes of the disk, and that a crash at any moment of a
  commit leaves either none or all of the transaction's blocks.
\<close>

definition in_log :: "u32 \<Rightarrow> u32 \<Rightarrow> bool" where
  "in_log st x \<longleftrightarrow> unat st \<le> unat x \<and> unat x < unat st + LOGSIZE"

text \<open>
  The invariant of the log between operations: the log lies on the disk, the recorded blocks
  are different home blocks, they are the dirty blocks, and the header on the disk is empty.
\<close>

definition log_wf :: "'z lst_scheme \<Rightarrow> bool" where
  "log_wf s \<longleftrightarrow> ldev (lg s) = 1 \<and> unat (lstart (lg s)) + LOGSIZE \<le> unat (disksize s) \<and>
     0 \<le> lhn (lg s) \<and> lhn (lg s) < int NBUF \<and> length (lblock (lg s)) = LOGSIZE \<and>
     distinct (logged s) \<and>
     (\<forall>x\<in>set (logged s). x < disksize s \<and> \<not> in_log (lstart (lg s)) x) \<and>
     (\<forall>z. is_dirty s z \<longleftrightarrow> z \<in> set (logged s)) \<and>
     length (view s (lstart (lg s))) = BSIZE \<and> le32 (disk s (lstart (lg s))) 0 = 0"

definition linv :: "nat \<Rightarrow> 'z lst_scheme \<Rightarrow> bool" where
  "linv c s \<longleftrightarrow> quiet c s \<and> log_wf s"

lemma linvD:
  assumes "linv c s"
  shows "quiet c s" "ldev (lg s) = 1" "unat (lstart (lg s)) + 30 \<le> unat (disksize s)"
    "0 \<le> lhn (lg s)" "lhn (lg s) < 30" "length (lblock (lg s)) = 30" "distinct (logged s)"
    "length (logged s) = nat (lhn (lg s))"
    "is_dirty s z \<longleftrightarrow> z \<in> set (logged s)"
    "length (view s (lstart (lg s))) = 512" "le32 (disk s (lstart (lg s))) 0 = 0"
  using assms by (auto simp: linv_def log_wf_def logged_def min_def)

lemma linv_logged:
  assumes "linv c s" and "i < length (logged s)"
  shows "lblock (lg s) ! i = logged s ! i" "logged s ! i < disksize s"
    "\<not> in_log (lstart (lg s)) (logged s ! i)" "i < 29" "is_dirty s (logged s ! i)"
proof -
  note D = linvD [OF assms(1)]
  have m: "logged s ! i \<in> set (logged s)" using assms(2) by simp
  show "lblock (lg s) ! i = logged s ! i" using assms(2) by (simp add: logged_def)
  show "i < 29" using assms(2) D(5,8) by simp
  show "logged s ! i < disksize s" "\<not> in_log (lstart (lg s)) (logged s ! i)"
    using assms(1) m unfolding linv_def log_wf_def by blast+
  show "is_dirty s (logged s ! i)" using D(9) m by blast
qed

text \<open>Log block \<open>i\<close>.\<close>

lemma unat_logblock:
  assumes "unat st + 30 \<le> unat (ds :: u32)" and "i < 29"
  shows "unat (st + of_nat i + 1 :: u32) = unat st + i + 1"
proof -
  have "unat st + i + 1 < 4294967296" using assms unat_u32_less [of ds] by simp
  then have "unat (of_nat (unat st + i + 1) :: u32) = unat st + i + 1"
    by (rule unat_of_nat_u32)
  moreover have "(of_nat (unat st + i + 1) :: u32) = st + of_nat i + 1"
    by (simp only: of_nat_add of_nat_1) simp
  ultimately show ?thesis by (simp only:)
qed

lemma logblock:
  assumes "unat st + 30 \<le> unat (ds :: u32)" and "i < 29"
  shows "st + of_nat i + 1 < ds" "in_log st (st + of_nat i + 1)" "st + of_nat i + 1 \<noteq> st"
    "st < ds" "in_log st st"
    and "j < 29 \<Longrightarrow> st + of_nat i + 1 = st + of_nat j + 1 \<Longrightarrow> i = j"
proof -
  note u = unat_logblock [OF assms]
  show "st + of_nat i + 1 < ds" "in_log st (st + of_nat i + 1)" "st < ds" "in_log st st"
    using assms u unfolding in_log_def word_less_nat_alt LOGSIZE_def MAXOPBLOCKS_def by linarith+
  show "st + of_nat i + 1 \<noteq> st"
  proof
    assume "st + of_nat i + 1 = st"
    then have "unat (st + of_nat i + 1) = unat st" by (rule arg_cong)
    then show False using u by linarith
  qed
  show "i = j" if "j < 29" "st + of_nat i + 1 = st + of_nat j + 1"
    using u unat_logblock [OF assms(1) that(1)] unfolding that(2) by linarith
qed

lemma quiet_lg [simp]: "quiet c (s\<lparr>lg := l\<rparr>) = quiet c s"
  by (simp add: only_held_unfold)

lemma view_lg [simp]: "view (s\<lparr>lg := l\<rparr>) = view s"
  by (auto simp: view_def cached_def fun_eq_iff split: option.split)

lemma is_dirty_lg [simp]: "is_dirty (s\<lparr>lg := l\<rparr>) = is_dirty s"
  by (simp add: is_dirty_def cached_def fun_eq_iff)

subsection \<open>The writes of a commit\<close>

definition log_writes :: "'z lst_scheme \<Rightarrow> (u32 \<times> block) list" where
  "log_writes s = map (\<lambda>i. (lstart (lg s) + of_nat i + 1, view s (logged s ! i))) [0..<length (logged s)]"

definition home_writes :: "'z lst_scheme \<Rightarrow> (u32 \<times> block) list" where
  "home_writes s = map (\<lambda>i. (logged s ! i, view s (logged s ! i))) [0..<length (logged s)]"

definition new_head :: "'z lst_scheme \<Rightarrow> block" where
  "new_head s = head_block (logged s) (view s (lstart (lg s)))"

lemma write_log_ok:
  assumes inv: "linv c s"
  shows "\<exists>s'. write_log s = Inr s' \<and> wrote c s s' (log_writes s)"
proof -
  note D = linvD [OF inv] and G = linv_logged [OF inv]
  let ?L = "\<lambda>i. lstart (lg s) + of_nat i + 1 :: u32"
  have "\<exists>s'. foldm write_log_step [0..<length (logged s)] s = Inr s' \<and>
     wrote c s s' (map (\<lambda>i. (?L i, view s (logged s ! i))) [0..<length (logged s)])"
  proof (rule copy_loop [OF D(1)])
    fix i t assume i: "i < length (logged s)" and t: "quiet c t" "bframe c s t"
      and d: "\<And>z. is_dirty t z \<longleftrightarrow> is_dirty s z \<and> z \<notin> ?L ` {..<i}"
    note lgt = bframe_lg [OF t(2)]
    have no: "\<not> in_log (lstart (lg s)) z \<Longrightarrow> z \<noteq> ?L j" if "j < 29" for z j
      using logblock(2) [OF D(3) that] by auto
    show "\<exists>s'. write_log_step i t = Inr s' \<and> wrote c t s' [(?L i, view t (logged s ! i))]"
    proof (rule write_log_step_ok [OF t(1), where bl = "logged s"])
      show "ldev (lg t) = 1" "lblock (lg t) ! i = logged s ! i" "lstart (lg t) + of_nat i + 1 = ?L i"
        using D(2) G(1) [OF i] by (simp_all add: lgt)
      show "?L i < disksize t" "logged s ! i < disksize t"
        using logblock(1) [OF D(3) G(4) [OF i]] G(2) [OF i] bframe_simps(1) [OF t(2)] by simp_all
      show "?L i \<noteq> logged s ! i" using no [OF G(4) [OF i] G(3) [OF i]] by simp
      show "is_dirty t z \<Longrightarrow> z \<in> set (logged s)" for z using d D(9) by simp
      show "length (logged s) < NBUF" using D(5,8) by simp
      have "logged s ! i \<noteq> ?L j" if "j < i" for j
        using no [of j "logged s ! i"] G(3,4) [OF i] that by simp
      then have "is_dirty t (logged s ! i)" using d G(5) [OF i] by auto
      then show "is_dirty t (logged s ! i) \<or> length (logged s) + 1 < NBUF" ..
    qed
  next
    fix i j assume "i < length (logged s)" "j < length (logged s)"
    then show "logged s ! i \<noteq> ?L j" using G(3) [of i] logblock(2) [OF D(3) G(4) [of j]] by auto
  qed
  then show ?thesis by (simp add: write_log_def log_writes_def D(8))
qed

text \<open>
  \<open>install_trans\<close> on any state whose dirty blocks are recorded ones that are still to be
  written, or whose cache is clean.
\<close>

lemma install_trans_ok:
  assumes q: "quiet c s" and dev: "ldev (lg s) = 1" and st: "unat (lstart (lg s)) + 30 \<le> unat (disksize s)"
    and n: "length (logged s) = nat (lhn (lg s))" "length (logged s) \<le> 29"
    and bl: "distinct (logged s)" "\<And>x. x \<in> set (logged s) \<Longrightarrow> x < disksize s \<and> \<not> in_log (lstart (lg s)) x"
    and room: "(\<forall>z. is_dirty s z \<longleftrightarrow> z \<in> set (logged s)) \<and> length (logged s) < NBUF \<or> (\<forall>z. \<not> is_dirty s z)"
  shows "\<exists>s'. install_trans s = Inr s' \<and>
     wrote c s s' (map (\<lambda>i. (logged s ! i, view s (lstart (lg s) + of_nat i + 1))) [0..<length (logged s)])"
proof -
  let ?L = "\<lambda>i. lstart (lg s) + of_nat i + 1 :: u32" and ?H = "\<lambda>i. logged s ! i"
  have "\<exists>s'. foldm install_step [0..<length (logged s)] s = Inr s' \<and>
     wrote c s s' (map (\<lambda>i. (?H i, view s (?L i))) [0..<length (logged s)])"
  proof (rule copy_loop [OF q])
    fix i t assume i: "i < length (logged s)" and t: "quiet c t" "bframe c s t"
      and d: "\<And>z. is_dirty t z \<longleftrightarrow> is_dirty s z \<and> z \<notin> ?H ` {..<i}"
    have i30: "i < 29" using i n(2) by simp
    have Hi: "?H i \<in> set (logged s)" using i by simp
    note lgt = bframe_lg [OF t(2)] and ds = bframe_simps(1) [OF t(2)]
    define dl where "dl = (if \<exists>z. is_dirty s z then logged s else [])"
    show "\<exists>s'. install_step i t = Inr s' \<and> wrote c t s' [(?H i, view t (?L i))]"
    proof (rule install_step_ok [OF t(1), where bl = dl])
      show "ldev (lg t) = 1" "lblock (lg t) ! i = ?H i" "lstart (lg t) + of_nat i + 1 = ?L i"
        using dev i by (simp_all add: lgt) (simp add: logged_def)
      show "?L i < disksize t" "?H i < disksize t"
        using logblock(1) [OF st i30] bl(2) [OF Hi] ds by simp_all
      show "?L i \<noteq> ?H i" using logblock(2) [OF st i30] bl(2) [OF Hi] by auto
      show "is_dirty t z \<Longrightarrow> z \<in> set dl" for z 
      proof -
        assume "is_dirty t z"
        then have z: "is_dirty s z" using d by blast
        then have "z \<in> set (logged s)" using room by blast
        then show ?thesis using z by (auto simp: dl_def)
      qed
      show "length dl < NBUF" using room unfolding dl_def by (cases "\<exists>z. is_dirty s z") auto
      have "?H i \<noteq> ?H j" if "j < i" for j
        using bl(1) i that by (simp add: nth_eq_iff_index_eq)
      then have new: "?H i \<notin> ?H ` {..<i}" by (meson imageE lessThan_iff)
      show "is_dirty t (?H i) \<or> length dl + 1 < NBUF"
      proof (cases "\<exists>z. is_dirty s z")
        case True
        then have "is_dirty s (?H i)" using room Hi by blast
        then show ?thesis using d new by blast
      qed (simp add: dl_def)
    qed
  next
    fix i j assume "i < length (logged s)" "j < length (logged s)"
    then show "?L i \<noteq> ?H j" using bl(2) [of "?H j"] logblock(2) [OF st, of i] n(2) by auto
  qed
  then show ?thesis by (simp add: install_trans_def n(1))
qed

lemma bframe_set_lg:
  assumes "bframe c s s'"
  shows "bframe c (s\<lparr>lg := l\<rparr>) (s'\<lparr>lg := l\<rparr>)"
proof -
  have k: "kok c (s'\<lparr>lg := l\<rparr>)" using assms by (simp add: bframe_def kok_def pt_ok_def pt_shape_def pt_idle_def)
  have "s'\<lparr>lg := l\<rparr> = s\<lparr>mcpu := mcpu s', procs := procs s', queue := queue s',
      queue_tail := queue_tail s', bufs := bufs s', disk := disk s', dtrace := dtrace s', lg := l\<rparr>"
    by (rule arg_cong [OF bframe_eq [OF assms], of "\<lambda>t. t\<lparr>lg := l\<rparr>"])
  also have "\<dots> = s\<lparr>lg := l, mcpu := mcpu s', procs := procs s', queue := queue s',
      queue_tail := queue_tail s', bufs := bufs s', disk := disk s', dtrace := dtrace s'\<rparr>" by simp
  finally show ?thesis using assms k by (simp add: bframe_def)
qed

lemma wrote_set_lg: "wrote c s s' ws \<Longrightarrow> wrote c (s\<lparr>lg := l\<rparr>) (s'\<lparr>lg := l\<rparr>) ws"
  using bframe_set_lg [of c s s' l] by (simp add: wrote_def)

lemma wrote_lg: "wrote c s s' ws \<Longrightarrow> lg s' = lg s"
  using bframe_lg by (auto simp: wrote_def)

lemma wrote_disksize: "wrote c s s' ws \<Longrightarrow> disksize s' = disksize s"
  using bframe_simps(1) by (auto simp: wrote_def)

definition commit_writes :: "'z lst_scheme \<Rightarrow> (u32 \<times> block) list" where
  "commit_writes s = (if logged s = [] then []
     else log_writes s @ [(lstart (lg s), new_head s)] @ home_writes s @
       [(lstart (lg s), put32 0 0 (new_head s))])"

definition committed :: "'z lst_scheme \<Rightarrow> 'z lst_scheme" where
  "committed s = s\<lparr>lg := (lg s)\<lparr>lhn := 0\<rparr>\<rparr>"

lemma put_blocks_home:
  assumes inv: "linv c s" and "i < length (logged s)"
  shows "put_blocks d (log_writes s) (lstart (lg s) + of_nat i + 1) = view s (logged s ! i)"
  unfolding log_writes_def
proof (rule put_blocks_nth)
  fix a b assume "a < length (logged s)" "b < length (logged s)"
    "lstart (lg s) + of_nat a + 1 = lstart (lg s) + of_nat b + 1"
  then show "a = b"
    using logblock(6) [OF linvD(3) [OF inv] linv_logged(4) [OF inv, of a] linv_logged(4) [OF inv, of b]] by blast
qed (rule assms)

lemma log_writes_dom:
  assumes inv: "linv c s" and "(x, v) \<in> set (log_writes s)"
  shows "in_log (lstart (lg s)) x" "x \<noteq> lstart (lg s)"
proof -
  obtain i where i: "i < length (logged s)" "x = lstart (lg s) + of_nat i + 1"
    using assms(2) by (auto simp: log_writes_def)
  show "in_log (lstart (lg s)) x" "x \<noteq> lstart (lg s)"
    unfolding i(2) by (rule logblock(2,3) [OF linvD(3) [OF inv] linv_logged(4) [OF inv i(1)]])+
qed

lemma log_writes_fst:
  assumes inv: "linv c s" and x: "\<not> in_log (lstart (lg s)) x \<or> x = lstart (lg s)"
  shows "x \<notin> fst ` set (log_writes s)"
proof
  assume "x \<in> fst ` set (log_writes s)"
  then obtain v where "(x, v) \<in> set (log_writes s)" by auto
  then show False using log_writes_dom [OF inv] x by blast
qed

lemma set_home_writes: "fst ` set (home_writes s) = set (logged s)"
proof -
  have "map fst (home_writes s) = logged s" by (simp add: home_writes_def comp_def map_nth)
  then show ?thesis by (metis set_map)
qed

lemma commit_ok:
  assumes inv: "linv c s"
  shows "\<exists>s'. commit s = Inr s' \<and> wrote c (committed s) s' (commit_writes s)"
proof (cases "logged s = []")
  case True
  then have "lhn (lg s) = 0" using linvD(4,8) [OF inv] by simp
  moreover from this have "committed s = s" by (simp add: committed_def)
  ultimately show ?thesis
    using True wrote_refl [OF linvD(1) [OF inv]] by (simp add: commit_def commit_writes_def)
next
  case False
  note D = linvD [OF inv]
  let ?st = "lstart (lg s)"
  have pos: "lhn (lg s) > 0" using False D(8) by (metis length_greater_0_conv zero_less_nat_eq)
  obtain a where a: "write_log s = Inr a" "wrote c s a (log_writes s)"
    using write_log_ok [OF inv] by blast
  note lga = wrote_lg [OF a(2)] and dsa = wrote_disksize [OF a(2)]
  have bla: "logged a = logged s" by (simp add: logged_def lga)
  have da: "is_dirty a z \<longleftrightarrow> z \<in> set (logged s)" for z
    using wroteD(6) [OF a(2), of z] D(9) log_writes_fst [OF inv, of z] inv by (auto simp: linv_def log_wf_def)
  have st: "?st < disksize s" using logblock(4) [OF D(3), of 0] by simp
  have va: "view a ?st = view s ?st"
    using wroteD(3) [OF a(2)] log_writes_fst [OF inv, of ?st] by (simp add: put_blocks_other)
  obtain b where b: "write_head a = Inr b" "wrote c a b [(?st, new_head s)]"
  proof -
    have "length (logged s) < 30" using D(5,8) by linarith
    then show ?thesis
      using write_head_ok [OF wroteD(1) [OF a(2)], of "logged s"] D(2-6) st da that
      by (auto simp: lga dsa bla va new_head_def)
  qed
  note lgb = wrote_lg [OF b(2)] and dsb = wrote_disksize [OF b(2)]
  have blb: "logged b = logged s" by (simp add: logged_def lgb lga)
  have nst: "?st \<notin> set (logged s)" using inv logblock(5) [OF D(3), of 0] by (auto simp: linv_def log_wf_def)
  have db: "is_dirty b z \<longleftrightarrow> z \<in> set (logged s)" for z
    using wroteD(6) [OF b(2), of z] da nst by auto
  have vb: "view b (?st + of_nat i + 1) = view s (logged s ! i)" if "i < length (logged s)" for i
    using wroteD(3) [OF b(2)] wroteD(3) [OF a(2)] put_blocks_home [OF inv that]
      logblock(3) [OF D(3) linv_logged(4) [OF inv that]] by simp
  have hw: "map (\<lambda>i. (logged b ! i, view b (lstart (lg b) + of_nat i + 1))) [0..<length (logged b)] = home_writes s"
    using vb by (simp add: home_writes_def blb lgb lga)
  obtain e where e: "install_trans b = Inr e" "wrote c b e (home_writes s)"
  proof -
    have "\<exists>e. install_trans b = Inr e \<and> wrote c b e
        (map (\<lambda>i. (logged b ! i, view b (lstart (lg b) + of_nat i + 1))) [0..<length (logged b)])"
      by (rule install_trans_ok [OF wroteD(1) [OF b(2)]])
        (use inv D db in \<open>auto simp: lgb lga dsb dsa blb linv_def log_wf_def\<close>)
    then show ?thesis using that by (auto simp: hw)
  qed
  let ?e = "setlog (\<lambda>l. l\<lparr>lhn := 0\<rparr>) e"
  have lge: "lg e = lg s" using wrote_lg [OF e(2)] lgb lga by simp
  have e': "?e = e\<lparr>lg := (lg s)\<lparr>lhn := 0\<rparr>\<rparr>" by (simp add: setlog_def lge)
  have "wrote c s e (log_writes s @ [(?st, new_head s)] @ home_writes s)"
    using wrote_trans [OF a(2) wrote_trans [OF b(2) e(2)]] .
  then have we: "wrote c (committed s) ?e (log_writes s @ [(?st, new_head s)] @ home_writes s)"
    unfolding committed_def e' by (rule wrote_set_lg)
  have de: "\<not> is_dirty ?e z" for z
    using wroteD(6) [OF e(2), of z] db set_home_writes [of s] by (simp add: e')
  have ve: "view ?e ?st = new_head s"
    using wroteD(3) [OF e(2)] wroteD(3) [OF b(2)] nst set_home_writes [of s]
    by (simp add: e' put_blocks_other)
  obtain w where w: "write_head ?e = Inr w" "wrote c ?e w [(?st, put32 0 0 (new_head s))]"
  proof -
    have "\<exists>w. write_head ?e = Inr w \<and> wrote c ?e w
        [(lstart (lg ?e), head_block (logged ?e) (view ?e (lstart (lg ?e))))]"
      by (rule write_head_ok [where bl = "[]"])
        (use wroteD(1) [OF we] D de st wrote_disksize [OF e(2)] dsb dsa in \<open>auto simp: e'\<close>)
    moreover have "head_block (logged ?e) (view ?e (lstart (lg ?e))) = put32 0 0 (new_head s)"
      using ve by (simp add: e' head_block_def logged_def put_list_def)
    ultimately show ?thesis using that by (auto simp: e')
  qed
  show ?thesis
    using wrote_trans [OF we w(2)] pos a(1) b(1) e(1) w(1) False
    by (auto simp: commit_def commit_writes_def)
qed

end
