(* ===== verification/LogRecover.thy ===== *)
theory LogRecover
  imports LogCrash
begin

text \<open>
  Recovery as a function from disks to disks, which \<open>recover_from_log\<close> and \<open>initlog\<close>
  compute, and its effect on the disk that a crash in the middle of a commit leaves.
\<close>

definition head_list :: "block \<Rightarrow> u32 list" where
  "head_list hb = map (\<lambda>i. le32 hb (4 + 4 * i)) [0..<nat (sint (le32 hb 0))]"

definition head_ok :: "u32 \<Rightarrow> u32 \<Rightarrow> block \<Rightarrow> bool" where
  "head_ok st ds hb \<longleftrightarrow> length (head_list hb) < LOGSIZE \<and> distinct (head_list hb) \<and>
     (\<forall>x\<in>set (head_list hb). x < ds \<and> \<not> in_log st x)"

definition recover_writes :: "u32 \<Rightarrow> (u32 \<Rightarrow> block) \<Rightarrow> (u32 \<times> block) list" where
  "recover_writes st d =
     map (\<lambda>i. (head_list (d st) ! i, d (st + of_nat i + 1))) [0..<length (head_list (d st))]"

definition recover_disk :: "u32 \<Rightarrow> (u32 \<Rightarrow> block) \<Rightarrow> u32 \<Rightarrow> block" where
  "recover_disk st d = (put_blocks d (recover_writes st d))(st := put32 0 0 (d st))"

lemma fst_recover_writes: "fst ` set (recover_writes st d) = set (head_list (d st))"
proof -
  have "map fst (recover_writes st d) = head_list (d st)" by (simp add: recover_writes_def comp_def map_nth)
  then show ?thesis by (metis set_map)
qed

text \<open>A state in which the cache has nothing to write.\<close>

definition cold :: "nat \<Rightarrow> 'z lst_scheme \<Rightarrow> bool" where
  "cold c s \<longleftrightarrow> quiet c s \<and> (\<forall>z. \<not> is_dirty s z) \<and> length (lblock (lg s)) = LOGSIZE"

lemma coldD:
  assumes "cold c s"
  shows "quiet c s" "only_held c s {}" "\<not> is_dirty s z" "length (lblock (lg s)) = 30" "view s = disk s" "evictable s"
proof -
  show q: "quiet c s" "\<not> is_dirty s z" "length (lblock (lg s)) = 30" for z using assms by (simp_all add: cold_def)
  show h: "only_held c s {}" using q(1) by (simp add: quiet_only)
  show "view s = disk s" using view_clean [OF h] q(2) by auto
  show "evictable s" by (rule evictable_room [OF h, of "[]"]) (use q(2) in simp_all)
qed

lemma cold_lg: "cold c s \<Longrightarrow> length (lblock l) = 30 \<Longrightarrow> cold c (s\<lparr>lg := l\<rparr>)"
  by (simp add: cold_def)

lemma only_held_lg [simp]: "only_held c (s\<lparr>lg := l\<rparr>) H = only_held c s H"
  by (simp add: only_held_unfold)

lemma holds_lg [simp]: "holds (s\<lparr>lg := l\<rparr>) x i = holds s x i"
  by (simp add: holds_def cached_def)

lemma wrote_cold: "cold c s \<Longrightarrow> wrote c s s' ws \<Longrightarrow> cold c s'"
  using wrote_lg [of c s s' ws] by (simp add: cold_def wrote_def)

text \<open>Reading a block and releasing it, with a change of the log's record in between.\<close>

lemma read_release:
  assumes q: "cold c s" and x: "x < disksize s"
  obtains b t where "bread 1 x s = Inr (b, t)" and "bdata (bufs t ! b) = disk s x" and "lg t = lg s"
    and "\<And>l. \<exists>s'. brelse b (t\<lparr>lg := l\<rparr>) = Inr s' \<and> wrote c (s\<lparr>lg := l\<rparr>) s' []"
proof (rule bread_held [OF coldD(2) [OF q] x])
  fix b t
  assume t: "bread 1 x s = Inr (b, t)" "only_held c t {b}" "holds t x b" "b < NBUF"
    "brefcnt (bufs s ! b) = 0" "bdata (bufs t ! b) = view s x" "bdirty (bufs t ! b) = is_dirty s x"
    "view t = view s" "is_dirty t = is_dirty s" "disk t = disk s" "dtrace t = dtrace s"
    "bframe c s t" "\<And>j. j \<noteq> b \<Longrightarrow> bufs t ! j = bufs s ! j"
  have dx: "bdata (bufs t ! b) = disk s x" using t(6) coldD(5) [OF q] by simp
  have "\<exists>s'. brelse b (t\<lparr>lg := l\<rparr>) = Inr s' \<and> wrote c (s\<lparr>lg := l\<rparr>) s' []" for l
  proof -
    let ?t = "t\<lparr>lg := l\<rparr>"
    have h: "only_held c ?t {b}" "holds ?t x b" using t(2,3) by simp_all
    have cl: "bdirty (bufs ?t ! b) \<or> bdata (bufs ?t ! b) = disk ?t x" using dx t(10) by simp
    show ?thesis
    proof (rule brelse_held [OF h cl])
      fix w
      assume w: "brelse b ?t = Inr w" "only_held c w ({b} - {b})" "view w = view ?t"
        "is_dirty w = is_dirty ?t" "disk w = disk ?t" "dtrace w = dtrace ?t" "bframe c ?t w"
      have "quiet c w" using w(2) by (simp add: quiet_only)
      then have "wrote c (s\<lparr>lg := l\<rparr>) w []"
        using w(3-6) t(8-11) bframe_trans [OF bframe_set_lg [OF t(12)] w(7)] by (simp add: wrote_def)
      then show ?thesis using w(1) by blast
    qed
  qed
  then show ?thesis by (rule that [OF t(1) dx bframe_lg [OF t(12)]])
qed (use coldD(6) [OF q] in auto)

lemma read_head_ok:
  assumes q: "cold c s" and dev: "ldev (lg s) = 1" and st: "lstart (lg s) < disksize s"
    and ok: "length (head_list (disk s (lstart (lg s)))) \<le> 30"
  shows "\<exists>s'. read_head s = Inr s' \<and> wrote c (s\<lparr>lg := (lg s)
     \<lparr>lhn := sint (le32 (disk s (lstart (lg s))) 0),
      lblock := get_list (disk s (lstart (lg s))) (nat (sint (le32 (disk s (lstart (lg s))) 0))) (lblock (lg s))\<rparr>\<rparr>) s' []"
proof (rule read_release [OF q st])
  let ?hb = "disk s (lstart (lg s))"
  let ?l = "(lg s)\<lparr>lhn := sint (le32 ?hb 0), lblock := get_list ?hb (nat (sint (le32 ?hb 0))) (lblock (lg s))\<rparr>"
  fix b t
  assume t: "bread 1 (lstart (lg s)) s = Inr (b, t)" "bdata (bufs t ! b) = ?hb" "lg t = lg s"
    "\<And>l. \<exists>s'. brelse b (t\<lparr>lg := l\<rparr>) = Inr s' \<and> wrote c (s\<lparr>lg := l\<rparr>) s' []"
  have n: "\<not> 30 < sint (le32 ?hb 0)" using ok by (simp add: head_list_def)
  have "read_head s = brelse b (t\<lparr>lg := ?l\<rparr>)"
    using n by (simp add: read_head_def dev t(1,2,3) Let_def setlog_def)
  then show ?thesis using t(4) [of ?l] by simp
qed

lemma logged_get_list:
  assumes "n \<le> int (length bl)" and "lhn (lg s) = n" and "lblock (lg s) = get_list hb (nat n) bl"
  shows "logged s = map (\<lambda>i. le32 hb (4 + 4 * i)) [0..<nat n]"
  using assms by (intro nth_equalityI) (auto simp: logged_def get_list_nth)

text \<open>\<open>recover_from_log\<close> computes \<open>recover_disk\<close>.\<close>

lemma recover_from_log_ok:
  assumes q: "cold c s" and dev: "ldev (lg s) = 1"
    and st: "unat (lstart (lg s)) + 30 \<le> unat (disksize s)"
    and ok: "head_ok (lstart (lg s)) (disksize s) (disk s (lstart (lg s)))"
  shows "\<exists>s'. recover_from_log s = Inr s' \<and> cold c s' \<and> disk s' = recover_disk (lstart (lg s)) (disk s) \<and>
     disksize s' = disksize s \<and> lstart (lg s') = lstart (lg s) \<and> lsize (lg s') = lsize (lg s) \<and>
     ldev (lg s') = 1 \<and> lhn (lg s') = 0 \<and> outstanding (lg s') = outstanding (lg s) \<and>
     committing (lg s') = committing (lg s)"
proof -
  let ?st = "lstart (lg s)"
  let ?hb = "disk s ?st" and ?n = "sint (le32 (disk s ?st) 0)"
  define l where "l = (lg s)\<lparr>lhn := ?n, lblock := get_list ?hb (nat ?n) (lblock (lg s))\<rparr>"
  have stds: "?st < disksize s" using logblock(4) [OF st, of 0] by simp
  have n29: "length (head_list ?hb) \<le> 29" using ok by (simp add: head_ok_def)
  obtain a where a: "read_head s = Inr a" "wrote c (s\<lparr>lg := l\<rparr>) a []"
    using read_head_ok [OF q dev stds] n29 unfolding l_def by auto
  note lga = wrote_lg [OF a(2)] and dsa = wrote_disksize [OF a(2)]
  have c0: "cold c (s\<lparr>lg := l\<rparr>)" using coldD(4) [OF q] by (intro cold_lg [OF q]) (simp add: l_def)
  have ca: "cold c a" by (rule wrote_cold [OF c0 a(2)])
  have bla: "logged a = head_list ?hb"
    unfolding head_list_def
    by (rule logged_get_list [of _ "lblock (lg s)"])
      (use n29 coldD(4) [OF q] lga in \<open>simp_all add: l_def head_list_def\<close>)
  have disk_a: "disk a = disk s" using wroteD(4) [OF a(2)] by simp
  obtain b where b: "install_trans a = Inr b" "wrote c a b (recover_writes ?st (disk s))"
  proof -
    have "\<exists>b. install_trans a = Inr b \<and> wrote c a b
        (map (\<lambda>i. (logged a ! i, view a (lstart (lg a) + of_nat i + 1))) [0..<length (logged a)])"
    proof (rule install_trans_ok [OF coldD(1) [OF ca]])
      show "ldev (lg a) = 1" "unat (lstart (lg a)) + 30 \<le> unat (disksize a)" "length (logged a) \<le> 29"
        using dev st n29 by (simp_all add: lga dsa bla l_def)
      show "length (logged a) = nat (lhn (lg a))" by (simp add: bla lga l_def head_list_def)
      show "distinct (logged a)" "\<And>x. x \<in> set (logged a) \<Longrightarrow> x < disksize a \<and> \<not> in_log (lstart (lg a)) x"
        using ok by (simp_all add: bla lga dsa l_def head_ok_def)
    qed (use coldD(3) [OF ca] in blast)
    then show ?thesis
      using that by (auto simp: recover_writes_def bla coldD(5) [OF ca] disk_a lga l_def)
  qed
  let ?b = "setlog (\<lambda>l. l\<lparr>lhn := 0\<rparr>) b"
  have lgb: "lg b = l" using wrote_lg [OF b(2)] lga by simp
  have b': "?b = b\<lparr>lg := l\<lparr>lhn := 0\<rparr>\<rparr>" by (simp add: setlog_def lgb)
  have cb: "cold c ?b" unfolding b' using coldD(4) [OF q]
    by (intro cold_lg [OF wrote_cold [OF ca b(2)]]) (simp add: l_def)
  have nst: "?st \<notin> fst ` set (recover_writes ?st (disk s))"
  proof
    assume "?st \<in> fst ` set (recover_writes ?st (disk s))"
    then have "?st \<in> set (head_list ?hb)" by (simp add: fst_recover_writes)
    then show False using ok logblock(5) [OF st, of 0] by (auto simp: head_ok_def)
  qed
  have disk_b: "disk b = put_blocks (disk s) (recover_writes ?st (disk s))"
    using wroteD(4) [OF b(2)] disk_a by simp
  have st_b: "disk ?b ?st = ?hb" using put_blocks_other [OF nst] by (simp add: b' disk_b)
  have dsb: "disksize b = disksize s" using wrote_disksize [OF b(2)] dsa by simp
  have "\<exists>w. write_head ?b = Inr w \<and> wrote c ?b w
      [(lstart (lg ?b), head_block (logged ?b) (view ?b (lstart (lg ?b))))]"
    by (rule write_head_ok [OF coldD(1) [OF cb], where bl = "[]"])
      (use coldD(3) [OF cb] coldD(4) [OF q] dev stds dsb in \<open>auto simp: b' l_def\<close>)
  moreover have "lstart (lg ?b) = ?st" "logged ?b = []" by (simp_all add: b' l_def logged_def)
  ultimately obtain w where w: "write_head ?b = Inr w" "wrote c ?b w [(?st, put32 0 0 ?hb)]"
    using coldD(5) [OF cb] st_b by (auto simp: head_block_def put_list_def)
  have "recover_from_log s = Inr w" using a(1) b(1) w(1) by (simp add: recover_from_log_def)
  moreover have "disk w = recover_disk ?st (disk s)"
    using wroteD(4) [OF w(2)] by (simp add: recover_disk_def b' disk_b)
  moreover have "lg w = l\<lparr>lhn := 0\<rparr>" using wrote_lg [OF w(2)] by (simp add: b')
  moreover have "disksize w = disksize s" using wrote_disksize [OF w(2)] dsb by (simp add: b')
  ultimately show ?thesis using wrote_cold [OF cb w(2)] dev by (auto simp: l_def)
qed

subsection \<open>A crash during a commit\<close>

lemma sint_small_nat: "n \<le> 30 \<Longrightarrow> sint (of_nat n :: u32) = int n"
  by (simp add: signed_of_nat signed_take_bit_int_eq_self)

lemma head_list_new:
  assumes inv: "linv c s"
  shows "head_list (new_head s) = logged s"
proof -
  note D = linvD [OF inv]
  have n: "length (logged s) \<le> 30" using D(5,8) by linarith
  note hf = head_block_fields [where hb = "view s (lstart (lg s))" and bl = "logged s"]
  have "le32 (new_head s) 0 = of_nat (length (logged s))"
    "\<And>i. i < length (logged s) \<Longrightarrow> le32 (new_head s) (4 + 4 * i) = logged s ! i"
    using hf D(10) n by (simp_all add: new_head_def)
  then show ?thesis using sint_small_nat [OF n] by (intro nth_equalityI) (simp_all add: head_list_def)
qed

lemma le32_zero_head: "length hb = BSIZE \<Longrightarrow> head_list (put32 0 0 hb) = []"
  by (simp add: head_list_def)

text \<open>The disk after the first \<open>k\<close> writes of a commit, seen by recovery.\<close>

lemma crash_before:
  assumes inv: "linv c s" and k: "k \<le> length (logged s)"
    and d: "d = put_blocks (disk s) (take k (commit_writes s))"
  shows "head_list (d (lstart (lg s))) = []"
    and "\<not> in_log (lstart (lg s)) x \<Longrightarrow> recover_disk (lstart (lg s)) d x = disk s x"
proof -
  let ?st = "lstart (lg s)"
  have "take k (commit_writes s) = take k (log_writes s)"
    using k by (auto simp: commit_writes_def log_writes_def)
  then have d': "d x = disk s x" if "\<not> in_log ?st x \<or> x = ?st" for x
    using log_writes_fst [OF inv that] set_take_subset [of k "log_writes s"]
    by (subst d, simp, intro put_blocks_other) auto
  show hl: "head_list (d ?st) = []" using d' [of ?st] linvD(11) [OF inv] by (simp add: head_list_def)
  assume x: "\<not> in_log ?st x"
  then have "x \<noteq> ?st" using logblock(5) [OF linvD(3) [OF inv], of 0] by auto
  then show "recover_disk ?st d x = disk s x"
    using d' x hl by (simp add: recover_disk_def recover_writes_def)
qed

definition old_log :: "'z lst_scheme \<Rightarrow> u32 \<Rightarrow> block" where
  "old_log s = (put_blocks (disk s) (log_writes s))(lstart (lg s) := new_head s)"

lemma put_home_writes:
  assumes inv: "linv c s"
  shows "put_blocks e (home_writes s) x = (if x \<in> set (logged s) then view s x else e x)"
proof (cases "x \<in> set (logged s)")
  case True
  then obtain i where i: "i < length (logged s)" "x = logged s ! i" by (auto simp: in_set_conv_nth)
  have "put_blocks e (home_writes s) (logged s ! i) = view s (logged s ! i)"
    unfolding home_writes_def using linvD(7) [OF inv]
    by (intro put_blocks_nth [of "length (logged s)" "\<lambda>i. logged s ! i"] i(1)) (simp add: nth_eq_iff_index_eq)
  then show ?thesis using i True by simp
qed (use set_home_writes [of s] put_blocks_other [of x "home_writes s"] in auto)

lemma linv_homes:
  assumes inv: "linv c s"
  shows "lstart (lg s) \<notin> set (logged s)" "\<not> in_log (lstart (lg s)) x \<Longrightarrow> x \<noteq> lstart (lg s)"
    "x \<notin> set (logged s) \<Longrightarrow> view s x = disk s x"
    "\<not> in_log (lstart (lg s)) x \<Longrightarrow> old_log s x = disk s x"
proof -
  note D = linvD [OF inv]
  have h: "only_held c s {}" using D(1) by (simp add: quiet_only)
  show "x \<notin> set (logged s) \<Longrightarrow> view s x = disk s x"
    using view_clean [OF h, of x] D(9) by auto
  have st: "in_log (lstart (lg s)) (lstart (lg s))" by (rule logblock(5) [OF D(3), of 0]) simp
  then show ne: "\<not> in_log (lstart (lg s)) x \<Longrightarrow> x \<noteq> lstart (lg s)" by auto
  show "lstart (lg s) \<notin> set (logged s)" using inv st by (auto simp: linv_def log_wf_def)
  show "\<not> in_log (lstart (lg s)) x \<Longrightarrow> old_log s x = disk s x"
    using log_writes_fst [OF inv, of x] ne by (simp add: old_log_def put_blocks_other)
qed

text \<open>While the blocks are being installed, the log on the disk is complete.\<close>

lemma crash_installing:
  assumes inv: "linv c s" and d: "d = put_blocks (old_log s) (take j (home_writes s))"
  shows "head_list (d (lstart (lg s))) = logged s"
    and "\<not> in_log (lstart (lg s)) x \<Longrightarrow> recover_disk (lstart (lg s)) d x = view s x"
proof -
  let ?st = "lstart (lg s)" and ?h = "take j (home_writes s)"
  note D = linvD [OF inv] and H = linv_homes [OF inv]
  have hs: "fst ` set ?h \<subseteq> set (logged s)"
    using set_take_subset [of j "home_writes s"] set_home_writes [of s] by blast
  then have "?st \<notin> fst ` set ?h" using H(1) by blast
  then show hd: "head_list (d ?st) = logged s"
    using head_list_new [OF inv] by (simp add: d put_blocks_other) (simp add: old_log_def)
  have lb: "d (?st + of_nat i + 1) = view s (logged s ! i)" if i: "i < length (logged s)" for i
  proof -
    have il: "in_log ?st (?st + of_nat i + 1)" "?st + of_nat i + 1 \<noteq> ?st"
      by (rule logblock(2,3) [OF D(3) linv_logged(4) [OF inv i]])+
    then have "?st + of_nat i + 1 \<notin> fst ` set ?h" using hs inv by (auto simp: linv_def log_wf_def)
    then show ?thesis
      using put_blocks_home [OF inv i] il(2) by (simp add: d put_blocks_other) (simp add: old_log_def)
  qed
  have rw: "recover_writes ?st d = home_writes s"
    using lb by (simp add: recover_writes_def home_writes_def hd)
  assume x: "\<not> in_log ?st x"
  have "d x = disk s x" if "x \<notin> set (logged s)"
  proof -
    have "x \<notin> fst ` set ?h" using hs that by blast
    then show ?thesis using H(4) [OF x] by (simp add: d put_blocks_other)
  qed
  then show "recover_disk ?st d x = view s x"
    using H(2,3) [of x] x by (auto simp: recover_disk_def rw put_home_writes [OF inv])
qed

lemma crash_cleared:
  assumes inv: "linv c s"
    and d: "d = (put_blocks (old_log s) (home_writes s))(lstart (lg s) := put32 0 0 (new_head s))"
  shows "head_list (d (lstart (lg s))) = []"
    and "\<not> in_log (lstart (lg s)) x \<Longrightarrow> recover_disk (lstart (lg s)) d x = view s x"
proof -
  show hl: "head_list (d (lstart (lg s))) = []"
    using linvD(10) [OF inv] by (simp add: d le32_zero_head new_head_def)
  assume x: "\<not> in_log (lstart (lg s)) x"
  then show "recover_disk (lstart (lg s)) d x = view s x"
    using linv_homes(2-4) [OF inv, of x]
    by (simp add: recover_disk_def recover_writes_def hl) (simp add: d put_home_writes [OF inv])
qed

lemma crash_after:
  assumes inv: "linv c s" and k: "length (logged s) < k" and ne: "logged s \<noteq> []"
    and d: "d = put_blocks (disk s) (take k (commit_writes s))"
  shows "head_list (d (lstart (lg s))) \<in> {[], logged s}"
    and "\<not> in_log (lstart (lg s)) x \<Longrightarrow> recover_disk (lstart (lg s)) d x = view s x"
proof -
  let ?st = "lstart (lg s)"
  have len: "length (log_writes s) = length (logged s)" "length (home_writes s) = length (logged s)"
    by (simp_all add: log_writes_def home_writes_def)
  define j where "j = k - length (logged s) - 1"
  have tk: "d = put_blocks (old_log s) (take j (home_writes s @ [(?st, put32 0 0 (new_head s))]))"
    using k ne len by (simp add: d commit_writes_def j_def take_Cons' put_blocks_append old_log_def)
  have two: "d = put_blocks (old_log s) (take j (home_writes s)) \<or>
      d = (put_blocks (old_log s) (home_writes s))(?st := put32 0 0 (new_head s))"
    using tk len by (cases "j \<le> length (logged s)") (auto simp: put_blocks_append take_Cons')
  then show "head_list (d ?st) \<in> {[], logged s}"
    using crash_installing(1) [OF inv] crash_cleared(1) [OF inv] by auto
  from two show "\<not> in_log ?st x \<Longrightarrow> recover_disk ?st d x = view s x"
    using crash_installing(2) [OF inv] crash_cleared(2) [OF inv] by blast
qed

end
