(* ===== verification/LogTx.thy ===== *)
theory LogTx
  imports LogRecover
begin

text \<open>
  The operations inside a transaction: \<open>begin_op\<close>, \<open>log_write\<close> and \<open>end_op\<close>, and the pattern
  read, change, \<open>log_write\<close>, release by which the file system stores a block.
\<close>

definition lframe :: "nat \<Rightarrow> 'z lst_scheme \<Rightarrow> 'z lst_scheme \<Rightarrow> bool" where
  "lframe c s s' \<longleftrightarrow> bframe c (s\<lparr>lg := lg s'\<rparr>) s'"

lemma bframe_lframe: "bframe c s s' \<Longrightarrow> lframe c s s'"
  using bframe_lg [of c s s'] by (simp add: lframe_def)

lemma lframe_trans:
  assumes "lframe c s t" and "lframe c t u"
  shows "lframe c s u"
  using bframe_trans [OF bframe_set_lg [OF assms(1) [unfolded lframe_def], of "lg u"]
      assms(2) [unfolded lframe_def]]
  by (simp add: lframe_def)

lemma lframe_kok: "lframe c s s' \<Longrightarrow> kok c s'"
  by (simp add: lframe_def bframe_def)

lemma lframe_disksize: "lframe c s s' \<Longrightarrow> disksize s' = disksize s"
  using bframe_simps(1) [of c "s\<lparr>lg := lg s'\<rparr>" s'] by (simp add: lframe_def)

text \<open>Marking a held buffer dirty.\<close>

definition mark_dirty :: "nat \<Rightarrow> 'z bst_scheme \<Rightarrow> 'z bst_scheme" where
  "mark_dirty b s = s\<lparr>mcpu := settle (mcpu s), bufs := upd b (\<lambda>x. x\<lparr>bdirty := True\<rparr>) (bufs s)\<rparr>"

lemma mark_dirty_ok:
  assumes h: "only_held c s H" and b: "holds s x b"
  shows "only_held c (mark_dirty b s) H" and "view (mark_dirty b s) = view s"
    and "is_dirty (mark_dirty b s) z \<longleftrightarrow> is_dirty s z \<or> z = x"
    and "holds (mark_dirty b s) y j = holds s y j" and "bframe c s (mark_dirty b s)"
proof -
  obtain xs where inv: "binv c s xs" using h by (auto simp: only_held_def)
  note hb = holds_blk [OF inv b] and len = binvD(3) [OF inv]
  let ?s = "mark_dirty b s"
  have bufs: "bufs ?s ! i = (if i = b then (bufs s ! b)\<lparr>bdirty := True\<rparr> else bufs s ! i)" for i
    using hb(1) len by (auto simp: mark_dirty_def nth_upd_if)
  have cb: "cached s x b" "bvalid (bufs s ! b)" using b by (simp_all add: holds_def)
  have ok: "buf_ok (pid (procs s ! c)) (disksize s) (disk s) ((bufs s ! b)\<lparr>bdirty := True\<rparr>)"
    using binvD(5) [OF inv, of b] hb(1) b by (auto simp: buf_ok_def holds_def)
  have inv': "binv c ?s xs"
    unfolding mark_dirty_def by (rule binv_same_block [OF inv cb(1)]) (use ok hb(3,4) in simp_all)
  have ca: "cached ?s y i \<longleftrightarrow> cached s y i" for y i by (simp add: cached_def bufs)
  show "only_held c ?s H" using h inv' by (auto simp: only_held_def bufs)
  have "view ?s = (view s)(x := bdata (bufs ?s ! b))"
    by (rule view_same_block [OF inv inv' cb(1) ca]) (use cb(2) in \<open>simp_all add: bufs mark_dirty_def [of b s, THEN arg_cong, of disk]\<close>)
  then show "view ?s = view s" using view_at [OF inv cb] by (simp add: bufs fun_upd_idem)
  show "is_dirty ?s z \<longleftrightarrow> is_dirty s z \<or> z = x"
    unfolding is_dirty_def ca using cb hb(1) by (auto simp: bufs cached_def)
  show "holds ?s y j = holds s y j" by (simp add: holds_def ca bufs)
  show "bframe c s ?s"
    using kok_settle [OF binvD(1) [OF inv]] by (simp add: bframe_def mark_dirty_def)
qed

subsection \<open>log_write\<close>

definition record_block :: "u32 \<Rightarrow> logstate \<Rightarrow> logstate" where
  "record_block x l = (if x \<in> set (take (nat (lhn l)) (lblock l)) then l
     else l\<lparr>lblock := (lblock l)[nat (lhn l) := x], lhn := lhn l + 1\<rparr>)"

lemma log_write_eq:
  assumes k: "kok c s" and x: "bblockno (bufs s ! b) = x"
    and n: "0 \<le> lhn (lg s)" "lhn (lg s) < int LOGSIZE" "lhn (lg s) < lsize (lg s) - 1" "length (lblock (lg s)) = LOGSIZE"
    and o: "1 \<le> outstanding (lg s)"
  shows "log_write b s = Inr ((mark_dirty b s)\<lparr>lg := record_block x (lg s)\<rparr>)"
proof -
  let ?n = "nat (lhn (lg s))"
  define i where "i = log_index x (lg s)"
  let ?l = "(lg s)\<lparr>lblock := (lblock (lg s))[i := x]\<rparr>"
  have "log_write b s = Inr ((mark_dirty b s)\<lparr>lg := if i = ?n then ?l\<lparr>lhn := lhn ?l + 1\<rparr> else ?l\<rparr>)"
    using k n o x
    by (auto simp: log_write_def lock_simps rel_eq [OF k] Let_def setlog_def setb_def mark_dirty_def i_def)
  moreover have "(if i = ?n then ?l\<lparr>lhn := lhn ?l + 1\<rparr> else ?l) = record_block x (lg s)"
  proof (cases "first_idx (\<lambda>y. y = x) (take ?n (lblock (lg s)))")
    case None
    then have "x \<notin> set (take ?n (lblock (lg s)))" by (simp add: first_idx_None_iff) blast
    then show ?thesis using None by (simp add: i_def log_index_def record_block_def del: first_idx_None_iff)
  next
    case (Some j)
    then have j: "j < ?n" "j < length (lblock (lg s))" "lblock (lg s) ! j = x" "i = j"
      using first_idx_SomeD(1,2) [OF Some] by (auto simp: i_def log_index_def)
    then have "x \<in> set (take ?n (lblock (lg s)))" by (metis length_take min_less_iff_conj nth_mem nth_take)
    moreover have "(lblock (lg s))[j := x] = lblock (lg s)" using j(3) by (metis list_update_id)
    ultimately show ?thesis using j by (simp add: record_block_def)
  qed
  ultimately show ?thesis by simp
qed

lemma logged_record:
  assumes "0 \<le> lhn l" "lhn l < int LOGSIZE" "length (lblock l) = LOGSIZE"
  shows "logged (s\<lparr>lg := record_block x l\<rparr>) =
    (let bl = take (nat (lhn l)) (lblock l) in if x \<in> set bl then bl else bl @ [x])"
proof -
  have "nat (lhn l + 1) = Suc (nat (lhn l))" using assms(1) by simp
  then show ?thesis using assms by (auto simp: logged_def record_block_def Let_def take_Suc_conv_app_nth)
qed

lemma record_block_simps [simp]:
  "lstart (record_block x l) = lstart l" "lsize (record_block x l) = lsize l"
  "ldev (record_block x l) = ldev l" "outstanding (record_block x l) = outstanding l"
  "committing (record_block x l) = committing l" "length (lblock (record_block x l)) = length (lblock l)"
  by (simp_all add: record_block_def)

lemma log_wfD:
  assumes "log_wf s"
  shows "ldev (lg s) = 1" "unat (lstart (lg s)) + 30 \<le> unat (disksize s)" "0 \<le> lhn (lg s)"
    "lhn (lg s) < 30" "length (lblock (lg s)) = 30" "distinct (logged s)"
    "is_dirty s z \<longleftrightarrow> z \<in> set (logged s)" "length (view s (lstart (lg s))) = 512"
    "le32 (disk s (lstart (lg s))) 0 = 0" "length (logged s) = nat (lhn (lg s))"
    "x \<in> set (logged s) \<Longrightarrow> x < disksize s \<and> \<not> in_log (lstart (lg s)) x"
  using assms by (auto simp: log_wf_def logged_def min_def)

lemma log_wf_same:
  assumes "log_wf s" and "view s' = view s" "is_dirty s' = is_dirty s" "disk s' = disk s" "bframe c s s'"
  shows "log_wf s'" "logged s' = logged s"
  using assms bframe_lg [OF assms(5)] bframe_simps(1) [OF assms(5)]
  by (simp_all add: log_wf_def logged_def)

lemma log_write_ok:
  assumes h: "only_held c s H" and wf: "log_wf s" and b: "holds s x b"
    and x: "\<not> in_log (lstart (lg s)) x"
    and n: "lhn (lg s) < 29" "lhn (lg s) < lsize (lg s) - 1" and o: "1 \<le> outstanding (lg s)"
  obtains s' where "log_write b s = Inr s'" and "only_held c s' H" and "log_wf s'" and "view s' = view s"
    and "disk s' = disk s" and "dtrace s' = dtrace s" and "lg s' = record_block x (lg s)"
    and "logged s' = (if x \<in> set (logged s) then logged s else logged s @ [x])"
    and "\<And>y j. holds s' y j = holds s y j" and "bdirty (bufs s' ! b)"
    and "\<And>j. bdata (bufs s' ! j) = bdata (bufs s ! j)" and "lframe c s s'"
proof -
  obtain xs where inv: "binv c s xs" using h by (auto simp: only_held_def)
  note hb = holds_blk [OF inv b] and D = log_wfD [OF wf] and k = binvD(1) [OF inv] and M = mark_dirty_ok [OF h b]
  let ?s = "(mark_dirty b s)\<lparr>lg := record_block x (lg s)\<rparr>"
  have eq: "log_write b s = Inr ?s"
    by (rule log_write_eq [OF k hb(4)]) (use D n o in simp_all)
  have lgd: "logged ?s = (if x \<in> set (logged s) then logged s else logged s @ [x])"
    using logged_record [of "lg s" x "mark_dirty b s"] D(3,4,5) by (simp add: Let_def logged_def)
  have md: "disk (mark_dirty b s) = disk s" "dtrace (mark_dirty b s) = dtrace s"
    "disksize (mark_dirty b s) = disksize s" by (simp_all add: mark_dirty_def)
  have "length (logged s) < 29" using D(3,10) n(1) by linarith
  then have "length (logged ?s) < 30" using lgd by simp
  moreover have "length (logged ?s) = nat (lhn (lg ?s))"
    using D(3,4,5) n(1) by (simp add: logged_def record_block_def min_def) linarith
  moreover have "0 \<le> lhn (lg ?s)" using D(3) by (simp add: record_block_def)
  ultimately have n': "0 \<le> lhn (lg ?s)" "lhn (lg ?s) < 30" by linarith+
  have dist: "distinct (logged ?s)" using lgd D(6) by simp
  have set: "set (logged ?s) = insert x (set (logged s))" using lgd by auto
  have homes: "y < disksize s \<and> \<not> in_log (lstart (lg s)) y" if "y \<in> set (logged ?s)" for y
    using that D(11) [of y] hb(5) x unfolding set by auto
  have "log_wf ?s"
    using D n' dist homes M(2) M(3) unfolding log_wf_def set
    by (auto simp: md set)
  moreover have "only_held c ?s H" using M(1) by (simp add: only_held_unfold)
  moreover have "lframe c s ?s" unfolding lframe_def using bframe_set_lg [OF M(5)] by simp
  moreover have "bdirty (bufs ?s ! b)" using hb(1) binvD(3) [OF inv] by (simp add: mark_dirty_def)
  moreover have "bdata (bufs ?s ! j) = bdata (bufs s ! j)" for j
    by (auto simp: mark_dirty_def nth_upd_if)
  ultimately show ?thesis
    using that [of ?s] eq M(2,4) md lgd by simp
qed

subsection \<open>begin_op and end_op\<close>

lemma begin_op_eq:
  assumes k: "kok c s"
  shows "begin_op s =
    (if committing (lg s) \<or> lhn (lg s) + (outstanding (lg s) + 1) * int MAXOPBLOCKS > int LOGSIZE
     then Inl (Sleeping ChLog)
     else Inr (s\<lparr>mcpu := settle (mcpu s), lg := (lg s)\<lparr>outstanding := outstanding (lg s) + 1\<rparr>\<rparr>))"
  using k by (auto simp: begin_op_def lock_simps rel_eq [OF k] setlog_def)

lemma with_lock_lg [simp]: "lg (with_lock l s) = lg s"
  "(with_lock l s)\<lparr>lg := v\<rparr> = with_lock l (s\<lparr>lg := v\<rparr>)"
  by (simp_all add: with_lock_def)

lemma kok_lg [simp]: "kok c (s\<lparr>lg := l\<rparr>) = kok c s"
  by (simp add: kok_def pt_ok_def pt_shape_def pt_idle_def)

lemma calm_lg: "calm c s s' \<Longrightarrow> lg s' = lg s"
  using arg_cong [OF calm_frame, of c s s' lg] by simp

lemma calm_bst:
  assumes "calm c s s'"
  shows "bufs s' = bufs s" "disk s' = disk s" "disksize s' = disksize s" "dtrace s' = dtrace s" "locks s' = locks s"
  using arg_cong [OF calm_frame [OF assms], of bufs] arg_cong [OF calm_frame [OF assms], of disk]
    arg_cong [OF calm_frame [OF assms], of disksize] arg_cong [OF calm_frame [OF assms], of dtrace]
    arg_cong [OF calm_frame [OF assms], of locks] by simp_all

lemma calm_binv:
  assumes "binv c s xs" and "calm c s s'"
  shows "binv c s' xs"
  using assms calm_kok [OF assms(2)] calm_pid [OF assms(2)] calm_bst [OF assms(2)]
  by (simp add: binv_def)

lemma calm_held: "only_held c s H \<Longrightarrow> calm c s s' \<Longrightarrow> only_held c s' H"
  using calm_binv calm_bst(1) [of c s s'] by (fastforce simp: only_held_def)

lemma calm_view: "calm c s s' \<Longrightarrow> view s' = view s" "calm c s s' \<Longrightarrow> is_dirty s' = is_dirty s"
  using calm_bst [of c s s']
  by (auto simp: view_def is_dirty_def cached_def fun_eq_iff split: option.split)

lemma calm_log_wf: "log_wf s \<Longrightarrow> calm c s s' \<Longrightarrow> log_wf s'"
  using calm_bst [of c s s'] calm_view [of c s s'] calm_lg [of c s s'] by (simp add: log_wf_def logged_def)

lemma end_op_waits:
  assumes k: "kok c s" and "\<not> committing (lg s)" and "outstanding (lg s) \<noteq> 1"
  shows "\<exists>s'. end_op s = Inr s' \<and>
    calm c (s\<lparr>lg := (lg s)\<lparr>outstanding := outstanding (lg s) - 1\<rparr>\<rparr>) s'"
  using wake_release [of c "s\<lparr>lg := (lg s)\<lparr>outstanding := outstanding (lg s) - 1\<rparr>\<rparr>" ChLog LLog] k assms(2,3)
  by (auto simp: end_op_def acq_with_lock [OF k] setlog_def)

lemma linv_lg_flags:
  assumes "linv c s" and "l = (lg s)\<lparr>outstanding := n, committing := b\<rparr>"
  shows "linv c (s\<lparr>lg := l\<rparr>)"
  using assms by (simp add: linv_def log_wf_def logged_def)

lemma calm_linv: "linv c s \<Longrightarrow> calm c s s' \<Longrightarrow> linv c s'"
  using calm_held [of c s "{}" s'] calm_log_wf [of s c s'] by (simp add: linv_def quiet_only)

lemma commit_writes_cong:
  "view s' = view s \<Longrightarrow> logged s' = logged s \<Longrightarrow> lstart (lg s') = lstart (lg s) \<Longrightarrow>
     commit_writes s' = commit_writes s"
  by (simp add: commit_writes_def log_writes_def home_writes_def new_head_def)

text \<open>After a commit the log is empty again, and everything is on the disk.\<close>

lemma commit_linv:
  assumes inv: "linv c s" and w: "wrote c (committed s) t (commit_writes s)"
  shows "linv c t" "logged t = []" "view t = disk t"
proof -
  let ?st = "lstart (lg s)"
  note D = linvD [OF inv]
  have lgt: "lg t = (lg s)\<lparr>lhn := 0\<rparr>" using wrote_lg [OF w] by (simp add: committed_def)
  have ds: "disksize t = disksize s" using wrote_disksize [OF w] by (simp add: committed_def)
  show lt: "logged t = []" by (simp add: logged_def lgt)
  have nd: "\<not> is_dirty t z" for z
  proof (cases "logged s = []")
    case True
    then show ?thesis using wroteD(6) [OF w, of z] D(9) [of z] by (simp add: committed_def)
  next
    case False
    then have "set (logged s) \<subseteq> fst ` set (commit_writes s)"
      using set_home_writes [of s] by (auto simp: commit_writes_def)
    then show ?thesis using wroteD(6) [OF w, of z] D(9) [of z] by (auto simp: committed_def)
  qed
  have h: "only_held c t {}" using wroteD(1) [OF w] by (simp add: quiet_only)
  show vd: "view t = disk t" using view_clean [OF h] nd by auto
  have "length (disk t ?st) = 512 \<and> le32 (disk t ?st) 0 = 0"
  proof (cases "logged s = []")
    case True
    then have "disk t = disk s" "view t = view s"
      using wroteD(3,4) [OF w] by (simp_all add: commit_writes_def committed_def)
    then show ?thesis using D(10,11) vd by simp
  next
    case False
    then have "disk t ?st = put32 0 0 (new_head s)"
      using wroteD(4) [OF w] by (simp add: commit_writes_def put_blocks_append)
    then show ?thesis using D(10) by (simp add: new_head_def)
  qed
  then show "linv c t"
    using D(2,3,6) nd lt wroteD(1) [OF w] by (simp add: linv_def log_wf_def lgt ds vd)
qed

text \<open>The last operation of a transaction commits it.\<close>

lemma end_op_commits:
  assumes inv: "linv c s" and "\<not> committing (lg s)" and "outstanding (lg s) = 1"
  shows "\<exists>s'. end_op s = Inr s' \<and> linv c s' \<and> logged s' = [] \<and> disk s' = put_blocks (disk s) (commit_writes s) \<and>
    dtrace s' = dtrace s @ commit_writes s \<and> view s' = disk s' \<and>
    lg s' = (lg s)\<lparr>outstanding := 0, lhn := 0\<rparr>"
proof -
  let ?l = "(lg s)\<lparr>outstanding := 0, committing := True\<rparr>"
  let ?s = "s\<lparr>mcpu := settle (mcpu s), lg := ?l\<rparr>"
  have k: "kok c s" using linvD(1) [OF inv] only_held_kok by (auto simp: quiet_only)
  have i1: "linv c (s\<lparr>mcpu := settle (mcpu s)\<rparr>)" by (rule calm_linv [OF inv calm_settle [OF k]])
  then have i2: "linv c ?s" using linv_lg_flags [OF i1, of ?l] by simp
  obtain t where t: "commit ?s = Inr t" "wrote c (committed ?s) t (commit_writes ?s)"
    using commit_ok [OF i2] by blast
  have lgt: "lg t = ?l\<lparr>lhn := 0\<rparr>" using wrote_lg [OF t(2)] by (simp add: committed_def)
  have same: "view ?s = view s" "logged ?s = logged s" "disk ?s = disk s" "dtrace ?s = dtrace s"
    using calm_view(1) [OF calm_settle [OF k]] by (simp_all add: logged_def)
  have cw: "commit_writes ?s = commit_writes s" by (rule commit_writes_cong [OF same(1,2)]) simp
  note C = commit_linv [OF i2 t(2)]
  let ?u = "t\<lparr>lg := (lg s)\<lparr>outstanding := 0, lhn := 0\<rparr>\<rparr>"
  have kt: "kok c t" using C(1) only_held_kok by (auto simp: linv_def quiet_only)
  obtain v where v: "bnd (wakeup ChLog (with_lock LLog ?u)) (rel LLog) = Inr v" "calm c ?u v"
    using wake_release [of c ?u ChLog LLog] kt by auto
  have l0: "(?l\<lparr>lhn := 0\<rparr>)\<lparr>committing := False\<rparr> = (lg s)\<lparr>outstanding := 0, lhn := 0\<rparr>"
    using assms(2) by simp
  have t': "commit (s\<lparr>lg := ?l, mcpu := settle (mcpu s)\<rparr>) = Inr t"
  proof -
    have "s\<lparr>lg := ?l, mcpu := settle (mcpu s)\<rparr> = ?s" by simp
    then show ?thesis using t(1) by (simp only:)
  qed
  have u': "t\<lparr>lg := (lg s)\<lparr>outstanding := 0, lhn := 0, committing := False\<rparr>\<rparr> = ?u" using l0 by simp
  have eq: "end_op s = Inr v"
    using assms(2,3) t' v(1) [folded u']
    by (simp add: end_op_def acq_with_lock [OF k] acq_with_lock [OF kt] setlog_def lgt
        rel_with_lock [of c "s\<lparr>lg := ?l\<rparr>"] k)
  have iu: "linv c ?u"
  proof (rule linv_lg_flags [OF C(1)])
    show "(lg s)\<lparr>outstanding := 0, lhn := 0\<rparr> = (lg t)\<lparr>outstanding := 0, committing := False\<rparr>"
      using assms(2) by (simp add: lgt)
  qed
  have d: "disk v = put_blocks (disk s) (commit_writes s)" "dtrace v = dtrace s @ commit_writes s" "view v = disk v"
    using calm_bst [OF v(2)] calm_view(1) [OF v(2)] wroteD(4,5) [OF t(2)] C(3) cw
    by (simp_all add: committed_def)
  have lgv: "lg v = (lg s)\<lparr>outstanding := 0, lhn := 0\<rparr>" using calm_lg [OF v(2)] by simp
  then show ?thesis
    using eq calm_linv [OF iu v(2)] d by (auto simp: logged_def)
qed

end
