(* ===== verification/BioBoot.thy ===== *)
theory BioBoot
  imports BioQuiet BootState
begin

text \<open>
  \<open>binit\<close> builds the cyclic list and leaves a consistent cache; a concrete cache for the
  witnesses.
\<close>

definition binit_step :: "nat \<Rightarrow> 'z bst_scheme \<Rightarrow> 'z bst_scheme" where
  "binit_step b s =
     (let s = setb b (\<lambda>x. x\<lparr>next := next (bufs s ! BHEAD)\<rparr>) s;
          s = setb b (\<lambda>x. x\<lparr>prev := BHEAD\<rparr>) s;
          s = setb b (\<lambda>x. x\<lparr>blk := initsleeplock\<rparr>)
                (s\<lparr>locks := (locks s)(LBuf b := initlock)\<rparr>);
          s = setb (next (bufs s ! BHEAD)) (\<lambda>x. x\<lparr>prev := b\<rparr>) s
      in setb BHEAD (\<lambda>x. x\<lparr>next := b\<rparr>) s)"

text \<open>A buffer as the kernel's memory has it before \<open>binit\<close>, except for the links.\<close>

definition raw_buf :: "buf \<Rightarrow> bool" where
  "raw_buf x \<longleftrightarrow> \<not> bvalid x \<and> \<not> bdirty x \<and> bdev x = 0 \<and> brefcnt x = 0 \<and> \<not> slocked (blk x)"

lemma raw_buf_upd:
  "raw_buf (x\<lparr>next := n\<rparr>) = raw_buf x" "raw_buf (x\<lparr>prev := n\<rparr>) = raw_buf x"
  "raw_buf x \<Longrightarrow> raw_buf (x\<lparr>blk := initsleeplock\<rparr>)"
  by (simp_all add: raw_buf_def initsleeplock_def)

lemma raw_bufs_upd:
  assumes "\<And>x. raw_buf x \<Longrightarrow> raw_buf (f x)" and "\<forall>i<30. raw_buf (bs ! i)"
  shows "\<forall>i<30. raw_buf (upd b f bs ! i)"
  using assms by (auto simp: nth_upd_if)

lemma binit_step_ok:
  assumes len: "length (bufs s) = 31" and raw: "\<forall>i<30. raw_buf (bufs s ! i)" and k: "kok c s"
    and l: "linked (\<lambda>i. next (bufs s ! i)) (\<lambda>i. prev (bufs s ! i)) (30 # xs @ [30])"
    and b: "b < 30" "b \<notin> set xs" and xs: "distinct xs" "set xs \<subseteq> {..<30}"
  shows "length (bufs (binit_step b s)) = 31" and "\<forall>i<30. raw_buf (bufs (binit_step b s) ! i)"
    and "kok c (binit_step b s)" and "disk (binit_step b s) = disk s" "disksize (binit_step b s) = disksize s"
    and "linked (\<lambda>i. next (bufs (binit_step b s) ! i)) (\<lambda>i. prev (bufs (binit_step b s) ! i)) (30 # (b # xs) @ [30])"
proof -
  let ?h = "next (bufs s ! 30)"
  have h: "?h < 31"
  proof (cases xs)
    case (Cons x ys)
    then have "?h = x" using l by simp
    then show ?thesis using xs(2) Cons by (simp add: less_SucI)
  qed (use l in simp)
  let ?b4 = "upd ?h (\<lambda>x. x\<lparr>prev := b\<rparr>) (upd b (\<lambda>x. x\<lparr>blk := initsleeplock\<rparr>)
      (upd b (\<lambda>x. x\<lparr>prev := 30\<rparr>) (upd b (\<lambda>x. x\<lparr>next := ?h\<rparr>) (bufs s))))"
  have bufs: "bufs (binit_step b s) = upd 30 (\<lambda>x. x\<lparr>next := b\<rparr>) ?b4"
    using b(1) by (simp add: binit_step_def setb_def Let_def nth_upd_if)
  show "length (bufs (binit_step b s)) = 31" using len by (simp add: bufs)
  show "\<forall>i<30. raw_buf (bufs (binit_step b s) ! i)"
    unfolding bufs by (intro raw_bufs_upd raw) (simp_all add: raw_buf_upd)
  have lk: "\<not> locked (initlock :: spinlock)" "lcpu initlock = None" by (simp_all add: initlock_def)
  show "kok c (binit_step b s)" using k
    by (simp add: binit_step_def setb_def Let_def kok_def pt_ok_def pt_shape_def pt_idle_def lk)
  show "disk (binit_step b s) = disk s" "disksize (binit_step b s) = disksize s"
    by (simp_all add: binit_step_def setb_def Let_def)
  have blk: "next (upd j (\<lambda>x. x\<lparr>blk := v\<rparr>) bs ! i) = next (bs ! i)"
    "prev (upd j (\<lambda>x. x\<lparr>blk := v\<rparr>) bs ! i) = prev (bs ! i)" for j v bs i
    by (auto simp: nth_upd_if)
  have "(\<lambda>i. next (bufs (binit_step b s) ! i)) = (\<lambda>i. next (bufs s ! i))(b := ?h, 30 := b)"
    "(\<lambda>i. prev (bufs (binit_step b s) ! i)) = (\<lambda>i. prev (bufs s ! i))(b := 30, ?h := b)"
    using b(1) len h by (simp_all add: bufs link_upds blk)
  moreover have "30 \<notin> set xs" using xs(2) by auto
  ultimately show "linked (\<lambda>i. next (bufs (binit_step b s) ! i)) (\<lambda>i. prev (bufs (binit_step b s) ! i)) (30 # (b # xs) @ [30])"
    using linked_insert [OF l b(2) _ _ xs(1)] b(1) by simp
qed

lemma binit_loop:
  assumes "length (bufs s) = 31" and "\<forall>i<30. raw_buf (bufs s ! i)" and "kok c s"
    and "linked (\<lambda>i. next (bufs s ! i)) (\<lambda>i. prev (bufs s ! i)) (30 # [] @ [30])" and "n \<le> 30"
  shows "length (bufs (fold binit_step [0..<n] s)) = 31 \<and> (\<forall>i<30. raw_buf (bufs (fold binit_step [0..<n] s) ! i)) \<and>
    kok c (fold binit_step [0..<n] s) \<and> disk (fold binit_step [0..<n] s) = disk s \<and>
    disksize (fold binit_step [0..<n] s) = disksize s \<and>
    linked (\<lambda>i. next (bufs (fold binit_step [0..<n] s) ! i)) (\<lambda>i. prev (bufs (fold binit_step [0..<n] s) ! i))
      (30 # rev [0..<n] @ [30])"
  using assms(5)
proof (induction n)
  case 0
  then show ?case using assms by simp
next
  case (Suc n)
  let ?t = "fold binit_step [0..<n] s"
  have IH: "length (bufs ?t) = 31" "\<forall>i<30. raw_buf (bufs ?t ! i)" "kok c ?t" "disk ?t = disk s"
      "disksize ?t = disksize s"
      "linked (\<lambda>i. next (bufs ?t ! i)) (\<lambda>i. prev (bufs ?t ! i)) (30 # rev [0..<n] @ [30])"
    using Suc by simp_all
  have "n < 30" "n \<notin> set (rev [0..<n])" "distinct (rev [0..<n])" "set (rev [0..<n]) \<subseteq> {..<30}"
    using Suc.prems by auto
  note S = binit_step_ok [OF IH(1,2,3,6) this]
  show ?case using S IH(4,5) by simp
qed

lemma binit_ok:
  assumes len: "length (bufs s) = 31" and raw: "\<forall>i<30. raw_buf (bufs s ! i)" and k: "kok c s"
  shows "quiet c (binit s)" and "binv c (binit s) (rev [0..<30])" and "view (binit s) = disk s"
    and "\<not> is_dirty (binit s) z" and "disk (binit s) = disk s" and "disksize (binit s) = disksize s"
    and "\<forall>i<30. raw_buf (bufs (binit s) ! i)"
proof -
  let ?s0 = "s\<lparr>locks := (locks s)(LBcache := initlock)\<rparr>"
  let ?s = "setb BHEAD (\<lambda>x. x\<lparr>next := BHEAD\<rparr>) (setb BHEAD (\<lambda>x. x\<lparr>prev := BHEAD\<rparr>) ?s0)"
  have eq: "binit s = fold binit_step [0..<30] ?s"
    unfolding binit_def Let_def binit_step_def [abs_def] by simp
  have lk: "\<not> locked (initlock :: spinlock)" "lcpu initlock = None" by (simp_all add: initlock_def)
  have "length (bufs ?s) = 31" using len by (simp add: setb_def)
  moreover have "\<forall>i<30. raw_buf (bufs ?s ! i)"
    using raw by (simp add: setb_def nth_upd_if)
  moreover have "kok c ?s"
    using k by (simp add: setb_def kok_def pt_ok_def pt_shape_def pt_idle_def lk)
  moreover have "linked (\<lambda>i. next (bufs ?s ! i)) (\<lambda>i. prev (bufs ?s ! i)) (30 # [] @ [30])"
    using len by (simp add: setb_def)
  ultimately have B: "length (bufs (binit s)) = 31" "\<forall>i<30. raw_buf (bufs (binit s) ! i)"
      "kok c (binit s)" "disk (binit s) = disk ?s" "disksize (binit s) = disksize ?s"
      "linked (\<lambda>i. next (bufs (binit s) ! i)) (\<lambda>i. prev (bufs (binit s) ! i)) (30 # rev [0..<30] @ [30])"
    using binit_loop [of ?s c 30] unfolding eq by blast+
  have nc: "\<not> cached (binit s) x i" for x i
    using B(2) by (auto simp: cached_def raw_buf_def)
  show d: "disk (binit s) = disk s" "disksize (binit s) = disksize s"
    using B(4,5) by (simp_all add: setb_def)
  show "view (binit s) = disk s" using view_disk [of "binit s"] nc d by (auto simp: fun_eq_iff)
  show "\<not> is_dirty (binit s) z" using nc by (simp add: is_dirty_def)
  have "lru (bufs (binit s)) (rev [0..<30])"
    using B(1,6) unfolding lru_def NBUF_def BHEAD_def MAXOPBLOCKS_def by (auto simp del: upt_rec_numeral)
  then show inv: "binv c (binit s) (rev [0..<30])"
    using B(2,3) by (auto simp: binv_def raw_buf_def buf_ok_def)
  show "quiet c (binit s)" using inv B(2) by (auto simp: quiet_def raw_buf_def)
  show "\<forall>i<30. raw_buf (bufs (binit s) ! i)" by (rule B(2))
qed

text \<open>One buffer of a fresh cache filled with a block, dirty or not.\<close>

definition fill :: "bool \<Rightarrow> u32 \<Rightarrow> block \<Rightarrow> buf \<Rightarrow> buf" where
  "fill d bno v x = x\<lparr>bvalid := True, bdirty := d, bdev := 1, bblockno := bno, bdata := v\<rparr>"

lemma fill_quiet:
  assumes inv: "binv c s xs" and raw: "\<forall>i<30. raw_buf (bufs s ! i)" and b: "b < 30"
    and bno: "bno < disksize s" and v: "d \<or> v = disk s bno"
  defines "t \<equiv> s\<lparr>bufs := upd b (fill d bno v) (bufs s)\<rparr>"
  shows "quiet c t" and "view t = (disk s)(bno := v)" and "is_dirty t z \<longleftrightarrow> d \<and> z = bno"
proof -
  note D = binvD [OF inv]
  have nth: "bufs t ! i = (if i = b then fill d bno v (bufs s ! b) else bufs s ! i)" for i
    using b D(3) by (auto simp: t_def nth_upd_if)
  have ca: "cached t x i \<longleftrightarrow> i = b \<and> x = bno" for x i
    using raw b by (auto simp: cached_def nth fill_def raw_buf_def)
  have inv': "binv c t xs"
    unfolding binv_def
  proof (intro conjI allI impI)
    show "kok c t" "lru (bufs t) xs"
      using D(1,2) by (simp_all add: t_def lru_upd fill_def)
    fix i assume i: "i < NBUF"
    show "buf_ok (pid (procs t ! c)) (disksize t) (disk t) (bufs t ! i)"
      using raw i bno v by (auto simp: nth buf_ok_def fill_def raw_buf_def) (simp_all add: t_def)
    fix j assume "j < NBUF" "bdev (bufs t ! i) = 1" "bdev (bufs t ! j) = 1"
    then show "i = j" using ca [of _ i] ca [of _ j] i by (auto simp: cached_def)
  qed
  have b_t: "bvalid (bufs t ! b)" "bdata (bufs t ! b) = v" by (simp_all add: nth fill_def)
  show "view t = (disk s)(bno := v)"
  proof
    fix x
    show "view t x = ((disk s)(bno := v)) x"
    proof (cases "x = bno")
      case True
      then show ?thesis using view_at [OF inv', of bno b] ca b_t by simp
    next
      case False
      then have "view t x = disk t x" by (intro view_disk) (simp add: ca)
      then show ?thesis using False by (simp add: t_def)
    qed
  qed
  show "quiet c t" using inv' raw by (auto simp: quiet_def nth fill_def raw_buf_def)
  show "is_dirty t z \<longleftrightarrow> d \<and> z = bno" using b by (auto simp: is_dirty_def ca nth fill_def)
qed

end
