(* ===== verification/LogProps.thy ===== *)
theory LogProps
  imports LogTx BioBoot
begin

text \<open>The properties of the log, and a concrete file system disk for their witnesses.\<close>

subsection \<open>Initialisation of the log\<close>

lemma kok_set_free: "kok c s \<Longrightarrow> kok c (s\<lparr>locks := (locks s)(l := initlock)\<rparr>)"
  by (simp add: kok_def pt_ok_def pt_shape_def pt_idle_def initlock_def)

lemma cold_set_free:
  assumes "cold c s"
  shows "cold c (s\<lparr>locks := (locks s)(l := initlock)\<rparr>)"
proof -
  obtain xs where "binv c s xs" "\<forall>i<NBUF. brefcnt (bufs s ! i) = 0"
    using assms by (auto simp: cold_def quiet_def)
  then have "binv c (s\<lparr>locks := (locks s)(l := initlock)\<rparr>) xs"
    using kok_set_free by (auto simp: binv_def)
  then show ?thesis using assms by (auto simp: cold_def quiet_def is_dirty_def cached_def)
qed

lemma readsb_ok:
  fixes s :: "'z lst_scheme"
  assumes q: "cold c s" and x: "1 < disksize s"
  shows "\<exists>s'. readsb 1 s = Inr (sb_of (disk s 1), s') \<and> wrote c s s' []"
proof (rule read_release [OF q x])
  fix b t
  assume t: "bread 1 1 s = Inr (b, t)" "bdata (bufs t ! b) = disk s 1" "lg t = lg s"
    "\<And>l. \<exists>s'. brelse b (t\<lparr>lg := l\<rparr>) = Inr s' \<and> wrote c (s\<lparr>lg := l\<rparr>) s' []"
  have "t\<lparr>lg := lg s\<rparr> = t" using t(3) by simp
  then show ?thesis using t(4) [of "lg s"] t(1,2) by (auto simp: readsb_def)
qed

lemma initlog_ok:
  fixes s :: "'z lst_scheme"
  assumes q: "cold c s" and x: "1 < disksize s" and st: "sb_logstart (sb_of (disk s 1)) = st"
    and room: "unat st + 30 \<le> unat (disksize s)" and ok: "head_ok st (disksize s) (disk s st)"
  shows "\<exists>s'. initlog 1 s = Inr s' \<and> cold c s' \<and> disk s' = recover_disk st (disk s) \<and>
     disksize s' = disksize s \<and> lstart (lg s') = st \<and> lsize (lg s') = sint (sb_nlog (sb_of (disk s 1))) \<and>
     ldev (lg s') = 1 \<and> lhn (lg s') = 0 \<and> outstanding (lg s') = outstanding (lg s) \<and>
     committing (lg s') = committing (lg s)"
proof -
  let ?s = "s\<lparr>locks := (locks s)(LLog := initlock)\<rparr>"
  have q1: "cold c ?s" by (rule cold_set_free [OF q])
  then obtain t where t: "readsb 1 ?s = Inr (sb_of (disk s 1), t)" "wrote c ?s t []"
    using readsb_ok [of c ?s] x by auto
  let ?l = "(lg s)\<lparr>lstart := st, lsize := sint (sb_nlog (sb_of (disk s 1))), ldev := 1\<rparr>"
  let ?t = "t\<lparr>lg := ?l\<rparr>"
  have lgt: "lg t = lg s" and dst: "disksize t = disksize s" and dt: "disk t = disk s"
    using wrote_lg [OF t(2)] wrote_disksize [OF t(2)] wroteD(4) [OF t(2)] by simp_all
  have q2: "cold c ?t" by (rule cold_lg [OF wrote_cold [OF q1 t(2)]]) (use coldD(4) [OF q] in simp)
  have "initlog 1 s = recover_from_log ?t"
    using t(1) st by (simp add: initlog_def Let_def setlog_def lgt)
  moreover have "unat (lstart (lg ?t)) + 30 \<le> unat (disksize ?t)"
    "head_ok (lstart (lg ?t)) (disksize ?t) (disk ?t (lstart (lg ?t)))" "ldev (lg ?t) = 1"
    using room ok by (simp_all add: dst dt)
  ultimately show ?thesis using recover_from_log_ok [OF q2] by (simp add: dst dt)
qed

subsection \<open>Crash safety\<close>

text \<open>C1: A commit followed by a crash is atomic.  Whatever prefix of the block writes of
  \<open>commit\<close> reached the disk before the machine stopped, the next boot's \<open>initlog\<close> succeeds and
  leaves every block outside of the log either all as before the transaction (if the log's
  header had not been written) or all as the transaction left them (from the header write
  on).\<close>

theorem crash_atomic:
  fixes s t :: "'z lst_scheme"
  assumes inv: "linv c s" and sb: "sb_logstart (sb_of (disk s 1)) = lstart (lg s)"
    and one: "1 < disksize s" "1 \<notin> set (logged s)" "\<not> in_log (lstart (lg s)) 1"
  shows "\<exists>s' ws. commit s = Inr s' \<and> dtrace s' = dtrace s @ ws \<and> disk s' = put_blocks (disk s) ws \<and>
    length ws = (if logged s = [] then 0 else 2 * length (logged s) + 2) \<and>
    (\<forall>k\<le>length ws. \<forall>t. cold p t \<and> disksize t = disksize s \<and> disk t = put_blocks (disk s) (take k ws) \<longrightarrow>
      (\<exists>t'. initlog 1 t = Inr t' \<and> (\<forall>x. \<not> in_log (lstart (lg s)) x \<longrightarrow>
         view (t' :: 'z lst_scheme) x = (if k \<le> length (logged s) then disk s x else view s x))))"
proof -
  let ?st = "lstart (lg s)"
  let ?ws = "commit_writes s"
  obtain s' where s': "commit s = Inr s'" "wrote c (committed s) s' ?ws" using commit_ok [OF inv] by blast
  have len: "length ?ws = (if logged s = [] then 0 else 2 * length (logged s) + 2)"
    by (simp add: commit_writes_def log_writes_def home_writes_def)
  have "\<exists>t'. initlog 1 t = Inr t' \<and> (\<forall>x. \<not> in_log ?st x \<longrightarrow>
      view t' x = (if k \<le> length (logged s) then disk s x else view s x))"
    if k: "k \<le> length ?ws" and t: "cold p t" "disksize t = disksize s" "disk t = put_blocks (disk s) (take k ?ws)"
    for k and t :: "'z lst_scheme"
  proof -
    have hl: "head_list (disk t ?st) \<in> {[], logged s}"
      using crash_before(1) [OF inv _ t(3)] crash_after(1) [OF inv _ _ t(3)] k len
      by (cases "k \<le> length (logged s)") (auto split: if_splits)
    have "fst ` set (take k ?ws) \<subseteq> fst ` set ?ws" by (meson image_mono set_take_subset)
    moreover have "1 \<notin> fst ` set ?ws"
      using log_writes_fst [OF inv] set_home_writes [of s] one linv_homes(2) [OF inv one(3)]
      by (auto simp: commit_writes_def)
    ultimately have "1 \<notin> fst ` set (take k ?ws)" by blast
    then have "disk t 1 = disk s 1" using t(3) put_blocks_other [of 1] by simp
    then have st: "sb_logstart (sb_of (disk t 1)) = ?st" using sb by simp
    have hok: "head_ok ?st (disksize t) (disk t ?st)"
      using hl inv linvD(5,7,8) [OF inv] t(2) by (auto simp: head_ok_def linv_def log_wf_def)
    obtain t' where t': "initlog 1 t = Inr t'" "cold p t'" "disk t' = recover_disk ?st (disk t)"
      using initlog_ok [OF t(1) _ st _ hok] one(1) linvD(3) [OF inv] t(2) by auto
    have "view t' x = (if k \<le> length (logged s) then disk s x else view s x)" if "\<not> in_log ?st x" for x
      using coldD(5) [OF t'(2)] t'(3) crash_before(2) [OF inv _ t(3) that] crash_after(2) [OF inv _ _ t(3) that] k len
      by (cases "k \<le> length (logged s)") (auto split: if_splits)
    then show ?thesis using t'(1) by blast
  qed
  then show ?thesis
    using s'(1) wroteD(4,5) [OF s'(2)] len by (intro exI [of _ s'] exI [of _ ?ws]) (auto simp: committed_def)
qed

text \<open>A file system as \<open>mkfs\<close> makes it: 1000 blocks, the log in blocks 2 to 31.\<close>

definition zero_block :: block where
  "zero_block = replicate 512 0"

definition sb_block :: block where
  "sb_block = put32 0 1000 (put32 4 941 (put32 8 200 (put32 12 30 (put32 16 2
     (put32 20 32 (put32 24 58 zero_block))))))"

definition fs_disk :: "u32 \<Rightarrow> block" where
  "fs_disk x = (if x = 1 then sb_block else zero_block)"

definition buf0 :: buf where
  "buf0 = \<lparr>bvalid = False, bdirty = False, bdev = 0, bblockno = 0, blk = initsleeplock, brefcnt = 0,
     prev = 0, next = 0, bdata = zero_block\<rparr>"

definition log0 :: logstate where
  "log0 = \<lparr>lstart = 2, lsize = 30, outstanding = 0, committing = False, ldev = 1, lhn = 0,
     lblock = replicate 30 0\<rparr>"

definition boot_lst :: lst where
  "boot_lst = pst.extend (idle_pst\<lparr>mcpu := (mcpu idle_pst)\<lparr>cpu_proc := Some 0\<rparr>\<rparr>)
     \<lparr>locks = (\<lambda>_. initlock), bufs = replicate 31 buf0, disk = fs_disk, disksize = 1000, dtrace = [], lg = log0\<rparr>"

lemma boot_kok: "kok 0 boot_lst"
proof -
  have "pt_ok idle_pst" by (rule mlfq_inv_pt_ok [OF idle_inv])
  then show ?thesis
    by (simp add: kok_def boot_lst_def pst.defs pt_ok_def pt_shape_def pt_idle_def)
      (simp add: idle_pst_def cpu_ok_def initlock_def)
qed

lemma boot_bufs: "length (bufs boot_lst) = 31" "\<forall>i<30. raw_buf (bufs boot_lst ! i)"
  by (simp_all add: boot_lst_def pst.defs raw_buf_def buf0_def initsleeplock_def)

lemmas boot_binit = binit_ok [OF boot_bufs boot_kok]

lemma sb_block_fields:
  "sb_of sb_block = \<lparr>sb_size = 1000, sb_nblocks = 941, sb_ninodes = 200, sb_nlog = 30,
     sb_logstart = 2, sb_inodestart = 32, sb_bmapstart = 58\<rparr>"
  by (simp add: sb_of_def sb_block_def le_put_other zero_block_def)

text \<open>A transaction that has changed block 100.\<close>

definition tx_lst :: lst where
  "tx_lst = (binit boot_lst)\<lparr>bufs := upd 0 (fill True 100 (replicate 512 7)) (bufs (binit boot_lst)),
     lg := log0\<lparr>outstanding := 1, lhn := 1, lblock := 100 # replicate 29 0\<rparr>\<rparr>"

lemma boot_fields: "disk boot_lst = fs_disk" "disksize boot_lst = 1000"
  by (simp_all add: boot_lst_def pst.defs)

lemma tx_linv:
  "linv 0 tx_lst" "disk tx_lst = fs_disk" "disksize tx_lst = 1000" "logged tx_lst = [100]"
  "view tx_lst 100 = replicate 512 7" "lstart (lg tx_lst) = 2"
proof -
  let ?s = "(binit boot_lst)\<lparr>bufs := upd 0 (fill True 100 (replicate 512 7)) (bufs (binit boot_lst))\<rparr>"
  have "0 < (30 :: nat)" "(100 :: u32) < disksize (binit boot_lst)"
    using boot_binit(6) boot_fields by simp_all
  note F = fill_quiet [OF boot_binit(2) boot_binit(7) this, of True "replicate 512 7", simplified]
  have t: "tx_lst = ?s\<lparr>lg := log0\<lparr>outstanding := 1, lhn := 1, lblock := 100 # replicate 29 0\<rparr>\<rparr>"
    by (simp add: tx_lst_def)
  show lgd: "logged tx_lst = [100]" by (simp add: logged_def t)
  show ds: "disk tx_lst = fs_disk" "disksize tx_lst = 1000"
    using boot_binit(5,6) boot_fields by (simp_all add: t)
  show lg: "lstart (lg tx_lst) = 2" by (simp add: t log0_def)
  have v: "view tx_lst = fs_disk(100 := replicate 512 7)"
    using F(2) boot_binit(5) boot_fields by (simp add: t)
  then show "view tx_lst 100 = replicate 512 7" by simp
  have "is_dirty tx_lst z \<longleftrightarrow> z = 100" for z using F(3) by (simp add: t)
  moreover have "quiet 0 tx_lst" using F(1) by (simp add: t)
  moreover have "le32 zero_block 0 = 0" "length zero_block = 512" by (simp_all add: le32_def zero_block_def)
  ultimately show "linv 0 tx_lst"
    unfolding linv_def log_wf_def lgd ds v lg
    by (simp add: in_log_def fs_disk_def t log0_def)
qed

text \<open>The crash after two of the four block writes: the disk, and the machine booted from it.\<close>

definition crashed_lst :: "(u32 \<times> block) list \<Rightarrow> lst" where
  "crashed_lst ws = binit (boot_lst\<lparr>disk := put_blocks fs_disk ws\<rparr>)"

lemma crashed_cold:
  "cold 0 (crashed_lst ws)" "disksize (crashed_lst ws) = 1000" "disk (crashed_lst ws) = put_blocks fs_disk ws"
proof -
  let ?s = "boot_lst\<lparr>disk := put_blocks fs_disk ws\<rparr>"
  have "length (bufs ?s) = 31" "\<forall>i<30. raw_buf (bufs ?s ! i)" "kok 0 ?s"
    using boot_bufs boot_kok by simp_all
  note B = binit_ok [OF this]
  have "lg (binit s) = lg s" for s :: lst
  proof -
    have "lg (fold (\<lambda>b s. let s = setb b (\<lambda>x. x\<lparr>next := next (bufs s ! BHEAD)\<rparr>) s;
               s = setb b (\<lambda>x. x\<lparr>prev := BHEAD\<rparr>) s;
               s = setb b (\<lambda>x. x\<lparr>blk := initsleeplock\<rparr>) (s\<lparr>locks := (locks s)(LBuf b := initlock)\<rparr>);
               s = setb (next (bufs s ! BHEAD)) (\<lambda>x. x\<lparr>prev := b\<rparr>) s
           in setb BHEAD (\<lambda>x. x\<lparr>next := b\<rparr>) s) bs s) = lg s" for bs and s :: lst
      by (induction bs arbitrary: s) (simp_all add: Let_def setb_def)
    then show ?thesis by (simp add: binit_def Let_def setb_def)
  qed
  then show "cold 0 (crashed_lst ws)"
    using B(1,4) by (simp add: cold_def crashed_lst_def boot_lst_def pst.defs log0_def)
  show "disksize (crashed_lst ws) = 1000" "disk (crashed_lst ws) = put_blocks fs_disk ws"
    using B(5,6) boot_fields by (simp_all add: crashed_lst_def)
qed

theorem crash_atomic_witness:
  "\<exists>s' ws t'. commit tx_lst = Inr s' \<and> disk s' = put_blocks fs_disk ws \<and> length ws = 4 \<and>
     initlog 1 (crashed_lst (take 2 ws)) = Inr t' \<and> view t' 100 = replicate 512 7"
proof -
  note T = tx_linv
  have "sb_logstart (sb_of (disk tx_lst 1)) = lstart (lg tx_lst)"
    by (simp add: T fs_disk_def sb_block_fields)
  moreover have "\<not> in_log 2 1" "\<not> in_log 2 100" by (simp_all add: in_log_def)
  ultimately obtain s' ws where w: "commit tx_lst = Inr s'" "disk s' = put_blocks fs_disk ws" "length ws = 4"
    and all: "\<forall>k\<le>4. \<forall>t. cold 0 t \<and> disksize t = 1000 \<and> disk t = put_blocks fs_disk (take k ws) \<longrightarrow>
      (\<exists>t'. initlog 1 t = Inr t' \<and> (\<forall>x. \<not> in_log 2 x \<longrightarrow>
         view (t' :: lst) x = (if k \<le> 1 then disk tx_lst x else view tx_lst x)))"
    using crash_atomic [OF T(1), of 0] by (auto simp: T)
  then obtain t' where "initlog 1 (crashed_lst (take 2 ws)) = Inr t'"
    "\<forall>x. \<not> in_log 2 x \<longrightarrow> view t' x = view tx_lst x"
    using all [rule_format, of 2 "crashed_lst (take 2 ws)"] crashed_cold [of "take 2 ws"] by auto
  then show ?thesis using w T(5) \<open>\<not> in_log 2 100\<close> by auto
qed

subsection \<open>Transactions\<close>

lemma commit_disk:
  assumes inv: "linv c s" and x: "\<not> in_log (lstart (lg s)) x"
  shows "put_blocks (disk s) (commit_writes s) x = view s x"
proof (cases "logged s = []")
  case True
  then show ?thesis using linv_homes(3) [OF inv, of x] by (simp add: commit_writes_def)
next
  case False
  have "put_blocks (disk s) (commit_writes s) = (put_blocks (old_log s) (home_writes s))
      (lstart (lg s) := put32 0 0 (new_head s))"
    using False by (simp add: commit_writes_def put_blocks_append old_log_def)
  then show ?thesis
    using linv_homes(2-4) [OF inv, of x] x by (simp add: put_home_writes [OF inv])
qed

text \<open>C24: When the last operation of a transaction ends, \<open>end_op\<close> succeeds, empties the log and
  keeps the log's invariant; every block outside of the log is then on the disk as the
  operations of the transaction left it in the cache, and no operation is outstanding.\<close>

theorem end_op_durable:
  assumes inv: "linv c s" and "\<not> committing (lg s)" and "outstanding (lg s) = 1"
  shows "\<exists>s'. end_op s = Inr s' \<and> linv c s' \<and> logged s' = [] \<and> outstanding (lg s') = 0 \<and> \<not> committing (lg s') \<and>
    (\<forall>x. \<not> in_log (lstart (lg s)) x \<longrightarrow> disk s' x = view s x \<and> view s' x = view s x)"
proof -
  obtain s' where s': "end_op s = Inr s'" "linv c s'" "logged s' = []"
    "disk s' = put_blocks (disk s) (commit_writes s)" "view s' = disk s'"
    "lg s' = (lg s)\<lparr>outstanding := 0, lhn := 0\<rparr>"
    using end_op_commits [OF assms] by blast
  then show ?thesis using commit_disk [OF inv] assms(2) by (intro exI [of _ s']) simp
qed

theorem end_op_durable_witness:
  "\<exists>s'. end_op tx_lst = Inr s' \<and> disk s' 100 = replicate 512 7 \<and> disk tx_lst 100 = replicate 512 0"
proof -
  have "\<not> committing (lg tx_lst)" "outstanding (lg tx_lst) = 1" by (simp_all add: tx_lst_def log0_def)
  moreover have "\<not> in_log 2 100" by (simp add: in_log_def)
  ultimately show ?thesis
    using end_op_durable [OF tx_linv(1)] tx_linv by (auto simp: fs_disk_def zero_block_def)
qed

text \<open>C25: \<open>log_write\<close> of a held buffer records its block once: a block that the transaction
  has logged before is absorbed, another one is appended.  The buffer stays held with its
  contents, becomes dirty so that it is not evicted, nothing reaches the disk, and the log's
  invariant holds again.\<close>

theorem log_write_absorbs:
  assumes h: "only_held c s H" and wf: "log_wf s" and b: "holds s x b"
    and x: "\<not> in_log (lstart (lg s)) x"
    and n: "lhn (lg s) < 29" "lhn (lg s) < lsize (lg s) - 1" and o: "1 \<le> outstanding (lg s)"
  shows "\<exists>s'. log_write b s = Inr s' \<and> only_held c s' H \<and> log_wf s' \<and> holds s' x b \<and> bdirty (bufs s' ! b) \<and>
    logged s' = (if x \<in> set (logged s) then logged s else logged s @ [x]) \<and>
    view s' = view s \<and> disk s' = disk s \<and> dtrace s' = dtrace s"
proof (rule log_write_ok [OF assms], goal_cases)
  case (1 s')
  then show ?case using b by blast
qed

theorem log_write_absorbs_witness:
  "\<exists>b t s'. bread 1 200 tx_lst = Inr (b, t) \<and> log_write b t = Inr s' \<and> logged s' = [100, 200]"
proof -
  note T = tx_linv
  have h: "only_held 0 tx_lst {}" and wf: "log_wf tx_lst" using T(1) by (simp_all add: linv_def quiet_only)
  have ev: "evictable tx_lst"
    by (rule evictable_room [OF h _ log_wfD(7) [OF wf, THEN iffD1]]) (simp_all add: T(4))
  have d: "(200 :: u32) < disksize tx_lst" by (simp add: T(3))
  show ?thesis
  proof (rule bread_held [OF h d], goal_cases)
    case 1
    then show ?case by simp
  next
    case 2
    then show ?case using ev by simp
  next
    case (3 b t)
    note W = log_wf_same [OF wf 3(8,9,10,12)]
    have lgt: "lg t = lg tx_lst" by (rule bframe_lg [OF 3(12)])
    have "\<not> in_log (lstart (lg t)) 200" by (simp add: lgt T(6) in_log_def)
    moreover have "lhn (lg t) < 29" "lhn (lg t) < lsize (lg t) - 1" "1 \<le> outstanding (lg t)"
      by (simp_all add: lgt tx_lst_def log0_def)
    ultimately obtain s' where "log_write b t = Inr s'" "logged s' = [100, 200]"
      using log_write_absorbs [OF 3(2) W(1) 3(3)] W(2) T(4) by auto
    then show ?case using 3(1) by blast
  qed
qed

text \<open>C26: The log admits more than it can hold.  On a disk as \<open>mkfs\<close> makes it the log has
  \<open>LOGSIZE\<close> blocks including the header.  Three operations may start together, for
  \<open>begin_op\<close> counts \<open>MAXOPBLOCKS\<close> for each of them up to \<open>LOGSIZE\<close>, but once 29 blocks are recorded
  the next \<open>log_write\<close> of any of them panics, even of a block that is recorded already.\<close>

theorem log_overcommits:
  assumes k: "kok c s" and "lsize (lg s) = int LOGSIZE" "lhn (lg s) = 0" "outstanding (lg s) = 0" "\<not> committing (lg s)"
  shows "\<exists>s1 s2 s3. begin_op s = Inr s1 \<and> begin_op s1 = Inr s2 \<and> begin_op s2 = Inr s3 \<and>
    outstanding (lg s3) * int MAXOPBLOCKS = int LOGSIZE \<and> begin_op s3 = Inl (Sleeping ChLog) \<and>
    (\<forall>t b. lhn (lg t) = 29 \<and> lsize (lg t) = lsize (lg s3) \<longrightarrow>
       panics ''too big a transaction'' (log_write b (t :: 'z lst_scheme)))"
proof -
  define st where "st n = s\<lparr>mcpu := settle (mcpu s), lg := (lg s)\<lparr>outstanding := n\<rparr>\<rparr>" for n
  have kn: "kok c (st n)" for n using kok_settle [OF k] by (simp add: st_def)
  have b0: "begin_op s = Inr (st 1)" using begin_op_eq [OF k] assms by (simp add: st_def)
  have bn: "begin_op (st n) = (if n < 3 then Inr (st (n + 1)) else Inl (Sleeping ChLog))" for n
    using begin_op_eq [OF kn, of n] assms by (auto simp: st_def)
  have "panics ''too big a transaction'' (log_write b t)"
    if "lhn (lg t) = 29" "lsize (lg t) = lsize (lg (st 3))" for b and t :: "'z lst_scheme"
    using that assms(2) by (simp add: log_write_def panics_iff st_def)
  then show ?thesis
    using b0 bn by (intro exI [of _ "st 1"] exI [of _ "st 2"] exI [of _ "st 3"]) (auto simp: st_def)
qed

theorem log_overcommits_witness:
  "\<exists>s1 s2 s3. begin_op boot_lst = Inr s1 \<and> begin_op s1 = Inr s2 \<and> begin_op s2 = Inr s3 \<and>
     panics ''too big a transaction'' (log_write 0 (boot_lst\<lparr>lg := (lg s3)\<lparr>lhn := 29\<rparr>\<rparr>))"
proof -
  have "lsize (lg boot_lst) = int LOGSIZE" "lhn (lg boot_lst) = 0" "outstanding (lg boot_lst) = 0"
    "\<not> committing (lg boot_lst)" by (simp_all add: boot_lst_def pst.defs log0_def)
  from log_overcommits [OF boot_kok this] obtain s1 s2 s3 where
    "begin_op boot_lst = Inr s1" "begin_op s1 = Inr s2" "begin_op s2 = Inr s3"
    "\<forall>t b. lhn (lg t) = 29 \<and> lsize (lg t) = lsize (lg s3) \<longrightarrow>
       panics ''too big a transaction'' (log_write b (t :: lst))" by blast
  then show ?thesis
    by (intro exI [of _ s1] exI [of _ s2] exI [of _ s3]) simp
qed

end
