(* ===== verification/Str.thy ===== *)
theory Str
  imports Prelude
begin

text \<open>
  The kernel's string routines (\<^verbatim>\<open>string.c\<close>).

  The routines on memory blocks work on a byte memory and on addresses, because what
  \<open>memmove\<close> does depends on how the two areas overlap.  The routines on strings work on the
  bytes of the string: a list that stands for what the pointer points at, with a NUL where
  the list ends.
\<close>

type_synonym bytes = "u32 \<Rightarrow> u8"

primrec stosb_loop :: "nat \<Rightarrow> u32 \<Rightarrow> u8 \<Rightarrow> bytes \<Rightarrow> bytes" where
  "stosb_loop 0 d c m = m"
| "stosb_loop (Suc n) d c m = stosb_loop n (d + 1) c (m(d := c))"

primrec memcmp_loop :: "nat \<Rightarrow> bytes \<Rightarrow> u32 \<Rightarrow> u32 \<Rightarrow> int" where
  "memcmp_loop 0 m s1 s2 = 0"
| "memcmp_loop (Suc n) m s1 s2 =
     (if m s1 \<noteq> m s2 then uint (m s1) - uint (m s2) else memcmp_loop n m (s1 + 1) (s2 + 1))"

definition memcmp :: "bytes \<Rightarrow> u32 \<Rightarrow> u32 \<Rightarrow> u32 \<Rightarrow> int" where
  "memcmp m v1 v2 n = memcmp_loop (unat n) m v1 v2"

primrec copy_up :: "nat \<Rightarrow> u32 \<Rightarrow> u32 \<Rightarrow> bytes \<Rightarrow> bytes" where
  "copy_up 0 d s m = m"
| "copy_up (Suc n) d s m = copy_up n (d + 1) (s + 1) (m(d := m s))"

primrec copy_down :: "nat \<Rightarrow> u32 \<Rightarrow> u32 \<Rightarrow> bytes \<Rightarrow> bytes" where
  "copy_down 0 d s m = m"
| "copy_down (Suc n) d s m = copy_down n (d - 1) (s - 1) (m(d - 1 := m (s - 1)))"

definition memmove :: "bytes \<Rightarrow> u32 \<Rightarrow> u32 \<Rightarrow> u32 \<Rightarrow> bytes" where
  "memmove m d s n =
     (if s < d \<and> s + n > d then copy_down (unat n) (d + n) (s + n) m else copy_up (unat n) d s m)"

definition memcpy :: "bytes \<Rightarrow> u32 \<Rightarrow> u32 \<Rightarrow> u32 \<Rightarrow> bytes" where
  "memcpy m d s n = memmove m d s n"

text \<open>The byte a string pointer points at.\<close>

definition chr :: "u8 list \<Rightarrow> u8" where
  "chr s = (case s of [] \<Rightarrow> 0 | c # _ \<Rightarrow> c)"

primrec strncmp :: "nat \<Rightarrow> u8 list \<Rightarrow> u8 list \<Rightarrow> int" where
  "strncmp 0 p q = 0"
| "strncmp (Suc n) p q =
     (if chr p \<noteq> 0 \<and> chr p = chr q then strncmp n (tl p) (tl q) else uint (chr p) - uint (chr q))"

text \<open>\<open>strncpy\<close> and \<open>safestrcpy\<close> give the bytes they store; \<open>safestrcpy\<close> leaves the rest of the
  destination alone.\<close>

primrec strncpy :: "nat \<Rightarrow> u8 list \<Rightarrow> u8 list" where
  "strncpy 0 t = []"
| "strncpy (Suc n) t = (if chr t = 0 then 0 # replicate n 0 else chr t # strncpy n (tl t))"

primrec safestrcpy_loop :: "nat \<Rightarrow> u8 list \<Rightarrow> u8 list" where
  "safestrcpy_loop 0 t = [0]"
| "safestrcpy_loop (Suc n) t = (if chr t = 0 then [0, 0] else chr t # safestrcpy_loop n (tl t))"

definition safestrcpy :: "u8 list \<Rightarrow> u8 list \<Rightarrow> int \<Rightarrow> u8 list" where
  "safestrcpy s t n =
     (if n \<le> 0 then s else let v = safestrcpy_loop (nat (n - 1)) t in v @ drop (length v) s)"

fun strlen :: "u8 list \<Rightarrow> nat" where
  "strlen s = (case s of [] \<Rightarrow> 0 | c # t \<Rightarrow> if c = 0 then 0 else Suc (strlen t))"

declare strlen.simps [simp del]

text \<open>The string a pointer points at.\<close>

definition cstr :: "u8 list \<Rightarrow> u8 list" where
  "cstr s = takeWhile (\<lambda>c. c \<noteq> 0) s"

subsection \<open>memmove on overlapping areas\<close>

lemma copy_up_other:
  assumes "\<And>i. i < n \<Longrightarrow> a \<noteq> d + of_nat i"
  shows "copy_up n d s m a = m a"
  using assms
proof (induction n arbitrary: d s m)
  case (Suc n)
  have "a \<noteq> d + 1 + of_nat i" if "i < n" for i
    using Suc.prems [of "Suc i"] that by (simp add: ac_simps)
  then show ?case using Suc.IH Suc.prems [of 0] by simp
qed simp

lemma copy_down_other:
  assumes "\<And>i. i < n \<Longrightarrow> a \<noteq> d - of_nat (Suc i)"
  shows "copy_down n d s m a = m a"
  using assms
proof (induction n arbitrary: d s m)
  case (Suc n)
  have "a \<noteq> d - 1 - of_nat (Suc i)" if "i < n" for i
    using Suc.prems [of "Suc i"] that by (simp add: algebra_simps)
  then show ?case using Suc.IH Suc.prems [of 0] by simp
qed simp

lemma of_nat_u32_neq_0: "0 < i \<Longrightarrow> i < 4294967296 \<Longrightarrow> (of_nat i :: u32) \<noteq> 0"
  using unat_of_nat_u32 [of i] by auto

lemma u32_neq_sub: "(b :: u32) \<noteq> 0 \<Longrightarrow> a \<noteq> a - b"
  by (metis add_cancel_right_right diff_add_cancel)

lemma copy_up_ok:
  assumes "\<And>i j. i < n \<Longrightarrow> j < i \<Longrightarrow> d + of_nat j \<noteq> s + of_nat i" and "i < n" and "n < 4294967296"
  shows "copy_up n d s m (d + of_nat i) = m (s + of_nat i)"
  using assms
proof (induction n arbitrary: d s m i)
  case (Suc n)
  let ?m = "m(d := m s)"
  have "d \<noteq> d + 1 + of_nat j" if "j < n" for j
    using that Suc.prems(3) of_nat_u32_neq_0 [of "Suc j"] by (simp add: add.assoc)
  then have d: "copy_up n (d + 1) (s + 1) ?m d = m s" by (subst copy_up_other) simp_all
  show ?case
  proof (cases i)
    case (Suc k)
    have "d + 1 + of_nat b \<noteq> s + 1 + of_nat a" if "a < n" "b < a" for a b
      using Suc.prems(1) [of "Suc a" "Suc b"] that by (simp add: ac_simps)
    then have "copy_up n (d + 1) (s + 1) ?m (d + 1 + of_nat k) = ?m (s + 1 + of_nat k)"
      using Suc.prems Suc by (intro Suc.IH) simp_all
    moreover have "s + 1 + of_nat k \<noteq> d" using Suc.prems(1) [of i 0] Suc.prems(2) Suc by (simp add: ac_simps)
    ultimately show ?thesis using Suc by (simp add: ac_simps)
  qed (simp add: d)
qed simp

lemma copy_down_ok:
  assumes "\<And>i j. i < n \<Longrightarrow> j < i \<Longrightarrow> d - of_nat (Suc j) \<noteq> s - of_nat (Suc i)" and "i < n" and "n < 4294967296"
  shows "copy_down n d s m (d - of_nat (Suc i)) = m (s - of_nat (Suc i))"
  using assms
proof (induction n arbitrary: d s m i)
  case (Suc n)
  let ?m = "m(d - 1 := m (s - 1))"
  have "d - 1 \<noteq> d - 1 - of_nat (Suc j)" if "j < n" for j
    using that Suc.prems(3) of_nat_u32_neq_0 [of "Suc j"] by (intro u32_neq_sub) simp
  then have d: "copy_down n (d - 1) (s - 1) ?m (d - 1) = m (s - 1)" by (subst copy_down_other) simp_all
  show ?case
  proof (cases i)
    case (Suc k)
    have "d - 1 - of_nat (Suc b) \<noteq> s - 1 - of_nat (Suc a)" if "a < n" "b < a" for a b
      using Suc.prems(1) [of "Suc a" "Suc b"] that by (simp add: diff_diff_eq)
    then have "copy_down n (d - 1) (s - 1) ?m (d - 1 - of_nat (Suc k)) = ?m (s - 1 - of_nat (Suc k))"
      using Suc.prems Suc by (intro Suc.IH) simp_all
    moreover have "s - 1 - of_nat (Suc k) \<noteq> d - 1"
      using Suc.prems(1) [of i 0] Suc.prems(2) Suc by (simp add: diff_diff_eq)
    ultimately show ?thesis using Suc by (simp add: diff_diff_eq)
  qed (simp add: d)
qed simp

lemma unat_off: "unat (x :: u32) + k < 4294967296 \<Longrightarrow> unat (x + of_nat k) = unat x + k"
  by (simp add: unat_u32_add unat_of_nat_u32)

lemma u32_off_eq: "a = (d :: u32) + of_nat (unat (a - d))"
  by simp

text \<open>\<open>memmove\<close> copies \<open>n\<close> bytes as they were before the call, also when the areas overlap.\<close>

lemma outside_area:
  fixes a d n :: u32
  assumes "\<not> a - d < n" and "i < unat n"
  shows "a \<noteq> d + of_nat i"
proof
  assume "a = d + of_nat i"
  then have "a - d = of_nat i" by simp
  moreover have "unat (of_nat i :: u32) = i"
    using assms(2) unat_u32_less [of n] by (intro unat_of_nat_u32) linarith
  ultimately have "unat (a - d) = i" by simp
  then show False using assms by (simp add: word_less_nat_alt)
qed

lemma memmove_up:
  assumes s: "unat s + unat n < 4294967296" and d: "unat d + unat n < 4294967296"
    and safe: "unat d \<le> unat s \<or> unat s + unat n \<le> unat d"
  shows "copy_up (unat n) d s m a = (if a - d < n then m (s + (a - d)) else m a)"
proof (cases "a - d < n")
  case False
  then show ?thesis using outside_area [OF False] by (simp add: copy_up_other)
next
  case True
  then have i: "unat (a - d) < unat n" by (simp add: word_less_nat_alt)
  have up: "d + of_nat j \<noteq> s + of_nat i" if "i < unat n" "j < i" for i j
  proof
    assume "d + of_nat j = s + of_nat i"
    then have "unat (d + of_nat j) = unat (s + of_nat i)" by (rule arg_cong)
    moreover have "unat (d + of_nat j) = unat d + j" "unat (s + of_nat i) = unat s + i"
      using that s d by (intro unat_off; linarith)+
    ultimately show False using safe that by linarith
  qed
  have "copy_up (unat n) d s m (d + of_nat (unat (a - d))) = m (s + of_nat (unat (a - d)))"
    by (rule copy_up_ok [OF up i unat_u32_less])
  then show ?thesis using True by simp
qed

lemma memmove_down:
  assumes s: "unat s + unat n < 4294967296" and d: "unat d + unat n < 4294967296"
    and lt: "unat s < unat d"
  shows "copy_down (unat n) (d + n) (s + n) m a = (if a - d < n then m (s + (a - d)) else m a)"
proof -
  have bk: "x + n - of_nat (Suc i) = x + of_nat (unat n - Suc i)" if "i < unat n" for x i
  proof -
    have "(of_nat (unat n - Suc i) :: u32) = of_nat (unat n) - of_nat (Suc i)"
      using that by (simp only: of_nat_diff Suc_leI)
    then show ?thesis by (simp add: add_diff_eq)
  qed
  have down: "d + n - of_nat (Suc j) \<noteq> s + n - of_nat (Suc i)" if "i < unat n" "j < i" for i j
  proof
    assume eq: "d + n - of_nat (Suc j) = s + n - of_nat (Suc i)"
    have "unat (d + of_nat (unat n - Suc j)) = unat (s + of_nat (unat n - Suc i))"
      using eq bk [of j d] bk [of i s] that by (simp only: less_trans)
    moreover have "unat (d + of_nat (unat n - Suc j)) = unat d + (unat n - Suc j)"
      "unat (s + of_nat (unat n - Suc i)) = unat s + (unat n - Suc i)"
      using s d by (intro unat_off; linarith)+
    ultimately show False using lt that by linarith
  qed
  show ?thesis
  proof (cases "a - d < n")
    case True
    then have i: "unat (a - d) < unat n" by (simp add: word_less_nat_alt)
    define j where "j = unat n - Suc (unat (a - d))"
    have j: "j < unat n" "unat n - Suc j = unat (a - d)" using i by (simp_all add: j_def)
    have "copy_down (unat n) (d + n) (s + n) m (d + n - of_nat (Suc j)) = m (s + n - of_nat (Suc j))"
      by (rule copy_down_ok [OF down j(1) unat_u32_less])
    then have "copy_down (unat n) (d + n) (s + n) m (d + of_nat (unat (a - d))) = m (s + of_nat (unat (a - d)))"
      by (simp only: bk [OF j(1)] j(2))
    then show ?thesis using True by simp
  next
    case False
    have "a \<noteq> d + n - of_nat (Suc i)" if "i < unat n" for i
      unfolding bk [OF that] by (rule outside_area [OF False]) (use that in linarith)
    then have "copy_down (unat n) (d + n) (s + n) m a = m a" by (rule copy_down_other)
    then show ?thesis using False by simp
  qed
qed

lemma memmove_ok:
  assumes s: "unat s + unat n < 4294967296" and d: "unat d + unat n < 4294967296"
  shows "memmove m d s n a = (if a - d < n then m (s + (a - d)) else m a)"
proof (cases "s < d \<and> s + n > d")
  case True
  then have "unat s < unat d" by (simp add: word_less_nat_alt)
  then show ?thesis using memmove_down [OF s d] True by (simp add: memmove_def)
next
  case False
  have "unat (s + n) = unat s + unat n" using s by (simp add: unat_u32_add)
  then have "unat d \<le> unat s \<or> unat s + unat n \<le> unat d"
    using False by (simp add: word_less_nat_alt) linarith
  moreover have "memmove m d s n a = copy_up (unat n) d s m a" using False by (simp only: memmove_def if_False)
  ultimately show ?thesis using memmove_up [OF s d] by simp
qed

end
