(* ===== verification/Fs.thy ===== *)
theory Fs
  imports Log Str
begin

text \<open>
  The file system (first half of \<^verbatim>\<open>fs.c\<close>, and \<^verbatim>\<open>fs.h\<close>).

  This theory has the free block map and the inode operations; an inode pointer is an index
  into \<open>icache\<close> and a null pointer is \<open>None\<close>.
\<close>

definition ROOTINO :: u32 where [simp]: "ROOTINO = 1"
definition NDIRECT :: nat where [simp]: "NDIRECT = 12"
definition NINDIRECT :: nat where [simp]: "NINDIRECT = BSIZE div 4"
definition MAXFILE :: nat where [simp]: "MAXFILE = NDIRECT + NINDIRECT"
definition DIRSIZ :: nat where [simp]: "DIRSIZ = 14"
definition T_DIR :: u16 where [simp]: "T_DIR = 1"
definition T_FILE :: u16 where [simp]: "T_FILE = 2"
definition T_DEV :: u16 where [simp]: "T_DEV = 3"

record dinode =
  dtype :: u16
  dmajor :: u16
  dminor :: u16
  dnlink :: u16
  dsize :: u32
  daddrs :: "u32 list"

record inode =
  idev :: u32
  inum :: u32
  iref :: i32
  ilk :: sleeplock
  ivalid :: bool
  itype :: u16
  imajor :: u16
  iminor :: u16
  inlink :: u16
  isize :: u32
  iaddrs :: "u32 list"

record stat =
  st_type :: u16
  st_dev :: i32
  st_ino :: u32
  st_nlink :: u16
  st_size :: u32

record ist = lst +
  icache :: "inode list"
  sb :: superblock

text \<open>A directory entry is a 16-bit inode number and \<open>DIRSIZ\<close> bytes of name.\<close>

record dirent =
  de_inum :: u16
  de_name :: "u8 list"

text \<open>\<open>sizeof(struct dinode)\<close> is 64, so that \<open>IPB\<close> is 8.\<close>

definition IPB :: u32 where [simp]: "IPB = 8"
definition IBLOCK :: "u32 \<Rightarrow> superblock \<Rightarrow> u32" where
  "IBLOCK i v = i div IPB + sb_inodestart v"
definition BPB :: nat where [simp]: "BPB = BSIZE * 8"
definition BBLOCK :: "u32 \<Rightarrow> superblock \<Rightarrow> u32" where
  "BBLOCK b v = b div of_nat BPB + sb_bmapstart v"

text \<open>The inode in slot \<open>k\<close> of a block, and storing one there.\<close>

definition get_dinode :: "nat \<Rightarrow> block \<Rightarrow> dinode" where
  "get_dinode k bs = \<lparr>dtype = le16 bs (64 * k), dmajor = le16 bs (64 * k + 2),
     dminor = le16 bs (64 * k + 4), dnlink = le16 bs (64 * k + 6), dsize = le32 bs (64 * k + 8),
     daddrs = map (\<lambda>j. le32 bs (64 * k + 12 + 4 * j)) [0..<NDIRECT + 1]\<rparr>"

definition put_dinode :: "nat \<Rightarrow> dinode \<Rightarrow> block \<Rightarrow> block" where
  "put_dinode k d bs =
     (let bs = put16 (64 * k) (dtype d) bs;
          bs = put16 (64 * k + 2) (dmajor d) bs;
          bs = put16 (64 * k + 4) (dminor d) bs;
          bs = put16 (64 * k + 6) (dnlink d) bs;
          bs = put32 (64 * k + 8) (dsize d) bs
      in fold (\<lambda>j bs. put32 (64 * k + 12 + 4 * j) (daddrs d ! j) bs) [0..<NDIRECT + 1] bs)"

definition seti :: "nat \<Rightarrow> (inode \<Rightarrow> inode) \<Rightarrow> 'z ist_scheme \<Rightarrow> 'z ist_scheme" where
  "seti i f s = s\<lparr>icache := upd i f (icache s)\<rparr>"

subsection \<open>Blocks\<close>

definition bzero :: "u32 \<Rightarrow> u32 \<Rightarrow> 'z lst_scheme \<Rightarrow> 'z lst_scheme res" where
  "bzero dev bno s =
     bnd (bread dev bno s) (\<lambda>(bp, s).
     bnd (log_write bp (put_data bp (replicate BSIZE 0) s)) (brelse bp))"

text \<open>Bit \<open>bi\<close> of a map block.\<close>

definition map_bit :: "block \<Rightarrow> nat \<Rightarrow> bool" where
  "map_bit bs bi = bit (bs ! (bi div 8)) (bi mod 8)"

definition set_map_bit :: "nat \<Rightarrow> bool \<Rightarrow> block \<Rightarrow> block" where
  "set_map_bit bi v bs = bs[bi div 8 :=
     (if v then (bs ! (bi div 8)) OR push_bit (bi mod 8) 1
      else (bs ! (bi div 8)) AND NOT (push_bit (bi mod 8) 1))]"

text \<open>
  The outer loop of \<open>balloc\<close> on the remaining first block numbers \<open>b\<close>, and its inner loop over
  the bits of one map block.
\<close>

fun balloc_loop :: "u32 \<Rightarrow> nat list \<Rightarrow> 'z ist_scheme \<Rightarrow> (u32 \<times> 'z ist_scheme) res" where
  "balloc_loop dev [] s = panic ''balloc: out of blocks''"
| "balloc_loop dev (b # bs) s =
     bnd (bread dev (BBLOCK (of_nat b) (sb s)) s) (\<lambda>(bp, s).
       case first_idx (\<lambda>bi. \<not> map_bit (bdata (bufs s ! bp)) bi)
              [0..<min BPB (unat (sb_size (sb s)) - b)] of
         Some bi \<Rightarrow>
           let s = put_data bp (set_map_bit bi True (bdata (bufs s ! bp))) s
           in bnd (log_write bp s) (\<lambda>s.
              bnd (brelse bp s) (\<lambda>s.
              bnd (bzero dev (of_nat (b + bi)) s) (\<lambda>s. Inr (of_nat (b + bi), s))))
       | None \<Rightarrow> bnd (brelse bp s) (balloc_loop dev bs))"

definition balloc :: "u32 \<Rightarrow> 'z ist_scheme \<Rightarrow> (u32 \<times> 'z ist_scheme) res" where
  "balloc dev s =
     balloc_loop dev (map (\<lambda>k. BPB * k) [0..<(unat (sb_size (sb s)) + BPB - 1) div BPB]) s"

definition bfree :: "u32 \<Rightarrow> u32 \<Rightarrow> 'z ist_scheme \<Rightarrow> 'z ist_scheme res" where
  "bfree dev b s =
     bnd (bread dev (BBLOCK b (sb s)) s) (\<lambda>(bp, s).
       let bi = unat b mod BPB
       in if \<not> map_bit (bdata (bufs s ! bp)) bi then panic ''freeing free block''
          else let s = put_data bp (set_map_bit bi False (bdata (bufs s ! bp))) s
               in bnd (log_write bp s) (brelse bp))"

subsection \<open>Inodes\<close>

definition iget :: "u32 \<Rightarrow> u32 \<Rightarrow> 'z ist_scheme \<Rightarrow> (nat \<times> 'z ist_scheme) res" where
  "iget dev ino s =
     bnd (acq LIcache s) (\<lambda>s.
       case first_idx (\<lambda>ip. 0 < sint (iref ip) \<and> idev ip = dev \<and> inum ip = ino) (icache s) of
         Some i \<Rightarrow>
           bnd (rel LIcache (seti i (\<lambda>x. x\<lparr>iref := iref x + 1\<rparr>) s)) (\<lambda>s. Inr (i, s))
       | None \<Rightarrow>
         (case first_idx (\<lambda>ip. iref ip = 0) (icache s) of
            None \<Rightarrow> panic ''iget: no inodes''
          | Some i \<Rightarrow>
              bnd (rel LIcache (seti i (\<lambda>x. x\<lparr>idev := dev, inum := ino, iref := 1, ivalid := False\<rparr>) s))
                (\<lambda>s. Inr (i, s))))"

fun ialloc_loop :: "u32 \<Rightarrow> u16 \<Rightarrow> u32 list \<Rightarrow> 'z ist_scheme \<Rightarrow> (nat \<times> 'z ist_scheme) res" where
  "ialloc_loop dev ty [] s = panic ''ialloc: no inodes''"
| "ialloc_loop dev ty (ino # inos) s =
     bnd (bread dev (IBLOCK ino (sb s)) s) (\<lambda>(bp, s).
       let k = unat (ino mod IPB)
       in if dtype (get_dinode k (bdata (bufs s ! bp))) = 0
          then let s = put_data bp (put16 (64 * k) ty (splice (64 * k) (replicate 64 0) (bdata (bufs s ! bp)))) s
               in bnd (log_write bp s) (\<lambda>s. bnd (brelse bp s) (iget dev ino))
          else bnd (brelse bp s) (ialloc_loop dev ty inos))"

definition ialloc :: "u32 \<Rightarrow> u16 \<Rightarrow> 'z ist_scheme \<Rightarrow> (nat \<times> 'z ist_scheme) res" where
  "ialloc dev ty s = ialloc_loop dev ty (map of_nat [1..<unat (sb_ninodes (sb s))]) s"

definition iupdate :: "nat \<Rightarrow> 'z ist_scheme \<Rightarrow> 'z ist_scheme res" where
  "iupdate i s =
     bnd (bread (idev (icache s ! i)) (IBLOCK (inum (icache s ! i)) (sb s)) s) (\<lambda>(bp, s).
       let ip = icache s ! i;
           d = \<lparr>dtype = itype ip, dmajor = imajor ip, dminor = iminor ip, dnlink = inlink ip,
                dsize = isize ip, daddrs = iaddrs ip\<rparr>;
           s = put_data bp (put_dinode (unat (inum ip mod IPB)) d (bdata (bufs s ! bp))) s
       in bnd (log_write bp s) (brelse bp))"

definition idup :: "nat \<Rightarrow> 'z ist_scheme \<Rightarrow> (nat \<times> 'z ist_scheme) res" where
  "idup i s =
     bnd (acq LIcache s) (\<lambda>s.
     bnd (rel LIcache (seti i (\<lambda>x. x\<lparr>iref := iref x + 1\<rparr>) s)) (\<lambda>s. Inr (i, s)))"

definition ilock :: "nat option \<Rightarrow> 'z ist_scheme \<Rightarrow> 'z ist_scheme res" where
  "ilock ip s =
     (case ip of None \<Rightarrow> panic ''ilock'' | Some i \<Rightarrow>
        if sint (iref (icache s ! i)) < 1 then panic ''ilock''
        else bnd (acquiresleep (LInode i) (ChInodeLock i) (ilk (icache s ! i)) s) (\<lambda>(lk, s).
             let s = seti i (\<lambda>x. x\<lparr>ilk := lk\<rparr>) s
             in if \<not> ivalid (icache s ! i)
                then bnd (bread (idev (icache s ! i)) (IBLOCK (inum (icache s ! i)) (sb s)) s) (\<lambda>(bp, s).
                     let d = get_dinode (unat (inum (icache s ! i) mod IPB)) (bdata (bufs s ! bp));
                         s = seti i (\<lambda>x. x\<lparr>itype := dtype d, imajor := dmajor d, iminor := dminor d,
                               inlink := dnlink d, isize := dsize d, iaddrs := daddrs d\<rparr>) s
                     in bnd (brelse bp s) (\<lambda>s.
                        let s = seti i (\<lambda>x. x\<lparr>ivalid := True\<rparr>) s
                        in if itype (icache s ! i) = 0 then panic ''ilock: no type'' else Inr s))
                else Inr s))"

definition iunlock :: "nat option \<Rightarrow> 'z ist_scheme \<Rightarrow> 'z ist_scheme res" where
  "iunlock ip s =
     (case ip of None \<Rightarrow> panic ''iunlock'' | Some i \<Rightarrow>
        bnd (holdingsleep (LInode i) (ilk (icache s ! i)) s) (\<lambda>(h, s).
          if \<not> h \<or> sint (iref (icache s ! i)) < 1 then panic ''iunlock''
          else bnd (releasesleep (LInode i) (ChInodeLock i) (ilk (icache s ! i)) s) (\<lambda>(lk, s).
               Inr (seti i (\<lambda>x. x\<lparr>ilk := lk\<rparr>) s))))"

text \<open>\<open>if(ip->addrs[i]) { bfree(ip->dev, ip->addrs[i]); ip->addrs[i] = 0; }\<close>\<close>

definition free_direct :: "nat \<Rightarrow> nat \<Rightarrow> 'z ist_scheme \<Rightarrow> 'z ist_scheme res" where
  "free_direct i k s =
     (if iaddrs (icache s ! i) ! k \<noteq> 0
      then bnd (bfree (idev (icache s ! i)) (iaddrs (icache s ! i) ! k) s) (\<lambda>s.
           Inr (seti i (\<lambda>x. x\<lparr>iaddrs := (iaddrs x)[k := 0]\<rparr>) s))
      else Inr s)"

definition itrunc :: "nat \<Rightarrow> 'z ist_scheme \<Rightarrow> 'z ist_scheme res" where
  "itrunc i s =
     bnd (foldm (free_direct i) [0..<NDIRECT] s) (\<lambda>s.
     bnd (if iaddrs (icache s ! i) ! NDIRECT \<noteq> 0
          then bnd (bread (idev (icache s ! i)) (iaddrs (icache s ! i) ! NDIRECT) s) (\<lambda>(bp, s).
               bnd (foldm (\<lambda>j s. let a = le32 (bdata (bufs s ! bp)) (4 * j)
                            in if a \<noteq> 0 then bfree (idev (icache s ! i)) a s else Inr s)
                      [0..<NINDIRECT] s) (\<lambda>s.
               bnd (brelse bp s) (free_direct i NDIRECT)))
          else Inr s) (\<lambda>s.
     iupdate i (seti i (\<lambda>x. x\<lparr>isize := 0\<rparr>) s)))"

definition iput :: "nat \<Rightarrow> 'z ist_scheme \<Rightarrow> 'z ist_scheme res" where
  "iput i s =
     bnd (acquiresleep (LInode i) (ChInodeLock i) (ilk (icache s ! i)) s) (\<lambda>(lk, s).
     let s = seti i (\<lambda>x. x\<lparr>ilk := lk\<rparr>) s
     in bnd (if ivalid (icache s ! i) \<and> inlink (icache s ! i) = 0
             then bnd (acq LIcache s) (\<lambda>s.
                  let r = iref (icache s ! i)
                  in bnd (rel LIcache s) (\<lambda>s.
                     if r = 1
                     then bnd (itrunc i s) (\<lambda>s.
                          bnd (iupdate i (seti i (\<lambda>x. x\<lparr>itype := 0\<rparr>) s)) (\<lambda>s.
                          Inr (seti i (\<lambda>x. x\<lparr>ivalid := False\<rparr>) s)))
                     else Inr s))
             else Inr s) (\<lambda>s.
        bnd (releasesleep (LInode i) (ChInodeLock i) (ilk (icache s ! i)) s) (\<lambda>(lk, s).
        let s = seti i (\<lambda>x. x\<lparr>ilk := lk\<rparr>) s
        in bnd (acq LIcache s) (\<lambda>s.
           rel LIcache (seti i (\<lambda>x. x\<lparr>iref := iref x - 1\<rparr>) s)))))"

definition iunlockput :: "nat \<Rightarrow> 'z ist_scheme \<Rightarrow> 'z ist_scheme res" where
  "iunlockput i s = bnd (iunlock (Some i) s) (iput i)"

definition stati :: "nat \<Rightarrow> 'z ist_scheme \<Rightarrow> stat" where
  "stati i s = (let ip = icache s ! i in
     \<lparr>st_type = itype ip, st_dev = idev ip, st_ino = inum ip, st_nlink = inlink ip, st_size = isize ip\<rparr>)"

end
