(* ===== verification/Console.thy ===== *)
theory Console
  imports Fs
begin

text \<open>
  The console (\<^verbatim>\<open>console.c\<close>), the serial port's output (\<^verbatim>\<open>uart.c\<close>), the keyboard
  (\<^verbatim>\<open>kbd.c\<close>, \<^verbatim>\<open>kbd.h\<close>) and \<open>procdump\<close> (\<^verbatim>\<open>proc.c\<close>), which the console calls.

  \<open>crt\<close> is the CGA memory, \<open>cgapos\<close> the cursor register of the display, \<open>uart_out\<close> what has
  been sent to the serial port.  \<open>panic\<close> itself is the value \<open>Panic\<close>; \<open>panicked\<close> is the flag
  with which it stops the other processors.  The device switch holds which routines the
  kernel has installed: the console is the only device.
\<close>

definition BACKSPACE :: nat where [simp]: "BACKSPACE = 0x100"
definition INPUT_BUF :: nat where [simp]: "INPUT_BUF = 128"
definition CONSOLE :: nat where [simp]: "CONSOLE = 1"

record cinput =
  ibuf :: "u8 list"
  ir :: u32
  iw :: u32
  ie :: u32

datatype dev = ConsoleDev

record cst = ist +
  cons_locking :: bool
  panicked :: bool
  cgapos :: int
  crt :: "nat \<Rightarrow> u16"
  uart :: bool
  uart_out :: "u8 list"
  input :: cinput
  devsw :: "dev option list"
  kbd_shift :: u32

subsection \<open>Output\<close>

text \<open>The delay loop of \<open>uartputc\<close> waits for the device and is left out.\<close>

definition uartputc :: "u8 \<Rightarrow> 'z cst_scheme \<Rightarrow> 'z cst_scheme" where
  "uartputc c s = (if \<not> uart s then s else s\<lparr>uart_out := uart_out s @ [c]\<rparr>)"

definition cgaputc :: "nat \<Rightarrow> 'z cst_scheme \<Rightarrow> 'z cst_scheme res" where
  "cgaputc c s =
     (let pos = cgapos s;
          (pos, s) =
            (if c = 10 then (pos + (80 - pos mod 80), s)
             else if c = BACKSPACE then (if pos > 0 then pos - 1 else pos, s)
             else (pos + 1, s\<lparr>crt := (crt s)(nat pos := (of_nat c AND 0xFF) OR 0x0700)\<rparr>))
      in if pos < 0 \<or> pos > 25 * 80 then panic ''pos under/overflow''
         else let (pos, s) =
                (if pos div 80 \<ge> 24
                 then let s = s\<lparr>crt := (\<lambda>i. if i < 23 * 80 then crt s (i + 80) else crt s i)\<rparr>;
                          pos = pos - 80
                      in (pos, s\<lparr>crt := (\<lambda>i. if nat pos \<le> i \<and> i < 24 * 80 then 0 else crt s i)\<rparr>)
                 else (pos, s))
              in Inr (s\<lparr>cgapos := pos, crt := (crt s)(nat pos := 0x0720)\<rparr>))"

definition consputc :: "nat \<Rightarrow> 'z cst_scheme \<Rightarrow> 'z cst_scheme res" where
  "consputc c s =
     (if panicked s then Inl Spin
      else let s = (if c = BACKSPACE then uartputc 8 (uartputc 32 (uartputc 8 s)) else uartputc (of_nat c) s)
           in cgaputc c s)"

definition digit_char :: "u8 list \<Rightarrow> u32 \<Rightarrow> u8" where
  "digit_char ds d = ds ! unat d"

definition lower_digits :: "u8 list" where
  "lower_digits = map of_char ''0123456789abcdef''"

text \<open>
  The loop \<open>do buf[i++] = digits[x % base]; while((x /= base) != 0)\<close>, which both \<open>printint\<close>
  routines of the system use, with a base of 10 or 16.
\<close>

function int_digits :: "u8 list \<Rightarrow> u32 \<Rightarrow> u32 \<Rightarrow> u8 list" where
  "int_digits ds base x =
     (if base \<le> 1 then []
      else digit_char ds (x mod base) # (if x div base = 0 then [] else int_digits ds base (x div base)))"
  by pat_completeness auto
termination
proof (relation "measure (\<lambda>(ds, base, x). unat x)", goal_cases)
  case (2 ds base x)
  have "1 < unat base" using 2(1) by (simp add: word_le_nat_alt not_le)
  moreover have "x \<noteq> 0" using 2(2) by auto
  then have "0 < unat x" by (simp add: unat_gt_0)
  ultimately show ?case by (simp add: unat_div)
qed simp

declare int_digits.simps [simp del]

definition printint :: "i32 \<Rightarrow> u32 \<Rightarrow> bool \<Rightarrow> u8 list" where
  "printint xx base sign =
     (let neg = (sign \<and> sint xx < 0);
          x = (if neg then - xx else xx)
      in rev (int_digits lower_digits base x @ (if neg then [45] else [])))"

text \<open>An argument of \<open>cprintf\<close>: a word, or a pointer to a string.\<close>

datatype carg = AInt u32 | AStr "u8 list"

definition emit :: "u8 list \<Rightarrow> u8 list res \<Rightarrow> u8 list res" where
  "emit xs r = bnd r (\<lambda>ys. Inr (xs @ ys))"

text \<open>
  The characters that the loop of \<open>cprintf\<close> puts out.  A conversion without a matching
  argument reads past the arguments.
\<close>

fun cformat :: "u8 list \<Rightarrow> carg list \<Rightarrow> u8 list res" where
  "cformat [] args = Inr []"
| "cformat (c # fmt) args =
     (if c = 0 then Inr []
      else if c \<noteq> 37 then emit [c] (cformat fmt args)
      else case fmt of [] \<Rightarrow> Inr []
      | d # fmt \<Rightarrow>
          if d = 0 then Inr []
          else if d = 100
          then (case args of AInt v # args \<Rightarrow> emit (printint v 10 True) (cformat fmt args) | _ \<Rightarrow> Inl OutOfRange)
          else if d = 120 \<or> d = 112
          then (case args of AInt v # args \<Rightarrow> emit (printint v 16 False) (cformat fmt args) | _ \<Rightarrow> Inl OutOfRange)
          else if d = 115
          then (case args of AStr t # args \<Rightarrow> emit (cstr t) (cformat fmt args)
                | AInt v # args \<Rightarrow> if v = 0 then emit (map of_char ''(null)'') (cformat fmt args) else Inl OutOfRange
                | [] \<Rightarrow> Inl OutOfRange)
          else if d = 37 then emit [37] (cformat fmt args)
          else emit [37, d] (cformat fmt args))"

definition put_all :: "u8 list \<Rightarrow> 'z cst_scheme \<Rightarrow> 'z cst_scheme res" where
  "put_all cs s = foldm (\<lambda>c. consputc (unat c)) cs s"

definition cprintf :: "u8 list option \<Rightarrow> carg list \<Rightarrow> 'z cst_scheme \<Rightarrow> 'z cst_scheme res" where
  "cprintf fmt args s =
     (let locking = cons_locking s
      in bnd (if locking then acq LCons s else Inr s) (\<lambda>s.
         case fmt of None \<Rightarrow> panic ''null fmt''
         | Some f \<Rightarrow>
           bnd (cformat f args) (\<lambda>cs.
           bnd (put_all cs s) (\<lambda>s.
           if locking then rel LCons s else Inr s))))"

subsection \<open>Process listing\<close>

fun pcs_loop :: "nat \<Rightarrow> (u32 \<Rightarrow> u32) \<Rightarrow> u32 \<Rightarrow> u32 list" where
  "pcs_loop 0 m ebp = []"
| "pcs_loop (Suc n) m ebp =
     (if ebp = 0 \<or> ebp < KERNBASE \<or> ebp = 0xFFFFFFFF then replicate (Suc n) 0
      else m (ebp + 4) # pcs_loop n m (m ebp))"

definition getcallerpcs :: "(u32 \<Rightarrow> u32) \<Rightarrow> u32 \<Rightarrow> u32 list" where
  "getcallerpcs m v = pcs_loop 10 m (v - 8)"

definition state_name :: "procstate \<Rightarrow> string" where
  "state_name st = (case st of UNUSED \<Rightarrow> ''unused'' | EMBRYO \<Rightarrow> ''embryo'' | SLEEPING \<Rightarrow> ''sleep ''
     | RUNNABLE \<Rightarrow> ''runble'' | RUNNING \<Rightarrow> ''run   '' | ZOMBIE \<Rightarrow> ''zombie'')"

text \<open>In \<open>struct context\<close>, \<open>ebp\<close> is the word at offset 12.\<close>

definition procdump :: "'z cst_scheme \<Rightarrow> 'z cst_scheme res" where
  "procdump s =
     foldm (\<lambda>i s.
       let p = procs s ! i
       in if pstate p = UNUSED then Inr s
          else bnd (cprintf (Some (map of_char ''%d %s %s %d''))
                      [AInt (pid p), AStr (map of_char (state_name (pstate p))),
                       AStr (map of_char (pname p)), AInt (of_int (pqueue p))] s) (\<lambda>s.
               bnd (if pstate p = SLEEPING
                    then foldm (\<lambda>pc s. cprintf (Some (map of_char '' %p'')) [AInt pc] s)
                           (takeWhile (\<lambda>pc. pc \<noteq> 0) (getcallerpcs (mem s) (mem s (ctx p + 12) + 8))) s
                    else Inr s) (\<lambda>s.
               cprintf (Some [10]) [] s)))
       [0..<NPROC] s"

subsection \<open>Input\<close>

definition buf_at :: "cinput \<Rightarrow> u32 \<Rightarrow> u8" where
  "buf_at q i = ibuf q ! (unat i mod INPUT_BUF)"

definition setinput :: "(cinput \<Rightarrow> cinput) \<Rightarrow> 'z cst_scheme \<Rightarrow> 'z cst_scheme" where
  "setinput f s = s\<lparr>input := f (input s)\<rparr>"

lemma cgaputc_input: "cgaputc c s = Inr s' \<Longrightarrow> input s' = input s"
  by (auto simp: cgaputc_def Let_def split: if_splits)

lemma consputc_input: "consputc c s = Inr s' \<Longrightarrow> input s' = input s"
  by (auto simp: consputc_def uartputc_def Let_def dest!: cgaputc_input split: if_splits)

text \<open>The loop that erases the line: as long as there are characters after \<open>w\<close> and the last one
  is not a newline.\<close>

function kill_line :: "'z cst_scheme \<Rightarrow> 'z cst_scheme res" where
  "kill_line s =
     (if ie (input s) \<noteq> iw (input s) \<and> buf_at (input s) (ie (input s) - 1) \<noteq> 10
      then bnd (consputc BACKSPACE (setinput (\<lambda>q. q\<lparr>ie := ie q - 1\<rparr>) s)) kill_line
      else Inr s)"
  by pat_completeness auto
termination
proof (relation "measure (\<lambda>s. unat (ie (input s) - iw (input s)))", goal_cases)
  case (2 s s')
  have "input s' = (input s)\<lparr>ie := ie (input s) - 1\<rparr>"
    using consputc_input [OF 2(2)] by (simp add: setinput_def)
  moreover have "ie (input s) - iw (input s) \<noteq> 0" using 2(1) by simp
  then have "unat (ie (input s) - iw (input s) - 1) < unat (ie (input s) - iw (input s))"
    by (rule unat_pred_u32)
  ultimately show ?case by (simp add: diff_right_commute)
qed simp

declare kill_line.simps [simp del]

text \<open>
  One character of input.  The result says whether a process listing was asked for.
\<close>

definition console_char :: "nat \<Rightarrow> 'z cst_scheme \<Rightarrow> (bool \<times> 'z cst_scheme) res" where
  "console_char c s =
     (if c = 16 then Inr (True, s)
      else if c = 21 then bnd (kill_line s) (\<lambda>s. Inr (False, s))
      else if c = 8 \<or> c = 0x7F
      then if ie (input s) \<noteq> iw (input s)
           then bnd (consputc BACKSPACE (setinput (\<lambda>q. q\<lparr>ie := ie q - 1\<rparr>) s)) (\<lambda>s. Inr (False, s))
           else Inr (False, s)
      else if c \<noteq> 0 \<and> ie (input s) - ir (input s) < of_nat INPUT_BUF
      then let c = (if c = 13 then 10 else c);
               s = setinput (\<lambda>q. q\<lparr>ibuf := (ibuf q)[unat (ie q) mod INPUT_BUF := of_nat c], ie := ie q + 1\<rparr>) s
           in bnd (consputc c s) (\<lambda>s.
              if c = 10 \<or> c = 4 \<or> ie (input s) = ir (input s) + of_nat INPUT_BUF
              then bnd (wakeup ChInput (setinput (\<lambda>q. q\<lparr>iw := ie q\<rparr>) s)) (\<lambda>s. Inr (False, s))
              else Inr (False, s))
      else Inr (False, s))"

fun intr_loop :: "nat list \<Rightarrow> bool \<Rightarrow> 'z cst_scheme \<Rightarrow> (bool \<times> 'z cst_scheme) res" where
  "intr_loop [] dump s = Inr (dump, s)"
| "intr_loop (c # cs) dump s =
     bnd (console_char c s) (\<lambda>(d, s). intr_loop cs (dump \<or> d) s)"

text \<open>\<open>consoleintr\<close> on the characters that its \<open>getc\<close> delivers until it returns a negative number.\<close>

definition consoleintr :: "nat list \<Rightarrow> 'z cst_scheme \<Rightarrow> 'z cst_scheme res" where
  "consoleintr cs s =
     bnd (acq LCons s) (\<lambda>s.
     bnd (intr_loop cs False s) (\<lambda>(dump, s).
     bnd (rel LCons s) (\<lambda>s.
     if dump then procdump s else Inr s)))"

text \<open>
  The loop of \<open>consoleread\<close>: \<open>acc\<close> are the bytes stored so far and \<open>n\<close> those still wanted.  The
  result is \<open>None\<close> for a killed process; waiting for input ends the run.
\<close>

fun read_loop :: "nat \<Rightarrow> u8 list \<Rightarrow> 'z cst_scheme \<Rightarrow> (u8 list option \<times> 'z cst_scheme) res" where
  "read_loop 0 acc s = Inr (Some acc, s)"
| "read_loop (Suc n) acc s =
     (if ir (input s) = iw (input s)
      then bnd (myproc s) (\<lambda>(p, s).
           case p of None \<Rightarrow> Inl OutOfRange
           | Some i \<Rightarrow> if killed (procs s ! i) then Inr (None, s) else Inl (Sleeping ChInput))
      else let c = buf_at (input s) (ir (input s));
               s = setinput (\<lambda>q. q\<lparr>ir := ir q + 1\<rparr>) s
           in if c = 4
              then Inr (Some acc, if acc \<noteq> [] then setinput (\<lambda>q. q\<lparr>ir := ir q - 1\<rparr>) s else s)
              else if c = 10 then Inr (Some (acc @ [c]), s)
              else read_loop n (acc @ [c]) s)"

definition consoleread :: "nat \<Rightarrow> i32 \<Rightarrow> 'z cst_scheme \<Rightarrow> (i32 \<times> u8 list \<times> 'z cst_scheme) res" where
  "consoleread ip n s =
     bnd (iunlock (Some ip) s) (\<lambda>s.
     bnd (acq LCons s) (\<lambda>s.
     bnd (read_loop (nat (sint n)) [] s) (\<lambda>(r, s).
     bnd (rel LCons s) (\<lambda>s.
     bnd (ilock (Some ip) s) (\<lambda>s.
     case r of None \<Rightarrow> Inr (-1, [], s) | Some v \<Rightarrow> Inr (of_nat (length v), v, s))))))"

definition consolewrite :: "nat \<Rightarrow> u8 list \<Rightarrow> i32 \<Rightarrow> 'z cst_scheme \<Rightarrow> (i32 \<times> 'z cst_scheme) res" where
  "consolewrite ip src n s =
     bnd (iunlock (Some ip) s) (\<lambda>s.
     bnd (acq LCons s) (\<lambda>s.
     bnd (put_all (take (nat (sint n)) src) s) (\<lambda>s.
     bnd (rel LCons s) (\<lambda>s.
     bnd (ilock (Some ip) s) (\<lambda>s. Inr (n, s))))))"

definition consoleinit :: "'z cst_scheme \<Rightarrow> 'z cst_scheme" where
  "consoleinit s = s\<lparr>locks := (locks s)(LCons := initlock), devsw := (devsw s)[CONSOLE := Some ConsoleDev],
     cons_locking := True\<rparr>"

subsection \<open>Keyboard\<close>

definition key_entry :: "u8 list \<Rightarrow> (nat \<times> u8) list \<Rightarrow> nat \<Rightarrow> u8" where
  "key_entry vs es i =
     (if i < length vs then vs ! i else case map_of es i of Some v \<Rightarrow> v | None \<Rightarrow> 0)"

definition shiftcode :: "nat \<Rightarrow> u32" where
  "shiftcode i = (if i = 0x1D \<or> i = 0x9D then 2 else if i = 0x2A \<or> i = 0x36 then 1
     else if i = 0x38 \<or> i = 0xB8 then 4 else 0)"

definition togglecode :: "nat \<Rightarrow> u32" where
  "togglecode i = (if i = 0x3A then 8 else if i = 0x45 then 16 else if i = 0x46 then 32 else 0)"

definition normalmap :: "nat \<Rightarrow> u8" where
  "normalmap i = key_entry
     [0, 27, 49, 50, 51, 52, 53, 54, 55, 56, 57, 48, 45, 61, 8, 9,
      113, 119, 101, 114, 116, 121, 117, 105, 111, 112, 91, 93, 10, 0, 97, 115,
      100, 102, 103, 104, 106, 107, 108, 59, 39, 96, 0, 92, 122, 120, 99, 118,
      98, 110, 109, 44, 46, 47, 0, 42, 0, 32, 0, 0, 0, 0, 0, 0,
      0, 0, 0, 0, 0, 0, 0, 55, 56, 57, 45, 52, 53, 54, 43, 49,
      50, 51, 48, 46, 0, 0, 0, 0]
     [(156, 10), (181, 47), (200, 226), (208, 227), (201, 230), (209, 231), (203, 228), (205, 229), (151, 224), (207, 225), (210, 232), (211, 233)] i"

definition shiftmap :: "nat \<Rightarrow> u8" where
  "shiftmap i = key_entry
     [0, 27, 33, 64, 35, 36, 37, 94, 38, 42, 40, 41, 95, 43, 8, 9,
      81, 87, 69, 82, 84, 89, 85, 73, 79, 80, 123, 125, 10, 0, 65, 83,
      68, 70, 71, 72, 74, 75, 76, 58, 34, 126, 0, 124, 90, 88, 67, 86,
      66, 78, 77, 60, 62, 63, 0, 42, 0, 32, 0, 0, 0, 0, 0, 0,
      0, 0, 0, 0, 0, 0, 0, 55, 56, 57, 45, 52, 53, 54, 43, 49,
      50, 51, 48, 46, 0, 0, 0, 0]
     [(156, 10), (181, 47), (200, 226), (208, 227), (201, 230), (209, 231), (203, 228), (205, 229), (151, 224), (207, 225), (210, 232), (211, 233)] i"

definition ctlmap :: "nat \<Rightarrow> u8" where
  "ctlmap i = key_entry
     [0, 0, 0, 0, 0, 0, 0, 0, 0, 0, 0, 0, 0, 0, 0, 0,
      17, 23, 5, 18, 20, 25, 21, 9, 15, 16, 0, 0, 13, 0, 1, 19,
      4, 6, 7, 8, 10, 11, 12, 0, 0, 0, 0, 28, 26, 24, 3, 22,
      2, 14, 13, 0, 0, -17, 0, 0]
     [(156, 13), (181, -17), (200, 226), (208, 227), (201, 230), (209, 231), (203, 228), (205, 229), (151, 224), (207, 225), (210, 232), (211, 233)] i"

text \<open>
  \<open>kbdgetc\<close> given the status and the data byte of the keyboard controller and the shift state:
  the result (\<open>None\<close> when there is no data) and the new shift state.
\<close>

definition kbdgetc :: "u32 \<Rightarrow> u32 \<Rightarrow> u32 \<Rightarrow> nat option \<times> u32" where
  "kbdgetc st data shift =
     (if st AND 1 = 0 then (None, shift)
      else if data = 0xE0 then (Some 0, shift OR 64)
      else if data AND 0x80 \<noteq> 0
      then let data = (if shift AND 64 \<noteq> 0 then data else data AND 0x7F)
           in (Some 0, shift AND NOT (shiftcode (unat data) OR 64))
      else let (data, shift) = (if shift AND 64 \<noteq> 0 then (data OR 0x80, shift AND NOT 64) else (data, shift));
               shift = shift OR shiftcode (unat data);
               shift = shift XOR togglecode (unat data);
               k = unat (shift AND 3);
               c = (if k = 0 then normalmap (unat data) else if k = 1 then shiftmap (unat data) else ctlmap (unat data));
               c = (if shift AND 8 \<noteq> 0
                    then if 97 \<le> c \<and> c \<le> 122 then c - 32 else if 65 \<le> c \<and> c \<le> 90 then c + 32 else c
                    else c)
           in (Some (unat c), shift))"

text \<open>\<open>kbdintr\<close> on the status and data bytes that the controller delivers.\<close>

fun kbd_chars :: "(u32 \<times> u32) list \<Rightarrow> u32 \<Rightarrow> nat list \<times> u32" where
  "kbd_chars [] shift = ([], shift)"
| "kbd_chars ((st, data) # ps) shift =
     (case kbdgetc st data shift of (None, shift) \<Rightarrow> ([], shift)
      | (Some c, shift) \<Rightarrow> let (cs, shift) = kbd_chars ps shift in (c # cs, shift))"

definition kbdintr :: "(u32 \<times> u32) list \<Rightarrow> 'z cst_scheme \<Rightarrow> 'z cst_scheme res" where
  "kbdintr ps s =
     (let (cs, shift) = kbd_chars ps (kbd_shift s)
      in consoleintr cs (s\<lparr>kbd_shift := shift\<rparr>))"

end
