(* ===== verification/FsData.thy ===== *)
theory FsData
  imports Console
begin

text \<open>
  The contents of inodes, directories and path names (second half of \<^verbatim>\<open>fs.c\<close>).

  What \<open>readi\<close> stores at its destination is returned as a list of bytes, and \<open>writei\<close> is given
  the bytes at its source.
\<close>

definition iinit :: "i32 \<Rightarrow> 'z cst_scheme \<Rightarrow> 'z cst_scheme res" where
  "iinit dev s =
     (let s = s\<lparr>locks := (locks s)(LIcache := initlock)\<rparr>;
          s = fold (\<lambda>i s. seti i (\<lambda>x. x\<lparr>ilk := initsleeplock\<rparr>)
                (s\<lparr>locks := (locks s)(LInode i := initlock)\<rparr>)) [0..<NINODE] s
      in bnd (readsb dev s) (\<lambda>(v, s).
         cprintf (Some (map of_char (''sb: size %d nblocks %d ninodes %d nlog %d logstart %d inodestart %d bmap start %d'') @ [10]))
           [AInt (sb_size v), AInt (sb_nblocks v), AInt (sb_ninodes v), AInt (sb_nlog v),
            AInt (sb_logstart v), AInt (sb_inodestart v), AInt (sb_bmapstart v)] (s\<lparr>sb := v\<rparr>)))"

definition bmap :: "nat \<Rightarrow> u32 \<Rightarrow> 'z cst_scheme \<Rightarrow> (u32 \<times> 'z cst_scheme) res" where
  "bmap i bn s =
     (if unat bn < NDIRECT
      then let a = iaddrs (icache s ! i) ! unat bn
           in if a = 0
              then bnd (balloc (idev (icache s ! i)) s) (\<lambda>(a, s).
                   Inr (a, seti i (\<lambda>x. x\<lparr>iaddrs := (iaddrs x)[unat bn := a]\<rparr>) s))
              else Inr (a, s)
      else let bn = bn - of_nat NDIRECT
      in if unat bn < NINDIRECT
         then bnd (let a = iaddrs (icache s ! i) ! NDIRECT
                   in if a = 0
                      then bnd (balloc (idev (icache s ! i)) s) (\<lambda>(a, s).
                           Inr (a, seti i (\<lambda>x. x\<lparr>iaddrs := (iaddrs x)[NDIRECT := a]\<rparr>) s))
                      else Inr (a, s)) (\<lambda>(a, s).
              bnd (bread (idev (icache s ! i)) a s) (\<lambda>(bp, s).
              let a = le32 (bdata (bufs s ! bp)) (4 * unat bn)
              in bnd (if a = 0
                      then bnd (balloc (idev (icache s ! i)) s) (\<lambda>(a, s).
                           let s = put_data bp (put32 (4 * unat bn) a (bdata (bufs s ! bp))) s
                           in bnd (log_write bp s) (\<lambda>s. Inr (a, s)))
                      else Inr (a, s)) (\<lambda>(a, s).
                 bnd (brelse bp s) (\<lambda>s. Inr (a, s)))))
         else panic ''bmap: out of range'')"

text \<open>How many bytes one round of the loops of \<open>readi\<close> and \<open>writei\<close> copies: to the end of the
  block, or all that is left.\<close>

definition chunk :: "u32 \<Rightarrow> u32 \<Rightarrow> u32" where
  "chunk off r = min r (of_nat BSIZE - off mod of_nat BSIZE)"

lemma chunk_bounds:
  assumes "r \<noteq> 0"
  shows "0 < unat (chunk off r)" "unat (chunk off r) \<le> unat r" "unat (chunk off r) + unat (off mod 512) \<le> 512"
    "unat (r - chunk off r) = unat r - unat (chunk off r)"
proof -
  have o: "unat (off mod 512) < 512" by (simp add: unat_mod)
  then have u: "unat (512 - off mod 512 :: u32) = 512 - unat (off mod 512)" by (simp add: unat_u32_sub)
  then have c: "unat (chunk off r) = min (unat r) (512 - unat (off mod 512))"
    by (auto simp: chunk_def min_def word_le_nat_alt)
  have "0 < unat r" using assms by (simp add: unat_gt_0)
  then show "0 < unat (chunk off r)" "unat (chunk off r) \<le> unat r" "unat (chunk off r) + unat (off mod 512) \<le> 512"
    using c o by auto
  then show "unat (r - chunk off r) = unat r - unat (chunk off r)" by (simp add: unat_u32_sub)
qed

lemma chunk_less: "r \<noteq> 0 \<Longrightarrow> unat (r - chunk off r) < unat r"
  using chunk_bounds [of r off] by linarith

text \<open>The loop of \<open>readi\<close>: \<open>r\<close> bytes are left, from offset \<open>off\<close> on.\<close>

function readi_loop :: "nat \<Rightarrow> u32 \<Rightarrow> u32 \<Rightarrow> 'z cst_scheme \<Rightarrow> (u8 list \<times> 'z cst_scheme) res" where
  "readi_loop i off r s =
     (if r = 0 then Inr ([], s)
      else bnd (bmap i (off div of_nat BSIZE) s) (\<lambda>(a, s).
           bnd (bread (idev (icache s ! i)) a s) (\<lambda>(bp, s).
           let m = chunk off r;
               v = take (unat m) (drop (unat (off mod of_nat BSIZE)) (bdata (bufs s ! bp)))
           in bnd (brelse bp s) (\<lambda>s.
              bnd (readi_loop i (off + m) (r - m) s) (\<lambda>(w, s). Inr (v @ w, s))))))"
  by pat_completeness auto
termination
  by (relation "measure (\<lambda>(i, off, r, s). unat r)") (auto intro: chunk_less)

declare readi_loop.simps [simp del]

definition readi ::
  "nat \<Rightarrow> u32 \<Rightarrow> u32 \<Rightarrow> 'z cst_scheme \<Rightarrow> (i32 \<times> u8 list \<times> 'z cst_scheme) res" where
  "readi i off n s =
     (let ip = icache s ! i
      in if itype ip = T_DEV
         then if sint (imajor ip) < 0 \<or> sint (imajor ip) \<ge> int NDEV then Inr (-1, [], s)
              else (case devsw s ! unat (imajor ip) of None \<Rightarrow> Inr (-1, [], s) | Some ConsoleDev \<Rightarrow> consoleread i n s)
         else if off > isize ip \<or> off + n < off then Inr (-1, [], s)
         else let n = (if off + n > isize ip then isize ip - off else n)
              in bnd (readi_loop i off n s) (\<lambda>(v, s). Inr (n, v, s)))"

function writei_loop :: "nat \<Rightarrow> u8 list \<Rightarrow> u32 \<Rightarrow> u32 \<Rightarrow> 'z cst_scheme \<Rightarrow> 'z cst_scheme res" where
  "writei_loop i src off r s =
     (if r = 0 then Inr s
      else bnd (bmap i (off div of_nat BSIZE) s) (\<lambda>(a, s).
           bnd (bread (idev (icache s ! i)) a s) (\<lambda>(bp, s).
           let m = chunk off r;
               s = put_data bp (splice (unat (off mod of_nat BSIZE)) (take (unat m) src) (bdata (bufs s ! bp))) s
           in bnd (log_write bp s) (\<lambda>s.
              bnd (brelse bp s) (writei_loop i (drop (unat m) src) (off + m) (r - m))))))"
  by pat_completeness auto
termination
  by (relation "measure (\<lambda>(i, src, off, r, s). unat r)") (auto intro: chunk_less)

declare writei_loop.simps [simp del]

definition writei ::
  "nat \<Rightarrow> u8 list \<Rightarrow> u32 \<Rightarrow> u32 \<Rightarrow> 'z cst_scheme \<Rightarrow> (i32 \<times> 'z cst_scheme) res" where
  "writei i src off n s =
     (let ip = icache s ! i
      in if itype ip = T_DEV
         then if sint (imajor ip) < 0 \<or> sint (imajor ip) \<ge> int NDEV then Inr (-1, s)
              else (case devsw s ! unat (imajor ip) of None \<Rightarrow> Inr (-1, s) | Some ConsoleDev \<Rightarrow> consolewrite i src n s)
         else if off > isize ip \<or> off + n < off then Inr (-1, s)
         else if off + n > of_nat (MAXFILE * BSIZE) then Inr (-1, s)
         else bnd (writei_loop i src off n s) (\<lambda>s.
              let off = off + n
              in if n > 0 \<and> off > isize (icache s ! i)
                 then bnd (iupdate i (seti i (\<lambda>x. x\<lparr>isize := off\<rparr>) s)) (\<lambda>s. Inr (n, s))
                 else Inr (n, s)))"

subsection \<open>Directories\<close>

definition namecmp :: "u8 list \<Rightarrow> u8 list \<Rightarrow> int" where
  "namecmp s t = strncmp DIRSIZ s t"

text \<open>\<open>sizeof(struct dirent)\<close> is 16.\<close>

definition get_dirent :: "u8 list \<Rightarrow> dirent" where
  "get_dirent v = \<lparr>de_inum = le16 v 0, de_name = drop 2 v\<rparr>"

definition dirent_bytes :: "dirent \<Rightarrow> u8 list" where
  "dirent_bytes d = put16 0 (de_inum d) [0, 0] @ de_name d"

text \<open>
  The loop of \<open>dirlookup\<close> over the entry offsets: the offset and the inode number of the first
  entry with the name.  An entry is looked at with \<open>readi\<close>, so that the loop sees the size of
  the directory once per call.
\<close>

fun dirlookup_loop ::
  "nat \<Rightarrow> u8 list \<Rightarrow> u32 list \<Rightarrow> 'z cst_scheme \<Rightarrow>
     ((u32 \<times> u32) option \<times> 'z cst_scheme) res" where
  "dirlookup_loop i name [] s = Inr (None, s)"
| "dirlookup_loop i name (off # offs) s =
     bnd (readi i off 16 s) (\<lambda>(r, v, s).
       if r \<noteq> 16 then panic ''dirlookup read''
       else let de = get_dirent v
            in if de_inum de = 0 then dirlookup_loop i name offs s
               else if namecmp name (de_name de) = 0 then Inr (Some (off, ucast (de_inum de)), s)
               else dirlookup_loop i name offs s)"

text \<open>The offsets \<open>0, 16, \<dots>\<close> below a size.\<close>

definition offsets :: "u32 \<Rightarrow> u32 list" where
  "offsets n = map (\<lambda>k. of_nat (16 * k)) [0..<(unat n + 15) div 16]"

definition dirlookup ::
  "nat \<Rightarrow> u8 list \<Rightarrow> 'z cst_scheme \<Rightarrow> ((nat \<times> u32) option \<times> 'z cst_scheme) res" where
  "dirlookup i name s =
     (if itype (icache s ! i) \<noteq> T_DIR then panic ''dirlookup not DIR''
      else bnd (dirlookup_loop i name (offsets (isize (icache s ! i))) s) (\<lambda>(r, s).
           case r of None \<Rightarrow> Inr (None, s)
           | Some (off, ino) \<Rightarrow> bnd (iget (idev (icache s ! i)) ino s) (\<lambda>(ip, s). Inr (Some (ip, off), s))))"

text \<open>The loop of \<open>dirlink\<close>: the offset of the first free entry, or the size of the directory.\<close>

fun free_entry :: "nat \<Rightarrow> u32 list \<Rightarrow> 'z cst_scheme \<Rightarrow> (u32 option \<times> 'z cst_scheme) res" where
  "free_entry i [] s = Inr (None, s)"
| "free_entry i (off # offs) s =
     bnd (readi i off 16 s) (\<lambda>(r, v, s).
       if r \<noteq> 16 then panic ''dirlink read''
       else if de_inum (get_dirent v) = 0 then Inr (Some off, s) else free_entry i offs s)"

definition dirlink ::
  "nat \<Rightarrow> u8 list \<Rightarrow> u32 \<Rightarrow> 'z cst_scheme \<Rightarrow>
     (i32 \<times> 'z cst_scheme) res" where
  "dirlink i name ino s =
     bnd (dirlookup i name s) (\<lambda>(r, s).
       case r of Some (ip, _) \<Rightarrow> bnd (iput ip s) (\<lambda>s. Inr (-1, s))
       | None \<Rightarrow>
         bnd (free_entry i (offsets (isize (icache s ! i))) s) (\<lambda>(r, s).
         let off = (case r of Some off \<Rightarrow> off | None \<Rightarrow> of_nat (16 * ((unat (isize (icache s ! i)) + 15) div 16)));
             de = \<lparr>de_inum = ucast ino, de_name = strncpy DIRSIZ name\<rparr>
         in bnd (writei i (dirent_bytes de) off 16 s) (\<lambda>(n, s).
            if n \<noteq> 16 then panic ''dirlink'' else Inr (0, s))))"

subsection \<open>Path names\<close>

text \<open>
  \<open>skipelem path name\<close> with the buffer \<open>name\<close> of \<open>DIRSIZ\<close> bytes: the rest of the path and the
  new contents of the buffer.
\<close>

definition skipelem :: "u8 list \<Rightarrow> u8 list \<Rightarrow> (u8 list \<times> u8 list) option" where
  "skipelem path name =
     (let path = dropWhile (\<lambda>c. c = 47) path
      in if chr path = 0 then None
         else let s = takeWhile (\<lambda>c. c \<noteq> 47 \<and> c \<noteq> 0) path;
                  path = drop (length s) path;
                  name = (if length s \<ge> DIRSIZ then take DIRSIZ s
                          else splice 0 (s @ [0]) name)
              in Some (dropWhile (\<lambda>c. c = 47) path, name))"

lemma skipelem_shorter:
  assumes "skipelem path name = Some (path', name')"
  shows "length path' < length path"
proof -
  let ?p = "dropWhile (\<lambda>c. c = 47) path"
  let ?e = "takeWhile (\<lambda>c. c \<noteq> 47 \<and> c \<noteq> 0) ?p"
  have ne: "chr ?p \<noteq> 0" and p': "path' = dropWhile (\<lambda>c. c = 47) (drop (length ?e) ?p)"
    using assms by (auto simp: skipelem_def Let_def split: if_splits)
  obtain c q where cq: "?p = c # q" using ne by (cases ?p) (auto simp: chr_def)
  have "c \<noteq> 47" using cq by (metis (mono_tags) dropWhile_eq_Cons_conv)
  moreover have "c \<noteq> 0" using ne cq by (simp add: chr_def)
  ultimately have e: "0 < length ?e" by (simp add: cq)
  have "length path' \<le> length (drop (length ?e) ?p)" unfolding p' by (rule length_dropWhile_le)
  also have "\<dots> < length ?p" using e cq by simp
  also have "\<dots> \<le> length path" by (rule length_dropWhile_le)
  finally show ?thesis .
qed

text \<open>The loop of \<open>namex\<close>.\<close>

function namex_loop ::
  "bool \<Rightarrow> nat \<Rightarrow> u8 list \<Rightarrow> u8 list \<Rightarrow> 'z cst_scheme \<Rightarrow>
     (nat option \<times> u8 list \<times> 'z cst_scheme) res" where
  "namex_loop par ip path name s =
     (case skipelem path name of
        None \<Rightarrow> if par then bnd (iput ip s) (\<lambda>s. Inr (None, name, s)) else Inr (Some ip, name, s)
      | Some (path, name) \<Rightarrow>
          bnd (ilock (Some ip) s) (\<lambda>s.
            if itype (icache s ! ip) \<noteq> T_DIR then bnd (iunlockput ip s) (\<lambda>s. Inr (None, name, s))
            else if par \<and> chr path = 0 then bnd (iunlock (Some ip) s) (\<lambda>s. Inr (Some ip, name, s))
            else bnd (dirlookup ip name s) (\<lambda>(r, s).
              case r of None \<Rightarrow> bnd (iunlockput ip s) (\<lambda>s. Inr (None, name, s))
              | Some (nx, _) \<Rightarrow> bnd (iunlockput ip s) (namex_loop par nx path name))))"
  by pat_completeness auto
termination
  by (relation "measure (\<lambda>(par, ip, path, name, s). length path)")
    (auto dest: skipelem_shorter)

declare namex_loop.simps [simp del]

definition namex ::
  "u8 list \<Rightarrow> bool \<Rightarrow> u8 list \<Rightarrow> 'z cst_scheme \<Rightarrow>
     (nat option \<times> u8 list \<times> 'z cst_scheme) res" where
  "namex path par name s =
     bnd (if chr path = 47 then iget (of_nat ROOTDEV) ROOTINO s
          else bnd (myproc s) (\<lambda>(p, s).
               case p of None \<Rightarrow> Inl OutOfRange
               | Some p \<Rightarrow> (case cwd (procs s ! p) of None \<Rightarrow> Inl OutOfRange | Some d \<Rightarrow> idup d s)))
       (\<lambda>(ip, s). namex_loop par ip path name s)"

text \<open>The local buffer of \<open>namei\<close> is overwritten before it is read.\<close>

definition namei :: "u8 list \<Rightarrow> 'z cst_scheme \<Rightarrow> (nat option \<times> 'z cst_scheme) res" where
  "namei path s =
     bnd (namex path False (replicate DIRSIZ 0) s) (\<lambda>(ip, _, s). Inr (ip, s))"

definition nameiparent ::
  "u8 list \<Rightarrow> u8 list \<Rightarrow> 'z cst_scheme \<Rightarrow> (nat option \<times> u8 list \<times> 'z cst_scheme) res" where
  "nameiparent path name s = namex path True name s"

end
