(* ===== verification/Vm.thy ===== *)
theory Vm
  imports FsData
begin

text \<open>
  Page tables (\<^verbatim>\<open>vm.c\<close>, \<^verbatim>\<open>mmu.h\<close>).

  Page directories and page tables are pages of kernel memory; a pointer to an entry is its
  address, and a null pointer is 0.  Memory is a map from 4-aligned addresses to words;
  \<open>mget\<close>, \<open>mput\<close> and \<open>put_bytes\<close> read and write single bytes in it.

  A C loop \<open>for(; a < end; a += PGSIZE)\<close> on 32-bit addresses would start over if \<open>a\<close> wrapped
  around; the model ends the run there with \<open>OutOfRange\<close>.
\<close>

definition PDX :: "u32 \<Rightarrow> u32" where "PDX va = drop_bit 22 va AND 0x3FF"
definition PTX :: "u32 \<Rightarrow> u32" where "PTX va = drop_bit 12 va AND 0x3FF"
definition PGADDR :: "u32 \<Rightarrow> u32 \<Rightarrow> u32 \<Rightarrow> u32" where
  "PGADDR d t off = push_bit 22 d OR push_bit 12 t OR off"
definition NPDENTRIES :: nat where [simp]: "NPDENTRIES = 1024"
definition PTE_P :: u32 where [simp]: "PTE_P = 1"
definition PTE_W :: u32 where [simp]: "PTE_W = 2"
definition PTE_U :: u32 where [simp]: "PTE_U = 4"
definition PTE_ADDR :: "u32 \<Rightarrow> u32" where "PTE_ADDR pte = pte AND NOT 0xFFF"
definition PTE_FLAGS :: "u32 \<Rightarrow> u32" where "PTE_FLAGS pte = pte AND 0xFFF"

subsection \<open>Bytes of memory\<close>

definition mget :: "(u32 \<Rightarrow> u32) \<Rightarrow> u32 \<Rightarrow> u8" where
  "mget m a = ucast (drop_bit (8 * unat (a AND 3)) (m (a AND NOT 3)))"

definition mput :: "u32 \<Rightarrow> u8 \<Rightarrow> (u32 \<Rightarrow> u32) \<Rightarrow> u32 \<Rightarrow> u32" where
  "mput a v m =
     (let k = 8 * unat (a AND 3); w = a AND NOT 3
      in m(w := (m w AND NOT (push_bit k 0xFF)) OR push_bit k (ucast v)))"

fun put_bytes :: "u32 \<Rightarrow> u8 list \<Rightarrow> (u32 \<Rightarrow> u32) \<Rightarrow> u32 \<Rightarrow> u32" where
  "put_bytes a [] m = m"
| "put_bytes a (v # vs) m = put_bytes (a + 1) vs (mput a v m)"

definition get_bytes :: "(u32 \<Rightarrow> u32) \<Rightarrow> u32 \<Rightarrow> nat \<Rightarrow> u8 list" where
  "get_bytes m a n = map (\<lambda>i. mget m (a + of_nat i)) [0..<n]"

text \<open>\<open>memmove\<close> of whole words between two pages.\<close>

definition copy_words :: "(u32 \<Rightarrow> u32) \<Rightarrow> u32 \<Rightarrow> u32 \<Rightarrow> u32 \<Rightarrow> u32 \<Rightarrow> u32" where
  "copy_words m d s n = (\<lambda>a. if a - d < n then m (s + (a - d)) else m a)"

definition setmem :: "((u32 \<Rightarrow> u32) \<Rightarrow> u32 \<Rightarrow> u32) \<Rightarrow> 'z kst_scheme \<Rightarrow> 'z kst_scheme" where
  "setmem f s = s\<lparr>mem := f (mem s)\<rparr>"

subsection \<open>Walking and filling page tables\<close>

definition walkpgdir :: "u32 \<Rightarrow> u32 \<Rightarrow> bool \<Rightarrow> 'z kst_scheme \<Rightarrow> (u32 \<times> 'z kst_scheme) res" where
  "walkpgdir pd va alloc s =
     (let pde = pd + 4 * PDX va
      in if mem s pde AND PTE_P \<noteq> 0
         then Inr (P2V (PTE_ADDR (mem s pde)) + 4 * PTX va, s)
         else if \<not> alloc then Inr (0, s)
         else bnd (kalloc s) (\<lambda>(pgtab, s).
              if pgtab = 0 then Inr (0, s)
              else let s = setmem (\<lambda>m. memset_words m pgtab 0 PGSIZE) s;
                       s = setmem (\<lambda>m. m(pde := V2P pgtab OR PTE_P OR PTE_W OR PTE_U)) s
                   in Inr (pgtab + 4 * PTX va, s)))"

text \<open>
  The loop of \<open>mappages\<close> with \<open>n\<close> more pages to map after this one: \<open>a\<close> and \<open>last\<close> are page
  aligned, so that \<open>a == last\<close> after \<open>(last - a) / PGSIZE\<close> rounds.
\<close>

fun mappages_loop :: "nat \<Rightarrow> u32 \<Rightarrow> u32 \<Rightarrow> u32 \<Rightarrow> u32 \<Rightarrow> 'z kst_scheme \<Rightarrow> (i32 \<times> 'z kst_scheme) res" where
  "mappages_loop n pd a pa perm s =
     bnd (walkpgdir pd a True s) (\<lambda>(pte, s).
       if pte = 0 then Inr (-1, s)
       else if mem s pte AND PTE_P \<noteq> 0 then panic ''remap''
       else let s = setmem (\<lambda>m. m(pte := pa OR perm OR PTE_P)) s
            in case n of 0 \<Rightarrow> Inr (0, s)
               | Suc k \<Rightarrow> mappages_loop k pd (a + PGSIZE) (pa + PGSIZE) perm s)"

declare mappages_loop.simps [simp del]

definition mappages :: "u32 \<Rightarrow> u32 \<Rightarrow> u32 \<Rightarrow> u32 \<Rightarrow> u32 \<Rightarrow> 'z kst_scheme \<Rightarrow> (i32 \<times> 'z kst_scheme) res" where
  "mappages pd va len pa perm s =
     (let a = PGROUNDDOWN va; last = PGROUNDDOWN (va + len - 1)
      in mappages_loop (unat ((last - a) div PGSIZE)) pd a pa perm s)"

subsection \<open>Growing and shrinking the user part\<close>

lemma page_step: "a < a + PGSIZE \<Longrightarrow> 2 ^ 32 - unat (a + PGSIZE) < 2 ^ 32 - unat a"
  using unat_u32_less [of a] unat_u32_less [of "a + PGSIZE"] by (simp add: word_less_nat_alt)

function deallocuvm_loop :: "u32 \<Rightarrow> u32 \<Rightarrow> u32 \<Rightarrow> 'z kst_scheme \<Rightarrow> 'z kst_scheme res" where
  "deallocuvm_loop pd a oldsz s =
     (if \<not> a < oldsz then Inr s
      else bnd (walkpgdir pd a False s) (\<lambda>(pte, s).
        let nx = (if pte = 0 then PGADDR (PDX a + 1) 0 0 - PGSIZE else a) + PGSIZE
        in bnd (if pte \<noteq> 0 \<and> mem s pte AND PTE_P \<noteq> 0
                then let pa = PTE_ADDR (mem s pte)
                     in if pa = 0 then panic ''kfree''
                        else bnd (kfree (P2V pa) s) (\<lambda>s. Inr (setmem (\<lambda>m. m(pte := 0)) s))
                else Inr s) (\<lambda>s.
           if a < nx then deallocuvm_loop pd nx oldsz s else Inl OutOfRange)))"
  by pat_completeness auto
termination
proof (relation "measure (\<lambda>(pd, a, oldsz, s). 2 ^ 32 - unat a)", goal_cases)
  case (2 pd a oldsz s p pte t nx u)
  then show ?case using unat_u32_less [of a] unat_u32_less [of nx] by (auto simp: word_less_nat_alt)
qed simp

declare deallocuvm_loop.simps [simp del]

definition deallocuvm :: "u32 \<Rightarrow> u32 \<Rightarrow> u32 \<Rightarrow> 'z kst_scheme \<Rightarrow> (u32 \<times> 'z kst_scheme) res" where
  "deallocuvm pd oldsz newsz s =
     (if newsz \<ge> oldsz then Inr (oldsz, s)
      else bnd (deallocuvm_loop pd (PGROUNDUP newsz) oldsz s) (\<lambda>s. Inr (newsz, s)))"

definition freevm :: "u32 \<Rightarrow> 'z kst_scheme \<Rightarrow> 'z kst_scheme res" where
  "freevm pd s =
     (if pd = 0 then panic ''freevm: no pgdir''
      else bnd (deallocuvm pd KERNBASE 0 s) (\<lambda>(_, s).
           bnd (foldm (\<lambda>i s. let e = mem s (pd + 4 * of_nat i)
                         in if e AND PTE_P \<noteq> 0 then kfree (P2V (PTE_ADDR e)) s else Inr s)
                  [0..<NPDENTRIES] s) (kfree pd)))"

record kmap =
  virt :: u32
  phys_start :: u32
  phys_end :: u32
  perm :: u32

definition kmap_table :: "'z kst_scheme \<Rightarrow> kmap list" where
  "kmap_table s =
     [\<lparr>virt = KERNBASE, phys_start = 0, phys_end = EXTMEM, perm = PTE_W\<rparr>,
      \<lparr>virt = KERNLINK, phys_start = V2P KERNLINK, phys_end = V2P (kdata s), perm = 0\<rparr>,
      \<lparr>virt = kdata s, phys_start = V2P (kdata s), phys_end = PHYSTOP, perm = PTE_W\<rparr>,
      \<lparr>virt = DEVSPACE, phys_start = DEVSPACE, phys_end = 0, perm = PTE_W\<rparr>]"

text \<open>The loop of \<open>setupkvm\<close> over the remaining entries of the table.\<close>

fun map_all :: "u32 \<Rightarrow> kmap list \<Rightarrow> 'z kst_scheme \<Rightarrow> (u32 \<times> 'z kst_scheme) res" where
  "map_all pd [] s = Inr (pd, s)"
| "map_all pd (k # ks) s =
     bnd (mappages pd (virt k) (phys_end k - phys_start k) (phys_start k) (perm k) s) (\<lambda>(r, s).
       if sint r < 0 then bnd (freevm pd s) (\<lambda>s. Inr (0, s)) else map_all pd ks s)"

definition setupkvm :: "'z kst_scheme \<Rightarrow> (u32 \<times> 'z kst_scheme) res" where
  "setupkvm s =
     bnd (kalloc s) (\<lambda>(pd, s).
       if pd = 0 then Inr (0, s)
       else let s = setmem (\<lambda>m. memset_words m pd 0 PGSIZE) s
            in if P2V PHYSTOP > DEVSPACE then panic ''PHYSTOP too high''
               else map_all pd (kmap_table s) s)"

definition kvmalloc :: "'z kst_scheme \<Rightarrow> 'z kst_scheme res" where
  "kvmalloc s = bnd (setupkvm s) (\<lambda>(pd, s). Inr (switchkvm (s\<lparr>kpgdir := pd\<rparr>)))"

definition inituvm :: "u32 \<Rightarrow> u8 list \<Rightarrow> 'z kst_scheme \<Rightarrow> 'z kst_scheme res" where
  "inituvm pd init s =
     (if length init \<ge> unat PGSIZE then panic ''inituvm: more than a page''
      else bnd (kalloc s) (\<lambda>(p, s).
           let s = setmem (\<lambda>m. memset_words m p 0 PGSIZE) s
           in bnd (mappages pd 0 PGSIZE (V2P p) (PTE_W OR PTE_U) s) (\<lambda>(_, s).
              Inr (setmem (put_bytes p init) s))))"

text \<open>The number of bytes the loop of \<open>loaduvm\<close> reads into the page at \<open>i\<close>.\<close>

function loaduvm_loop ::
  "u32 \<Rightarrow> u32 \<Rightarrow> nat \<Rightarrow> u32 \<Rightarrow> u32 \<Rightarrow> u32 \<Rightarrow> 'z cst_scheme \<Rightarrow> (i32 \<times> 'z cst_scheme) res" where
  "loaduvm_loop pd addr ip offset lim i s =
     (if \<not> i < lim then Inr (0, s)
      else bnd (walkpgdir pd (addr + i) False s) (\<lambda>(pte, s).
        if pte = 0 then panic ''loaduvm: address should exist''
        else let pa = PTE_ADDR (mem s pte);
                 n = (if lim - i < PGSIZE then lim - i else PGSIZE)
             in bnd (readi ip (offset + i) n s) (\<lambda>(r, v, s).
                let s = setmem (put_bytes (P2V pa) v) s
                in if r \<noteq> n then Inr (-1, s)
                   else if i < i + PGSIZE then loaduvm_loop pd addr ip offset lim (i + PGSIZE) s
                   else Inl OutOfRange)))"
  by pat_completeness auto
termination
  by (relation "measure (\<lambda>(pd, addr, ip, offset, lim, i, s). 2 ^ 32 - unat i)")
    (simp, simp only: in_measure split_conv page_step)

declare loaduvm_loop.simps [simp del]

definition loaduvm ::
  "u32 \<Rightarrow> u32 \<Rightarrow> nat \<Rightarrow> u32 \<Rightarrow> u32 \<Rightarrow> 'z cst_scheme \<Rightarrow> (i32 \<times> 'z cst_scheme) res" where
  "loaduvm pd addr ip offset lim s =
     (if addr mod PGSIZE \<noteq> 0 then panic ''loaduvm: addr must be page aligned''
      else loaduvm_loop pd addr ip offset lim 0 s)"

function allocuvm_loop :: "u32 \<Rightarrow> u32 \<Rightarrow> u32 \<Rightarrow> u32 \<Rightarrow> 'z cst_scheme \<Rightarrow> (u32 \<times> 'z cst_scheme) res" where
  "allocuvm_loop pd oldsz newsz a s =
     (if \<not> a < newsz then Inr (newsz, s)
      else bnd (kalloc s) (\<lambda>(p, s).
        if p = 0
        then bnd (cprintf (Some (map of_char ''allocuvm out of memory'' @ [10])) [] s) (\<lambda>s.
             bnd (deallocuvm pd newsz oldsz s) (\<lambda>(_, s). Inr (0, s)))
        else let s = setmem (\<lambda>m. memset_words m p 0 PGSIZE) s
             in bnd (mappages pd a PGSIZE (V2P p) (PTE_W OR PTE_U) s) (\<lambda>(r, s).
                if sint r < 0
                then bnd (cprintf (Some (map of_char ''allocuvm out of memory (2)'' @ [10])) [] s) (\<lambda>s.
                     bnd (deallocuvm pd newsz oldsz s) (\<lambda>(_, s). bnd (kfree p s) (\<lambda>s. Inr (0, s))))
                else if a < a + PGSIZE then allocuvm_loop pd oldsz newsz (a + PGSIZE) s
                else Inl OutOfRange)))"
  by pat_completeness auto
termination
  by (relation "measure (\<lambda>(pd, oldsz, newsz, a, s). 2 ^ 32 - unat a)")
    (simp, simp only: in_measure split_conv page_step)

declare allocuvm_loop.simps [simp del]

definition allocuvm :: "u32 \<Rightarrow> u32 \<Rightarrow> u32 \<Rightarrow> 'z cst_scheme \<Rightarrow> (u32 \<times> 'z cst_scheme) res" where
  "allocuvm pd oldsz newsz s =
     (if newsz \<ge> KERNBASE then Inr (0, s)
      else if newsz < oldsz then Inr (oldsz, s)
      else allocuvm_loop pd oldsz newsz (PGROUNDUP oldsz) s)"

definition clearpteu :: "u32 \<Rightarrow> u32 \<Rightarrow> 'z kst_scheme \<Rightarrow> 'z kst_scheme res" where
  "clearpteu pd uva s =
     bnd (walkpgdir pd uva False s) (\<lambda>(pte, s).
       if pte = 0 then panic ''clearpteu'' else Inr (setmem (\<lambda>m. m(pte := m pte AND NOT PTE_U)) s))"

function copyuvm_loop :: "u32 \<Rightarrow> u32 \<Rightarrow> u32 \<Rightarrow> u32 \<Rightarrow> 'z kst_scheme \<Rightarrow> (u32 \<times> 'z kst_scheme) res" where
  "copyuvm_loop pd d lim i s =
     (if \<not> i < lim then Inr (d, s)
      else bnd (walkpgdir pd i False s) (\<lambda>(pte, s).
        if pte = 0 then panic ''copyuvm: pte should exist''
        else if mem s pte AND PTE_P = 0 then panic ''copyuvm: page not present''
        else let pa = PTE_ADDR (mem s pte); flags = PTE_FLAGS (mem s pte)
             in bnd (kalloc s) (\<lambda>(p, s).
                if p = 0 then bnd (freevm d s) (\<lambda>s. Inr (0, s))
                else let s = setmem (\<lambda>m. copy_words m p (P2V pa) PGSIZE) s
                     in bnd (mappages d i PGSIZE (V2P p) flags s) (\<lambda>(r, s).
                        if sint r < 0
                        then bnd (kfree p s) (\<lambda>s. bnd (freevm d s) (\<lambda>s. Inr (0, s)))
                        else if i < i + PGSIZE then copyuvm_loop pd d lim (i + PGSIZE) s
                        else Inl OutOfRange))))"
  by pat_completeness auto
termination
  by (relation "measure (\<lambda>(pd, d, lim, i, s). 2 ^ 32 - unat i)")
    (simp, simp only: in_measure split_conv page_step)

declare copyuvm_loop.simps [simp del]

definition copyuvm :: "u32 \<Rightarrow> u32 \<Rightarrow> 'z kst_scheme \<Rightarrow> (u32 \<times> 'z kst_scheme) res" where
  "copyuvm pd lim s =
     bnd (setupkvm s) (\<lambda>(d, s). if d = 0 then Inr (0, s) else copyuvm_loop pd d lim 0 s)"

text \<open>\<open>uva2ka\<close> does not check that there is an entry; without one it reads through a null pointer.\<close>

definition uva2ka :: "u32 \<Rightarrow> u32 \<Rightarrow> 'z kst_scheme \<Rightarrow> (u32 \<times> 'z kst_scheme) res" where
  "uva2ka pd uva s =
     bnd (walkpgdir pd uva False s) (\<lambda>(pte, s).
       if pte = 0 then Inl OutOfRange
       else if mem s pte AND PTE_P = 0 then Inr (0, s)
       else if mem s pte AND PTE_U = 0 then Inr (0, s)
       else Inr (P2V (PTE_ADDR (mem s pte)), s))"

lemma mod_page: "a - PGROUNDDOWN a = a AND 0xFFF"
proof -
  have "PGROUNDDOWN a + (a AND 0xFFF) = a"
    by (subst disjunctive_add) (auto simp: PGROUNDDOWN_def bit_eq_iff bit_simps)
  then show ?thesis by (metis add_diff_cancel_left')
qed

text \<open>How much of a copy fits into the page of \<open>va\<close>.\<close>

definition page_chunk :: "u32 \<Rightarrow> nat \<Rightarrow> nat" where
  "page_chunk va len = min (unat (PGSIZE - (va - PGROUNDDOWN va))) len"

lemma page_chunk_pos: "0 < len \<Longrightarrow> 0 < page_chunk va len"
proof -
  have "va AND 0xFFF = take_bit 12 va" by (simp add: take_bit_eq_mask mask_eq_exp_minus_1)
  moreover have "unat (take_bit 12 va) = take_bit 12 (unat va)" by (rule unsigned_take_bit_eq)
  ultimately have "unat (va AND 0xFFF) < 4096" using take_bit_nat_less_exp [of 12 "unat va"] by simp
  then show "0 < len \<Longrightarrow> ?thesis" by (simp add: page_chunk_def mod_page unat_u32_sub)
qed

function copyout :: "u32 \<Rightarrow> u32 \<Rightarrow> u8 list \<Rightarrow> 'z kst_scheme \<Rightarrow> (i32 \<times> 'z kst_scheme) res" where
  "copyout pd va [] s = Inr (0, s)"
| "copyout pd va (v # vs) s =
     (let va0 = PGROUNDDOWN va; p = v # vs; n = page_chunk va (length p)
      in bnd (uva2ka pd va0 s) (\<lambda>(pa0, s).
         if pa0 = 0 then Inr (-1, s)
         else copyout pd (va0 + PGSIZE) (drop n p) (setmem (put_bytes (pa0 + (va - va0)) (take n p)) s)))"
  by pat_completeness auto
termination
proof (relation "measure (\<lambda>(pd, va, p, s). length p)", goal_cases)
  case (2 pd va v vs s va0 p n x pa0 t)
  then show ?case using page_chunk_pos [of "length p" va] by simp
qed simp

declare copyout.simps [simp del]

end
