(* ===== verification/File.thy ===== *)
theory File
  imports FsData
begin

text \<open>
  Open files and pipes (\<^verbatim>\<open>file.c\<close>, \<^verbatim>\<open>file.h\<close>, \<^verbatim>\<open>pipe.c\<close>).

  A file pointer is an index into \<open>ftable\<close>.  A pipe lives in a page of its own: \<open>pipes p\<close> is
  the \<open>struct pipe\<close> at address \<open>p\<close>, and its lock is \<open>LPipe p\<close>.

  A writer that finds the pipe full, or a reader that finds it empty, sleeps and later goes on
  in the same loop.  \<open>pipewrite_loop\<close> and \<open>piperead_wait\<close> are the loops with the pipe's lock
  held, from the start or after a wake-up, up to the end of the loop or the next \<open>sleep\<close>; the
  routines run them once and end with \<open>Sleeping\<close> if they would have to wait.
\<close>

definition PIPESIZE :: nat where [simp]: "PIPESIZE = 512"

datatype ftype = FD_NONE | FD_PIPE | FD_INODE

record fileent =
  ftype :: ftype
  fref :: i32
  readable :: bool
  writable :: bool
  fpipe :: u32
  fip :: "nat option"
  foff :: u32

record pipe =
  pdata :: "u8 list"
  nread :: u32
  nwrite :: u32
  readopen :: bool
  writeopen :: bool

record flst = cst +
  ftable :: "fileent list"
  pipes :: "u32 \<Rightarrow> pipe"

definition setf :: "nat \<Rightarrow> (fileent \<Rightarrow> fileent) \<Rightarrow> 'z flst_scheme \<Rightarrow> 'z flst_scheme" where
  "setf f g s = s\<lparr>ftable := upd f g (ftable s)\<rparr>"

definition setpipe :: "u32 \<Rightarrow> (pipe \<Rightarrow> pipe) \<Rightarrow> 'z flst_scheme \<Rightarrow> 'z flst_scheme" where
  "setpipe p g s = s\<lparr>pipes := (pipes s)(p := g (pipes s p))\<rparr>"

definition fileinit :: "'z flst_scheme \<Rightarrow> 'z flst_scheme" where
  "fileinit s = s\<lparr>locks := (locks s)(LFtable := initlock)\<rparr>"

definition filealloc :: "'z flst_scheme \<Rightarrow> (nat option \<times> 'z flst_scheme) res" where
  "filealloc s =
     bnd (acq LFtable s) (\<lambda>s.
       case first_idx (\<lambda>f. fref f = 0) (ftable s) of
         Some f \<Rightarrow> bnd (rel LFtable (setf f (\<lambda>x. x\<lparr>fref := 1\<rparr>) s)) (\<lambda>s. Inr (Some f, s))
       | None \<Rightarrow> bnd (rel LFtable s) (\<lambda>s. Inr (None, s)))"

definition filedup :: "nat \<Rightarrow> 'z flst_scheme \<Rightarrow> (nat \<times> 'z flst_scheme) res" where
  "filedup f s =
     bnd (acq LFtable s) (\<lambda>s.
       if sint (fref (ftable s ! f)) < 1 then panic ''filedup''
       else bnd (rel LFtable (setf f (\<lambda>x. x\<lparr>fref := fref x + 1\<rparr>) s)) (\<lambda>s. Inr (f, s)))"

definition pipeclose :: "u32 \<Rightarrow> bool \<Rightarrow> 'z flst_scheme \<Rightarrow> 'z flst_scheme res" where
  "pipeclose p w s =
     bnd (acq (LPipe p) s) (\<lambda>s.
     bnd (if w then wakeup (ChNread p) (setpipe p (\<lambda>q. q\<lparr>writeopen := False\<rparr>) s)
          else wakeup (ChNwrite p) (setpipe p (\<lambda>q. q\<lparr>readopen := False\<rparr>) s)) (\<lambda>s.
     if \<not> readopen (pipes s p) \<and> \<not> writeopen (pipes s p)
     then bnd (rel (LPipe p) s) (kfree p)
     else rel (LPipe p) s))"

text \<open>A file of type \<open>FD_INODE\<close> has an inode.\<close>

definition fileclose :: "nat \<Rightarrow> 'z flst_scheme \<Rightarrow> 'z flst_scheme res" where
  "fileclose f s =
     bnd (acq LFtable s) (\<lambda>s.
       if sint (fref (ftable s ! f)) < 1 then panic ''fileclose''
       else let s = setf f (\<lambda>x. x\<lparr>fref := fref x - 1\<rparr>) s
            in if 0 < sint (fref (ftable s ! f)) then rel LFtable s
               else let ff = ftable s ! f;
                        s = setf f (\<lambda>x. x\<lparr>fref := 0, ftype := FD_NONE\<rparr>) s
                    in bnd (rel LFtable s) (\<lambda>s.
                       case ftype ff of
                         FD_PIPE \<Rightarrow> pipeclose (fpipe ff) (writable ff) s
                       | FD_INODE \<Rightarrow>
                           bnd (begin_op s) (\<lambda>s.
                           bnd (case fip ff of None \<Rightarrow> Inl OutOfRange | Some ip \<Rightarrow> iput ip s) end_op)
                       | FD_NONE \<Rightarrow> Inr s))"

definition close_opt :: "nat option \<Rightarrow> 'z flst_scheme \<Rightarrow> 'z flst_scheme res" where
  "close_opt f s = (case f of None \<Rightarrow> Inr s | Some f \<Rightarrow> fileclose f s)"

definition pipealloc :: "'z flst_scheme \<Rightarrow> ((nat \<times> nat) option \<times> 'z flst_scheme) res" where
  "pipealloc s =
     bnd (filealloc s) (\<lambda>(f0, s).
     bnd (case f0 of None \<Rightarrow> Inr (None, s) | Some _ \<Rightarrow> filealloc s) (\<lambda>(f1, s).
     let bad = (\<lambda>s. bnd (close_opt f0 s) (\<lambda>s. bnd (close_opt f1 s) (\<lambda>s. Inr (None, s))))
     in case (f0, f1) of
          (Some a, Some b) \<Rightarrow>
            bnd (kalloc s) (\<lambda>(p, s).
              if p = 0 then bad s
              else let s = setpipe p (\<lambda>q. q\<lparr>readopen := True, writeopen := True, nwrite := 0, nread := 0\<rparr>) s;
                       s = s\<lparr>locks := (locks s)(LPipe p := initlock)\<rparr>;
                       s = setf a (\<lambda>x. x\<lparr>ftype := FD_PIPE, readable := True, writable := False, fpipe := p\<rparr>) s;
                       s = setf b (\<lambda>x. x\<lparr>ftype := FD_PIPE, readable := False, writable := True, fpipe := p\<rparr>) s
                   in Inr (Some (a, b), s))
        | _ \<Rightarrow> bad s))"

text \<open>One byte into and out of the ring.\<close>

definition pipe_put :: "u8 \<Rightarrow> pipe \<Rightarrow> pipe" where
  "pipe_put c q = q\<lparr>pdata := (pdata q)[unat (nwrite q) mod PIPESIZE := c], nwrite := nwrite q + 1\<rparr>"

definition pipe_get :: "pipe \<Rightarrow> u8 \<times> pipe" where
  "pipe_get q = (pdata q ! (unat (nread q) mod PIPESIZE), q\<lparr>nread := nread q + 1\<rparr>)"

definition pipe_full :: "pipe \<Rightarrow> bool" where
  "pipe_full q \<longleftrightarrow> nwrite q = nread q + of_nat PIPESIZE"

definition pipe_empty :: "pipe \<Rightarrow> bool" where
  "pipe_empty q \<longleftrightarrow> nread q = nwrite q"

definition am_killed :: "'z pst_scheme \<Rightarrow> (bool \<times> 'z pst_scheme) res" where
  "am_killed s = bnd (myproc s) (\<lambda>(p, s).
     case p of None \<Rightarrow> Inl OutOfRange | Some i \<Rightarrow> Inr (killed (procs s ! i), s))"

datatype wstop = WDone | WRefused | WSleep "u8 list"

fun pipewrite_loop :: "u32 \<Rightarrow> u8 list \<Rightarrow> 'z flst_scheme \<Rightarrow> (wstop \<times> 'z flst_scheme) res" where
  "pipewrite_loop p [] s = Inr (WDone, s)"
| "pipewrite_loop p (c # cs) s =
     (if pipe_full (pipes s p)
      then bnd (if \<not> readopen (pipes s p) then Inr (True, s) else am_killed s) (\<lambda>(stop, s).
           if stop then Inr (WRefused, s)
           else bnd (wakeup (ChNread p) s) (\<lambda>s. Inr (WSleep (c # cs), s)))
      else pipewrite_loop p cs (setpipe p (pipe_put c) s))"

text \<open>The rest of \<open>pipewrite\<close> once its loop has stopped.\<close>

definition pipewrite_end :: "u32 \<Rightarrow> i32 \<Rightarrow> wstop \<Rightarrow> 'z flst_scheme \<Rightarrow> (i32 \<times> 'z flst_scheme) res" where
  "pipewrite_end p n w s =
     (case w of
        WDone \<Rightarrow> bnd (wakeup (ChNread p) s) (\<lambda>s. bnd (rel (LPipe p) s) (\<lambda>s. Inr (n, s)))
      | WRefused \<Rightarrow> bnd (rel (LPipe p) s) (\<lambda>s. Inr (-1, s))
      | WSleep _ \<Rightarrow> Inl (Sleeping (ChNwrite p)))"

definition pipewrite :: "u32 \<Rightarrow> u8 list \<Rightarrow> i32 \<Rightarrow> 'z flst_scheme \<Rightarrow> (i32 \<times> 'z flst_scheme) res" where
  "pipewrite p src n s =
     bnd (acq (LPipe p) s) (\<lambda>s.
     bnd (pipewrite_loop p (take (nat (sint n)) src) s) (\<lambda>(w, s). pipewrite_end p n w s))"

datatype rwait = RGo | RKilled | RSleep

definition piperead_wait :: "u32 \<Rightarrow> 'z flst_scheme \<Rightarrow> (rwait \<times> 'z flst_scheme) res" where
  "piperead_wait p s =
     (if pipe_empty (pipes s p) \<and> writeopen (pipes s p)
      then bnd (am_killed s) (\<lambda>(k, s). Inr (if k then RKilled else RSleep, s))
      else Inr (RGo, s))"

fun piperead_copy :: "nat \<Rightarrow> u32 \<Rightarrow> 'z flst_scheme \<Rightarrow> u8 list \<times> 'z flst_scheme" where
  "piperead_copy 0 p s = ([], s)"
| "piperead_copy (Suc n) p s =
     (if pipe_empty (pipes s p) then ([], s)
      else let (v, s') = piperead_copy n p (setpipe p (\<lambda>q. snd (pipe_get q)) s)
           in (fst (pipe_get (pipes s p)) # v, s'))"

definition piperead :: "u32 \<Rightarrow> i32 \<Rightarrow> 'z flst_scheme \<Rightarrow> (i32 \<times> u8 list \<times> 'z flst_scheme) res" where
  "piperead p n s =
     bnd (acq (LPipe p) s) (\<lambda>s.
     bnd (piperead_wait p s) (\<lambda>(w, s).
       case w of
         RKilled \<Rightarrow> bnd (rel (LPipe p) s) (\<lambda>s. Inr (-1, [], s))
       | RSleep \<Rightarrow> Inl (Sleeping (ChNread p))
       | RGo \<Rightarrow>
           let (v, s) = piperead_copy (nat (sint n)) p s
           in bnd (wakeup (ChNwrite p) s) (\<lambda>s.
              bnd (rel (LPipe p) s) (\<lambda>s. Inr (of_nat (length v), v, s)))))"

definition filestat :: "nat \<Rightarrow> 'z flst_scheme \<Rightarrow> (i32 \<times> stat option \<times> 'z flst_scheme) res" where
  "filestat f s =
     (case (ftype (ftable s ! f), fip (ftable s ! f)) of
        (FD_INODE, Some ip) \<Rightarrow>
          bnd (ilock (Some ip) s) (\<lambda>s.
          let st = stati ip s
          in bnd (iunlock (Some ip) s) (\<lambda>s. Inr (0, Some st, s)))
      | (FD_INODE, None) \<Rightarrow> panic ''ilock''
      | _ \<Rightarrow> Inr (-1, None, s))"

definition fileread :: "nat \<Rightarrow> i32 \<Rightarrow> 'z flst_scheme \<Rightarrow> (i32 \<times> u8 list \<times> 'z flst_scheme) res" where
  "fileread f n s =
     (if \<not> readable (ftable s ! f) then Inr (-1, [], s)
      else case ftype (ftable s ! f) of
        FD_PIPE \<Rightarrow> piperead (fpipe (ftable s ! f)) n s
      | FD_INODE \<Rightarrow>
         (case fip (ftable s ! f) of None \<Rightarrow> panic ''ilock''
          | Some ip \<Rightarrow>
            bnd (ilock (Some ip) s) (\<lambda>s.
            bnd (readi ip (foff (ftable s ! f)) n s) (\<lambda>(r, v, s).
            let s = (if 0 < sint r then setf f (\<lambda>x. x\<lparr>foff := foff x + r\<rparr>) s else s)
            in bnd (iunlock (Some ip) s) (\<lambda>s. Inr (r, v, s)))))
      | FD_NONE \<Rightarrow> panic ''fileread'')"

text \<open>\<open>filewrite\<close> writes an inode in pieces of at most \<open>((MAXOPBLOCKS-1-1-2) / 2) * 512\<close> bytes.\<close>

definition wmax :: int where [simp]: "wmax = (int MAXOPBLOCKS - 1 - 1 - 2) div 2 * 512"

definition write_piece :: "nat \<Rightarrow> nat \<Rightarrow> u8 list \<Rightarrow> int \<Rightarrow> 'z flst_scheme \<Rightarrow> (i32 \<times> 'z flst_scheme) res" where
  "write_piece f ip src n1 s =
     bnd (begin_op s) (\<lambda>s.
     bnd (ilock (Some ip) s) (\<lambda>s.
     bnd (writei ip src (foff (ftable s ! f)) (of_int n1) s) (\<lambda>(r, s).
     let s = (if 0 < sint r then setf f (\<lambda>x. x\<lparr>foff := foff x + r\<rparr>) s else s)
     in bnd (iunlock (Some ip) s) (\<lambda>s. bnd (end_op s) (\<lambda>s. Inr (r, s))))))"

function filewrite_loop ::
  "nat \<Rightarrow> nat \<Rightarrow> u8 list \<Rightarrow> int \<Rightarrow> int \<Rightarrow> 'z flst_scheme \<Rightarrow> (int \<times> 'z flst_scheme) res" where
  "filewrite_loop f ip src n i s =
     (if \<not> i < n then Inr (i, s)
      else let n1 = min (n - i) wmax
           in bnd (write_piece f ip (drop (nat i) src) n1 s) (\<lambda>(r, s).
              if sint r < 0 then Inr (i, s)
              else if sint r \<noteq> n1 then panic ''short filewrite''
              else filewrite_loop f ip src n (i + n1) s))"
  by pat_completeness auto
termination
  by (relation "measure (\<lambda>(f, ip, src, n, i, s). nat (n - i))") (auto simp: min_def split: if_splits)

declare filewrite_loop.simps [simp del]

definition filewrite :: "nat \<Rightarrow> u8 list \<Rightarrow> i32 \<Rightarrow> 'z flst_scheme \<Rightarrow> (i32 \<times> 'z flst_scheme) res" where
  "filewrite f src n s =
     (if \<not> writable (ftable s ! f) then Inr (-1, s)
      else case ftype (ftable s ! f) of
        FD_PIPE \<Rightarrow> pipewrite (fpipe (ftable s ! f)) src n s
      | FD_INODE \<Rightarrow>
         (case fip (ftable s ! f) of None \<Rightarrow> panic ''ilock''
          | Some ip \<Rightarrow>
            bnd (filewrite_loop f ip src (sint n) 0 s) (\<lambda>(i, s).
            Inr (if i = sint n then n else -1, s)))
      | FD_NONE \<Rightarrow> panic ''filewrite'')"

end
