(* ===== verification/ProcLife.thy ===== *)
theory ProcLife
  imports Vm File
begin

text \<open>
  The life of a process (\<^verbatim>\<open>proc.c\<close>): \<open>userinit\<close>, \<open>growproc\<close>, \<open>fork\<close>, \<open>exit\<close>, \<open>wait\<close>, \<open>waitx\<close> and
  \<open>forkret\<close>; and the kernel's access to user memory.

  The trap frame of a process is the memory at its address \<open>tf\<close>.  \<open>exit\<close> is modelled up to its
  switch to the scheduler, from which it does not return; \<open>wait\<close> and \<open>waitx\<close> are one round of
  their loop, which ends with \<open>Sleeping\<close> when there is a child but none to collect.  The program
  that \<open>userinit\<close> loads is linked into the kernel from another file and is a parameter.
\<close>

record plst = flst +
  fr_first :: bool

subsection \<open>User memory\<close>

text \<open>
  What the hardware does with an address while the page directory \<open>pd\<close> is loaded: the kernel
  address of the same memory, if both levels are present.
\<close>

definition xlate :: "(u32 \<Rightarrow> u32) \<Rightarrow> u32 \<Rightarrow> u32 \<Rightarrow> u32 option" where
  "xlate m pd va =
     (let pde = m (pd + 4 * PDX va)
      in if pde AND PTE_P = 0 then None
         else let pte = m (P2V (PTE_ADDR pde) + 4 * PTX va)
              in if pte AND PTE_P = 0 then None else Some (P2V (PTE_ADDR pte) + (va AND 0xFFF)))"

definition uget :: "'z kst_scheme \<Rightarrow> u32 \<Rightarrow> u8 res" where
  "uget s va = (case xlate (mem s) (P2V (cr3 s)) va of None \<Rightarrow> Inl OutOfRange | Some a \<Rightarrow> Inr (mget (mem s) a))"

fun uget_bytes :: "nat \<Rightarrow> 'z kst_scheme \<Rightarrow> u32 \<Rightarrow> u8 list res" where
  "uget_bytes 0 s va = Inr []"
| "uget_bytes (Suc n) s va = bnd (uget s va) (\<lambda>v. bnd (uget_bytes n s (va + 1)) (\<lambda>vs. Inr (v # vs)))"

fun uput_bytes :: "u32 \<Rightarrow> u8 list \<Rightarrow> 'z kst_scheme \<Rightarrow> 'z kst_scheme res" where
  "uput_bytes va [] s = Inr s"
| "uput_bytes va (v # vs) s =
     (case xlate (mem s) (P2V (cr3 s)) va of None \<Rightarrow> Inl OutOfRange
      | Some a \<Rightarrow> uput_bytes (va + 1) vs (setmem (mput a v) s))"

definition u32_bytes :: "u32 \<Rightarrow> u8 list" where
  "u32_bytes w = put32 0 w (replicate 4 0)"

definition uget32 :: "'z kst_scheme \<Rightarrow> u32 \<Rightarrow> u32 res" where
  "uget32 s va = bnd (uget_bytes 4 s va) (\<lambda>v. Inr (le32 v 0))"

definition uput32 :: "u32 \<Rightarrow> u32 \<Rightarrow> 'z kst_scheme \<Rightarrow> 'z kst_scheme res" where
  "uput32 va w s = uput_bytes va (u32_bytes w) s"

subsection \<open>Trap frames\<close>

definition TF_SIZE :: u32 where [simp]: "TF_SIZE = 76"
definition tf_eax :: u32 where [simp]: "tf_eax = 28"
definition tf_es :: u32 where [simp]: "tf_es = 40"
definition tf_ds :: u32 where [simp]: "tf_ds = 44"
definition tf_trapno :: u32 where [simp]: "tf_trapno = 48"
definition tf_err :: u32 where [simp]: "tf_err = 52"
definition tf_eip :: u32 where [simp]: "tf_eip = 56"
definition tf_cs :: u32 where [simp]: "tf_cs = 60"
definition tf_eflags :: u32 where [simp]: "tf_eflags = 64"
definition tf_esp :: u32 where [simp]: "tf_esp = 68"
definition tf_ss :: u32 where [simp]: "tf_ss = 72"

definition put_low16 :: "u32 \<Rightarrow> u32 \<Rightarrow> (u32 \<Rightarrow> u32) \<Rightarrow> u32 \<Rightarrow> u32" where
  "put_low16 a v m = m(a := (m a AND 0xFFFF0000) OR (v AND 0xFFFF))"

definition cur :: "'z pst_scheme \<Rightarrow> (nat \<times> 'z pst_scheme) res" where
  "cur s = bnd (myproc s) (\<lambda>(p, s). case p of None \<Rightarrow> Inl OutOfRange | Some c \<Rightarrow> Inr (c, s))"

subsection \<open>Creating processes\<close>

definition userinit :: "u8 list \<Rightarrow> 'z plst_scheme \<Rightarrow> 'z plst_scheme res" where
  "userinit initcode s =
     bnd (allocproc s) (\<lambda>(p, s).
     let s = s\<lparr>initproc := p\<rparr>
     in case p of None \<Rightarrow> Inl OutOfRange
     | Some i \<Rightarrow>
       bnd (setupkvm s) (\<lambda>(pd, s).
       let s = setp i (\<lambda>x. x\<lparr>pgdir := pd\<rparr>) s
       in if pd = 0 then panic ''userinit: out of memory?''
          else bnd (inituvm pd initcode s) (\<lambda>s.
          let s = setp i (\<lambda>x. x\<lparr>sz := PGSIZE\<rparr>) s;
              t = tf (procs s ! i);
              s = setmem (\<lambda>m. memset_words m t 0 TF_SIZE) s;
              s = setmem (put_low16 (t + tf_cs) 0x1B) s;
              s = setmem (put_low16 (t + tf_ds) 0x23) s;
              s = setmem (\<lambda>m. put_low16 (t + tf_es) (m (t + tf_ds)) m) s;
              s = setmem (\<lambda>m. put_low16 (t + tf_ss) (m (t + tf_ds)) m) s;
              s = setmem (\<lambda>m. m(t + tf_eflags := 0x200, t + tf_esp := PGSIZE, t + tf_eip := 0)) s;
              s = setp i (\<lambda>x. x\<lparr>pname := ''initcode''\<rparr>) s
          in bnd (namei [47] s) (\<lambda>(d, s).
             let s = setp i (\<lambda>x. x\<lparr>cwd := d\<rparr>) s
             in bnd (pt_acquire s) (\<lambda>s.
                let s = setp i (\<lambda>x. x\<lparr>pstate := RUNNABLE, modtime := 0\<rparr>) s
                in bnd (enqueue 0 i s) pt_release)))))"

definition growproc :: "i32 \<Rightarrow> 'z plst_scheme \<Rightarrow> (i32 \<times> 'z plst_scheme) res" where
  "growproc n s =
     bnd (cur s) (\<lambda>(c, s).
     let old = sz (procs s ! c); pd = pgdir (procs s ! c)
     in bnd (if 0 < sint n then allocuvm pd old (old + n) s
             else if sint n < 0 then deallocuvm pd old (old + n) s
             else Inr (old, s)) (\<lambda>(new, s).
        if n \<noteq> 0 \<and> new = 0 then Inr (-1, s)
        else bnd (switchuvm (Some c) (setp c (\<lambda>x. x\<lparr>sz := new\<rparr>) s)) (\<lambda>s. Inr (0, s))))"

text \<open>\<open>if(curproc->ofile[i]) np->ofile[i] = filedup(curproc->ofile[i])\<close>\<close>

definition dup_ofile :: "nat \<Rightarrow> nat \<Rightarrow> nat \<Rightarrow> 'z flst_scheme \<Rightarrow> 'z flst_scheme res" where
  "dup_ofile c np i s =
     (case ofile (procs s ! c) ! i of None \<Rightarrow> Inr s
      | Some f \<Rightarrow> bnd (filedup f s) (\<lambda>(f, s). Inr (setp np (\<lambda>x. x\<lparr>ofile := (ofile x)[i := Some f]\<rparr>) s)))"

definition fork :: "'z plst_scheme \<Rightarrow> (i32 \<times> 'z plst_scheme) res" where
  "fork s =
     bnd (cur s) (\<lambda>(c, s).
     bnd (allocproc s) (\<lambda>(np, s).
     case np of None \<Rightarrow> Inr (-1, s)
     | Some np \<Rightarrow>
       bnd (copyuvm (pgdir (procs s ! c)) (sz (procs s ! c)) s) (\<lambda>(pd, s).
       let s = setp np (\<lambda>x. x\<lparr>pgdir := pd\<rparr>) s
       in if pd = 0
          then bnd (kfree (kstack (procs s ! np)) s) (\<lambda>s.
               Inr (-1, setp np (\<lambda>x. x\<lparr>kstack := 0, pstate := UNUSED\<rparr>) s))
          else let s = setp np (\<lambda>x. x\<lparr>sz := sz (procs s ! c), parent := Some c\<rparr>) s;
                   s = setmem (\<lambda>m. copy_words m (tf (procs s ! np)) (tf (procs s ! c)) TF_SIZE) s;
                   s = setmem (\<lambda>m. m(tf (procs s ! np) + tf_eax := 0)) s
               in bnd (foldm (dup_ofile c np) [0..<NOFILE] s) (\<lambda>s.
                  case cwd (procs s ! c) of None \<Rightarrow> Inl OutOfRange
                  | Some d \<Rightarrow>
                    bnd (idup d s) (\<lambda>(d, s).
                    let s = setp np (\<lambda>x. x\<lparr>cwd := Some d, pname := take 15 (pname (procs s ! c))\<rparr>) s;
                        k = pid (procs s ! np)
                    in bnd (pt_acquire s) (\<lambda>s.
                       let s = setp np (\<lambda>x. x\<lparr>pstate := RUNNABLE, modtime := 0\<rparr>) s
                       in bnd (enqueue 0 np s) (\<lambda>s.
                          bnd (pt_release s) (\<lambda>s. Inr (k, s)))))))))"

subsection \<open>Ending and collecting processes\<close>

definition close_ofile :: "nat \<Rightarrow> nat \<Rightarrow> 'z flst_scheme \<Rightarrow> 'z flst_scheme res" where
  "close_ofile c fd s =
     (case ofile (procs s ! c) ! fd of None \<Rightarrow> Inr s
      | Some f \<Rightarrow> bnd (fileclose f s) (\<lambda>s. Inr (setp c (\<lambda>x. x\<lparr>ofile := (ofile x)[fd := None]\<rparr>) s)))"

definition proc_chan :: "nat option \<Rightarrow> chan option" where
  "proc_chan p = map_option ChProc p"

text \<open>Passing the abandoned child \<open>i\<close> of \<open>c\<close> to init.\<close>

definition reparent :: "nat \<Rightarrow> nat \<Rightarrow> 'z pst_scheme \<Rightarrow> 'z pst_scheme res" where
  "reparent c i s =
     (if parent (procs s ! i) = Some c
      then let s = setp i (\<lambda>x. x\<lparr>parent := initproc s\<rparr>) s
           in if pstate (procs s ! i) = ZOMBIE then wakeup1 (proc_chan (initproc s)) s else Inr s
      else Inr s)"

definition exit_out :: "'z plst_scheme \<Rightarrow> (bool \<times> 'z plst_scheme) res" where
  "exit_out s =
     bnd (cur s) (\<lambda>(c, s).
       if initproc s = Some c then panic ''init exiting''
       else bnd (foldm (close_ofile c) [0..<NOFILE] s) (\<lambda>s.
            let s = setp c (\<lambda>x. x\<lparr>etime := ticks s\<rparr>) s
            in bnd (begin_op s) (\<lambda>s.
               bnd (case cwd (procs s ! c) of None \<Rightarrow> Inl OutOfRange | Some d \<Rightarrow> iput d s) (\<lambda>s.
               bnd (end_op s) (\<lambda>s.
               let s = setp c (\<lambda>x. x\<lparr>cwd := None\<rparr>) s
               in bnd (pt_acquire s) (\<lambda>s.
                  bnd (wakeup1 (proc_chan (parent (procs s ! c))) s) (\<lambda>s.
                  bnd (foldm (reparent c) [0..<NPROC] s) (\<lambda>s.
                  sched_out (setp c (\<lambda>x. x\<lparr>pstate := ZOMBIE\<rparr>) s)))))))))"

text \<open>What \<open>wait\<close> and \<open>waitx\<close> do with the zombie they found.\<close>

definition reap :: "nat \<Rightarrow> 'z pst_scheme \<Rightarrow> 'z pst_scheme res" where
  "reap i s =
     bnd (kfree (kstack (procs s ! i)) s) (\<lambda>s.
     let s = setp i (\<lambda>x. x\<lparr>kstack := 0\<rparr>) s
     in bnd (freevm (pgdir (procs s ! i)) s) (\<lambda>s.
        Inr (setp i (\<lambda>x. x\<lparr>pid := 0, parent := None, pname := [], killed := False, pstate := UNUSED\<rparr>) s)))"

definition wait :: "'z pst_scheme \<Rightarrow> (i32 \<times> 'z pst_scheme) res" where
  "wait s =
     bnd (cur s) (\<lambda>(c, s).
     bnd (pt_acquire s) (\<lambda>s.
       case first_idx (\<lambda>p. parent p = Some c \<and> pstate p = ZOMBIE) (procs s) of
         Some i \<Rightarrow>
           let k = pid (procs s ! i)
           in bnd (reap i s) (\<lambda>s. bnd (pt_release s) (\<lambda>s. Inr (k, s)))
       | None \<Rightarrow>
           if (\<forall>p\<in>set (procs s). parent p \<noteq> Some c) \<or> killed (procs s ! c)
           then bnd (pt_release s) (\<lambda>s. Inr (-1, s))
           else Inl (Sleeping (ChProc c))))"

definition waitx :: "u32 \<Rightarrow> u32 \<Rightarrow> 'z pst_scheme \<Rightarrow> (i32 \<times> 'z pst_scheme) res" where
  "waitx wtime_p rtime_p s =
     bnd (cur s) (\<lambda>(c, s).
     bnd (pt_acquire s) (\<lambda>s.
       case first_idx (\<lambda>p. parent p = Some c \<and> pstate p = ZOMBIE) (procs s) of
         Some i \<Rightarrow>
           let k = pid (procs s ! i);
               g = etime (procs s ! i) - ctime (procs s ! i);
               h = g - rtime (procs s ! i)
           in bnd (uput32 rtime_p (rtime (procs s ! i)) s) (\<lambda>s.
              bnd (uput32 wtime_p h s) (\<lambda>s.
              bnd (reap i s) (\<lambda>s.
              let s = setp i (\<lambda>x. x\<lparr>ctime := 0, etime := 0, rtime := 0, wtime := 0, modtime := 0\<rparr>) s
              in bnd (pt_release s) (\<lambda>s. Inr (k, s)))))
       | None \<Rightarrow>
           if (\<forall>p\<in>set (procs s). parent p \<noteq> Some c) \<or> killed (procs s ! c)
           then bnd (pt_release s) (\<lambda>s. Inr (-1, s))
           else Inl (Sleeping (ChProc c))))"

definition forkret :: "'z plst_scheme \<Rightarrow> 'z plst_scheme res" where
  "forkret s =
     bnd (pt_release s) (\<lambda>s.
       if fr_first s
       then bnd (iinit (of_nat ROOTDEV) (s\<lparr>fr_first := False\<rparr>)) (initlog (of_nat ROOTDEV))
       else Inr s)"

end
