(* ===== verification/Syscall.thy ===== *)
theory Syscall
  imports ProcLife
begin

text \<open>
  Fetching system call arguments (\<^verbatim>\<open>syscall.c\<close>) and the process-related system calls
  (\<^verbatim>\<open>sysproc.c\<close>).

  A fetch that fails (\<open>return -1\<close>) gives \<open>None\<close>; one that succeeds gives the value it stores
  through its pointer argument.  A string argument is represented by its bytes before the
  terminating zero, whose number is what \<open>fetchstr\<close> returns.
\<close>

subsection \<open>Arguments\<close>

definition fetchint :: "u32 \<Rightarrow> 'z pst_scheme \<Rightarrow> (i32 option \<times> 'z pst_scheme) res" where
  "fetchint addr s =
     bnd (cur s) (\<lambda>(c, s).
       if addr \<ge> sz (procs s ! c) \<or> addr + 4 > sz (procs s ! c) then Inr (None, s)
       else bnd (uget32 s addr) (\<lambda>v. Inr (Some v, s)))"

text \<open>The loop of \<open>fetchstr\<close> with \<open>n\<close> bytes left before the end of the process's memory.\<close>

fun fetchstr_loop :: "nat \<Rightarrow> 'z kst_scheme \<Rightarrow> u32 \<Rightarrow> u8 list option res" where
  "fetchstr_loop 0 s va = Inr None"
| "fetchstr_loop (Suc n) s va =
     bnd (uget s va) (\<lambda>c.
       if c = 0 then Inr (Some [])
       else bnd (fetchstr_loop n s (va + 1)) (\<lambda>r. Inr (map_option (\<lambda>v. c # v) r)))"

definition fetchstr :: "u32 \<Rightarrow> 'z pst_scheme \<Rightarrow> (u8 list option \<times> 'z pst_scheme) res" where
  "fetchstr addr s =
     bnd (cur s) (\<lambda>(c, s).
       if addr \<ge> sz (procs s ! c) then Inr (None, s)
       else bnd (fetchstr_loop (unat (sz (procs s ! c)) - unat addr) s addr) (\<lambda>r. Inr (r, s)))"

definition argint :: "i32 \<Rightarrow> 'z pst_scheme \<Rightarrow> (i32 option \<times> 'z pst_scheme) res" where
  "argint n s = bnd (cur s) (\<lambda>(c, s). fetchint (mem s (tf (procs s ! c) + tf_esp) + 4 + 4 * n) s)"

definition argptr :: "i32 \<Rightarrow> i32 \<Rightarrow> 'z pst_scheme \<Rightarrow> (u32 option \<times> 'z pst_scheme) res" where
  "argptr n len s =
     bnd (cur s) (\<lambda>(c, s).
     bnd (argint n s) (\<lambda>(i, s).
       case i of None \<Rightarrow> Inr (None, s)
       | Some i \<Rightarrow>
         if sint len < 0 \<or> i \<ge> sz (procs s ! c) \<or> i + len > sz (procs s ! c) then Inr (None, s)
         else Inr (Some i, s)))"

definition argstr :: "i32 \<Rightarrow> 'z pst_scheme \<Rightarrow> (u8 list option \<times> 'z pst_scheme) res" where
  "argstr n s =
     bnd (argint n s) (\<lambda>(a, s). case a of None \<Rightarrow> Inr (None, s) | Some addr \<Rightarrow> fetchstr addr s)"

text \<open>
  \<open>if(<fetch> < 0) return -1;\<close> followed by the rest of the routine.
\<close>

definition orfail ::
  "('a option \<times> 's) res \<Rightarrow> ('a \<Rightarrow> 's \<Rightarrow> (i32 \<times> 's) res) \<Rightarrow> (i32 \<times> 's) res" where
  "orfail r k = bnd r (\<lambda>(v, s). case v of None \<Rightarrow> Inr (-1, s) | Some x \<Rightarrow> k x s)"

lemma orfail_simps [simp]:
  "orfail (Inr (None, s)) k = Inr (-1, s)" "orfail (Inr (Some x, s)) k = k x s" "orfail (Inl e) k = Inl e"
  by (simp_all add: orfail_def)

subsection \<open>Process system calls\<close>

definition sys_fork :: "'z plst_scheme \<Rightarrow> (i32 \<times> 'z plst_scheme) res" where
  "sys_fork s = fork s"

text \<open>\<open>sys_exit\<close> does not return: its result is the state in which the scheduler goes on.\<close>

definition sys_exit :: "'z plst_scheme \<Rightarrow> 'z plst_scheme res" where
  "sys_exit s = bnd (exit_out s) (\<lambda>(_, s). Inr s)"

definition sys_wait :: "'z plst_scheme \<Rightarrow> (i32 \<times> 'z plst_scheme) res" where
  "sys_wait s = wait s"

definition sys_waitx :: "'z plst_scheme \<Rightarrow> (i32 \<times> 'z plst_scheme) res" where
  "sys_waitx s =
     orfail (argptr 1 4 s) (\<lambda>rtime_p s.
     orfail (argptr 0 4 s) (\<lambda>wtime_p s. waitx wtime_p rtime_p s))"

definition sys_kill :: "'z plst_scheme \<Rightarrow> (i32 \<times> 'z plst_scheme) res" where
  "sys_kill s = orfail (argint 0 s) kill"

definition sys_chpr :: "'z plst_scheme \<Rightarrow> (i32 \<times> 'z plst_scheme) res" where
  "sys_chpr s = orfail (argint 0 s) chpr"

definition sys_getpid :: "'z plst_scheme \<Rightarrow> (i32 \<times> 'z plst_scheme) res" where
  "sys_getpid s = bnd (cur s) (\<lambda>(c, s). Inr (pid (procs s ! c), s))"

definition sys_sbrk :: "'z plst_scheme \<Rightarrow> (i32 \<times> 'z plst_scheme) res" where
  "sys_sbrk s =
     orfail (argint 0 s) (\<lambda>n s.
     bnd (cur s) (\<lambda>(c, s).
     let addr = sz (procs s ! c)
     in bnd (growproc n s) (\<lambda>(r, s). if sint r < 0 then Inr (-1, s) else Inr (addr, s))))"

text \<open>
  The loop of \<open>sys_sleep\<close> with \<open>tickslock\<close> held, from its start or after a wake-up.  The
  comparison is unsigned, since \<open>ticks - ticks0\<close> is.
\<close>

definition sleep_loop :: "u32 \<Rightarrow> i32 \<Rightarrow> 'z plst_scheme \<Rightarrow> (i32 \<times> 'z plst_scheme) res" where
  "sleep_loop ticks0 n s =
     (if ticks s - ticks0 < n
      then bnd (am_killed s) (\<lambda>(k, s).
           if k then bnd (rel LTicks s) (\<lambda>s. Inr (-1, s)) else Inl (Sleeping ChTicks))
      else bnd (rel LTicks s) (\<lambda>s. Inr (0, s)))"

definition sys_sleep :: "'z plst_scheme \<Rightarrow> (i32 \<times> 'z plst_scheme) res" where
  "sys_sleep s =
     orfail (argint 0 s) (\<lambda>n s. bnd (acq LTicks s) (\<lambda>s. sleep_loop (ticks s) n s))"

definition sys_uptime :: "'z plst_scheme \<Rightarrow> (i32 \<times> 'z plst_scheme) res" where
  "sys_uptime s =
     bnd (acq LTicks s) (\<lambda>s.
     let xticks = ticks s
     in bnd (rel LTicks s) (\<lambda>s. Inr (xticks, s)))"

text \<open>The bytes of a \<open>struct proc_stat\<close>.\<close>

definition proc_stat_bytes :: "proc_stat \<Rightarrow> u8 list" where
  "proc_stat_bytes p =
     concat (map u32_bytes ([s_pid p, s_runtime p, s_num_run p, of_int (s_current_queue p)] @ s_ticks p))"

definition sys_getpinfo :: "'z plst_scheme \<Rightarrow> (i32 \<times> 'z plst_scheme) res" where
  "sys_getpinfo s =
     orfail (argptr 0 4 s) (\<lambda>p s.
     bnd (getpinfo s) (\<lambda>(r, st, s).
       case st of None \<Rightarrow> Inr (r, s)
       | Some st \<Rightarrow> bnd (uput_bytes p (proc_stat_bytes st) s) (\<lambda>s. Inr (r, s))))"

end
