(* ===== verification/Exec.thy ===== *)
theory Exec
  imports ProcLife
begin

text \<open>
  Loading a program (\<^verbatim>\<open>exec.c\<close>, \<^verbatim>\<open>elf.h\<close>).

  The path and the arguments are given as byte strings: they lie in the memory of the old
  image, which \<open>exec\<close> leaves alone until it commits to the new one.
\<close>

record elfhdr =
  e_magic :: u32
  e_entry :: u32
  e_phoff :: u32
  e_phnum :: u16

record proghdr =
  ph_type :: u32
  ph_off :: u32
  ph_vaddr :: u32
  ph_filesz :: u32
  ph_memsz :: u32

definition ELF_MAGIC :: u32 where [simp]: "ELF_MAGIC = 0x464C457F"
definition ELF_PROG_LOAD :: u32 where [simp]: "ELF_PROG_LOAD = 1"

text \<open>The fields \<open>exec\<close> uses, at their offsets; the headers have 52 and 32 bytes.\<close>

definition get_elfhdr :: "u8 list \<Rightarrow> elfhdr" where
  "get_elfhdr v = \<lparr>e_magic = le32 v 0, e_entry = le32 v 24, e_phoff = le32 v 28, e_phnum = le16 v 44\<rparr>"

definition get_proghdr :: "u8 list \<Rightarrow> proghdr" where
  "get_proghdr v = \<lparr>ph_type = le32 v 0, ph_off = le32 v 4, ph_vaddr = le32 v 8,
     ph_filesz = le32 v 16, ph_memsz = le32 v 20\<rparr>"

text \<open>
  The loop over the program headers, with \<open>n\<close> of them left: the new size, or \<open>None\<close> for
  \<open>goto bad\<close>.
\<close>

fun load_segments ::
  "nat \<Rightarrow> u32 \<Rightarrow> nat \<Rightarrow> i32 \<Rightarrow> u32 \<Rightarrow> 'z cst_scheme \<Rightarrow> (u32 option \<times> 'z cst_scheme) res" where
  "load_segments 0 pd ip off lim s = Inr (Some lim, s)"
| "load_segments (Suc n) pd ip off lim s =
     bnd (readi ip off 32 s) (\<lambda>(r, v, s).
       let ph = get_proghdr v
       in if r \<noteq> 32 then Inr (None, s)
          else if ph_type ph \<noteq> ELF_PROG_LOAD then load_segments n pd ip (off + 32) lim s
          else if ph_memsz ph < ph_filesz ph then Inr (None, s)
          else if ph_vaddr ph + ph_memsz ph < ph_vaddr ph then Inr (None, s)
          else bnd (allocuvm pd lim (ph_vaddr ph + ph_memsz ph) s) (\<lambda>(lim, s).
               if lim = 0 then Inr (None, s)
               else if ph_vaddr ph mod PGSIZE \<noteq> 0 then Inr (None, s)
               else bnd (loaduvm pd (ph_vaddr ph) ip (ph_off ph) (ph_filesz ph) s) (\<lambda>(r, s).
                    if sint r < 0 then Inr (None, s) else load_segments n pd ip (off + 32) lim s)))"

text \<open>
  Pushing the argument strings: the stack pointer after them and their addresses.
\<close>

fun push_args ::
  "u32 \<Rightarrow> u32 \<Rightarrow> u32 list \<Rightarrow> u8 list list \<Rightarrow> 'z kst_scheme \<Rightarrow> ((u32 \<times> u32 list) option \<times> 'z kst_scheme) res" where
  "push_args pd sp us [] s = Inr (Some (sp, us), s)"
| "push_args pd sp us (a # args) s =
     (if length us \<ge> MAXARG then Inr (None, s)
      else let sp = (sp - of_nat (length a + 1)) AND NOT 3
           in bnd (copyout pd sp (a @ [0]) s) (\<lambda>(r, s).
              if sint r < 0 then Inr (None, s) else push_args pd sp (us @ [sp]) args s))"

text \<open>The words below the argument strings: a return address, \<open>argc\<close>, \<open>argv\<close> and the vector.\<close>

definition ustack_words :: "u32 \<Rightarrow> u32 list \<Rightarrow> u32 list" where
  "ustack_words sp us =
     [0xFFFFFFFF, of_nat (length us), sp - (of_nat (length us) + 1) * 4] @ us @ [0]"

text \<open>The part of a path after its last slash.\<close>

definition last_name :: "u8 list \<Rightarrow> u8 list" where
  "last_name path = rev (takeWhile (\<lambda>c. c \<noteq> 47) (rev path))"

definition exec_bad :: "u32 \<Rightarrow> nat option \<Rightarrow> 'z cst_scheme \<Rightarrow> (i32 \<times> 'z cst_scheme) res" where
  "exec_bad pd ip s =
     bnd (if pd \<noteq> 0 then freevm pd s else Inr s) (\<lambda>s.
     bnd (case ip of None \<Rightarrow> Inr s | Some ip \<Rightarrow> bnd (iunlockput ip s) end_op) (\<lambda>s. Inr (-1, s)))"

text \<open>The second half: the stack, the arguments, and the switch to the new image.\<close>

definition exec_stack ::
  "nat \<Rightarrow> u8 list \<Rightarrow> u8 list list \<Rightarrow> u32 \<Rightarrow> u32 \<Rightarrow> u32 \<Rightarrow> 'z plst_scheme \<Rightarrow> (i32 \<times> 'z plst_scheme) res" where
  "exec_stack c path argv entry pd lim s =
     (let lim = PGROUNDUP lim
      in bnd (allocuvm pd lim (lim + 2 * PGSIZE) s) (\<lambda>(lim, s).
         if lim = 0 then exec_bad pd None s
         else bnd (clearpteu pd (lim - 2 * PGSIZE) s) (\<lambda>s.
              bnd (push_args pd lim [] argv s) (\<lambda>(r, s).
              case r of None \<Rightarrow> exec_bad pd None s
              | Some (sp, us) \<Rightarrow>
                let ws = ustack_words sp us; sp = sp - of_nat (length ws) * 4
                in bnd (copyout pd sp (concat (map u32_bytes ws)) s) (\<lambda>(r, s).
                   if sint r < 0 then exec_bad pd None s
                   else let s = setp c (\<lambda>x. x\<lparr>pname := map (\<lambda>v. char_of (unat v)) (take 15 (last_name path))\<rparr>) s;
                            oldpgdir = pgdir (procs s ! c);
                            s = setp c (\<lambda>x. x\<lparr>pgdir := pd, sz := lim\<rparr>) s;
                            t = tf (procs s ! c);
                            s = setmem (\<lambda>m. m(t + tf_eip := entry, t + tf_esp := sp)) s
                        in bnd (switchuvm (Some c) s) (\<lambda>s.
                           bnd (freevm oldpgdir s) (\<lambda>s. Inr (0, s))))))))"

definition exec :: "u8 list \<Rightarrow> u8 list list \<Rightarrow> 'z plst_scheme \<Rightarrow> (i32 \<times> 'z plst_scheme) res" where
  "exec path argv s =
     bnd (cur s) (\<lambda>(c, s).
     bnd (begin_op s) (\<lambda>s.
     bnd (namei path s) (\<lambda>(ip, s).
     case ip of
       None \<Rightarrow> bnd (end_op s) (\<lambda>s.
               bnd (cprintf (Some (map of_char ''exec: fail'' @ [10])) [] s) (\<lambda>s. Inr (-1, s)))
     | Some ip \<Rightarrow>
       bnd (ilock (Some ip) s) (\<lambda>s.
       bnd (readi ip 0 52 s) (\<lambda>(r, v, s).
       let elf = get_elfhdr v
       in if r \<noteq> 52 then exec_bad 0 (Some ip) s
          else if e_magic elf \<noteq> ELF_MAGIC then exec_bad 0 (Some ip) s
          else bnd (setupkvm s) (\<lambda>(pd, s).
               if pd = 0 then exec_bad 0 (Some ip) s
               else bnd (load_segments (unat (e_phnum elf)) pd ip (e_phoff elf) 0 s) (\<lambda>(r, s).
                    case r of None \<Rightarrow> exec_bad pd (Some ip) s
                    | Some lim \<Rightarrow>
                      bnd (iunlockput ip s) (\<lambda>s.
                      bnd (end_op s) (exec_stack c path argv (e_entry elf) pd lim)))))))))"

end
