(* ===== verification/Sysfile.thy ===== *)
theory Sysfile
  imports Syscall Exec
begin

text \<open>
  The file system calls (\<^verbatim>\<open>sysfile.c\<close>, \<^verbatim>\<open>fcntl.h\<close>).

  \<open>read\<close> and \<open>write\<close> work on the caller's memory: \<open>sys_write\<close> hands the bytes of the buffer to
  \<open>filewrite\<close>, and \<open>sys_read\<close> stores the bytes that \<open>fileread\<close> delivers.
\<close>

definition O_RDONLY :: u32 where [simp]: "O_RDONLY = 0"
definition O_WRONLY :: u32 where [simp]: "O_WRONLY = 1"
definition O_RDWR :: u32 where [simp]: "O_RDWR = 2"
definition O_CREATE :: u32 where [simp]: "O_CREATE = 0x200"

definition argfd :: "i32 \<Rightarrow> 'z plst_scheme \<Rightarrow> ((nat \<times> nat) option \<times> 'z plst_scheme) res" where
  "argfd n s =
     bnd (argint n s) (\<lambda>(fd, s).
       case fd of None \<Rightarrow> Inr (None, s)
       | Some fd \<Rightarrow>
         if sint fd < 0 \<or> sint fd \<ge> int NOFILE then Inr (None, s)
         else bnd (cur s) (\<lambda>(c, s).
              case ofile (procs s ! c) ! unat fd of None \<Rightarrow> Inr (None, s)
              | Some f \<Rightarrow> Inr (Some (unat fd, f), s)))"

definition fdalloc :: "nat \<Rightarrow> 'z plst_scheme \<Rightarrow> (nat option \<times> 'z plst_scheme) res" where
  "fdalloc f s =
     bnd (cur s) (\<lambda>(c, s).
       case first_idx (\<lambda>x. x = None) (ofile (procs s ! c)) of
         Some fd \<Rightarrow> Inr (Some fd, setp c (\<lambda>x. x\<lparr>ofile := (ofile x)[fd := Some f]\<rparr>) s)
       | None \<Rightarrow> Inr (None, s))"

definition sys_dup :: "'z plst_scheme \<Rightarrow> (i32 \<times> 'z plst_scheme) res" where
  "sys_dup s =
     orfail (argfd 0 s) (\<lambda>(_, f) s.
     orfail (fdalloc f s) (\<lambda>fd s.
     bnd (filedup f s) (\<lambda>(_, s). Inr (of_nat fd, s))))"

definition sys_read :: "'z plst_scheme \<Rightarrow> (i32 \<times> 'z plst_scheme) res" where
  "sys_read s =
     orfail (argfd 0 s) (\<lambda>(_, f) s.
     orfail (argint 2 s) (\<lambda>n s.
     orfail (argptr 1 n s) (\<lambda>p s.
     bnd (fileread f n s) (\<lambda>(r, v, s).
     bnd (uput_bytes p v s) (\<lambda>s. Inr (r, s))))))"

definition sys_write :: "'z plst_scheme \<Rightarrow> (i32 \<times> 'z plst_scheme) res" where
  "sys_write s =
     orfail (argfd 0 s) (\<lambda>(_, f) s.
     orfail (argint 2 s) (\<lambda>n s.
     orfail (argptr 1 n s) (\<lambda>p s.
     bnd (uget_bytes (unat n) s p) (\<lambda>v. filewrite f v n s))))"

definition sys_close :: "'z plst_scheme \<Rightarrow> (i32 \<times> 'z plst_scheme) res" where
  "sys_close s =
     orfail (argfd 0 s) (\<lambda>(fd, f) s.
     bnd (cur s) (\<lambda>(c, s).
     bnd (fileclose f (setp c (\<lambda>x. x\<lparr>ofile := (ofile x)[fd := None]\<rparr>) s)) (\<lambda>s. Inr (0, s))))"

text \<open>The layout of a \<open>struct stat\<close>: \<open>type\<close> and \<open>nlink\<close> are followed by two bytes of padding,
  which \<open>stati\<close> does not write.\<close>

definition put_stat :: "u32 \<Rightarrow> stat \<Rightarrow> 'z kst_scheme \<Rightarrow> 'z kst_scheme res" where
  "put_stat a st s =
     bnd (uput_bytes a (put16 0 (st_type st) [0, 0]) s) (\<lambda>s.
     bnd (uput32 (a + 4) (st_dev st) s) (\<lambda>s.
     bnd (uput32 (a + 8) (st_ino st) s) (\<lambda>s.
     bnd (uput_bytes (a + 12) (put16 0 (st_nlink st) [0, 0]) s) (uput32 (a + 16) (st_size st)))))"

definition sys_fstat :: "'z plst_scheme \<Rightarrow> (i32 \<times> 'z plst_scheme) res" where
  "sys_fstat s =
     orfail (argfd 0 s) (\<lambda>(_, f) s.
     orfail (argptr 1 20 s) (\<lambda>p s.
     bnd (filestat f s) (\<lambda>(r, st, s).
     case st of None \<Rightarrow> Inr (r, s) | Some st \<Rightarrow> bnd (put_stat p st s) (\<lambda>s. Inr (r, s)))))"

text \<open>\<open>end_op(); return -1;\<close>\<close>

definition fail_op :: "'z lst_scheme \<Rightarrow> (i32 \<times> 'z lst_scheme) res" where
  "fail_op s = bnd (end_op s) (\<lambda>s. Inr (-1, s))"

definition link_bad :: "nat \<Rightarrow> 'z plst_scheme \<Rightarrow> (i32 \<times> 'z plst_scheme) res" where
  "link_bad ip s =
     bnd (ilock (Some ip) s) (\<lambda>s.
     bnd (iupdate ip (seti ip (\<lambda>x. x\<lparr>inlink := inlink x - 1\<rparr>) s)) (\<lambda>s.
     bnd (iunlockput ip s) fail_op))"

definition sys_link :: "'z plst_scheme \<Rightarrow> (i32 \<times> 'z plst_scheme) res" where
  "sys_link s =
     orfail (argstr 0 s) (\<lambda>old s.
     orfail (argstr 1 s) (\<lambda>new s.
     bnd (begin_op s) (\<lambda>s.
     bnd (namei old s) (\<lambda>(ip, s).
     case ip of None \<Rightarrow> fail_op s
     | Some ip \<Rightarrow>
       bnd (ilock (Some ip) s) (\<lambda>s.
       if itype (icache s ! ip) = T_DIR then bnd (iunlockput ip s) fail_op
       else bnd (iupdate ip (seti ip (\<lambda>x. x\<lparr>inlink := inlink x + 1\<rparr>) s)) (\<lambda>s.
            bnd (iunlock (Some ip) s) (\<lambda>s.
            bnd (nameiparent new (replicate DIRSIZ 0) s) (\<lambda>(dp, name, s).
            case dp of None \<Rightarrow> link_bad ip s
            | Some dp \<Rightarrow>
              bnd (ilock (Some dp) s) (\<lambda>s.
              bnd (if idev (icache s ! dp) \<noteq> idev (icache s ! ip) then Inr (-1, s)
                   else dirlink dp name (inum (icache s ! ip)) s) (\<lambda>(r, s).
              if sint r < 0 then bnd (iunlockput dp s) (link_bad ip)
              else bnd (iunlockput dp s) (\<lambda>s.
                   bnd (iput ip s) (\<lambda>s.
                   bnd (end_op s) (\<lambda>s. Inr (0, s))))))))))))))"

fun isdirempty_loop :: "nat \<Rightarrow> u32 list \<Rightarrow> 'z cst_scheme \<Rightarrow> (bool \<times> 'z cst_scheme) res" where
  "isdirempty_loop dp [] s = Inr (True, s)"
| "isdirempty_loop dp (off # offs) s =
     bnd (readi dp off 16 s) (\<lambda>(r, v, s).
       if r \<noteq> 16 then panic ''isdirempty: readi''
       else if de_inum (get_dirent v) \<noteq> 0 then Inr (False, s)
       else isdirempty_loop dp offs s)"

definition isdirempty :: "nat \<Rightarrow> 'z cst_scheme \<Rightarrow> (bool \<times> 'z cst_scheme) res" where
  "isdirempty dp s = isdirempty_loop dp (drop 2 (offsets (isize (icache s ! dp)))) s"

definition sys_unlink :: "'z plst_scheme \<Rightarrow> (i32 \<times> 'z plst_scheme) res" where
  "sys_unlink s =
     orfail (argstr 0 s) (\<lambda>path s.
     bnd (begin_op s) (\<lambda>s.
     bnd (nameiparent path (replicate DIRSIZ 0) s) (\<lambda>(dp, name, s).
     case dp of None \<Rightarrow> fail_op s
     | Some dp \<Rightarrow>
       let bad = (\<lambda>s. bnd (iunlockput dp s) fail_op)
       in bnd (ilock (Some dp) s) (\<lambda>s.
          if namecmp name [46, 0] = 0 \<or> namecmp name [46, 46, 0] = 0 then bad s
          else bnd (dirlookup dp name s) (\<lambda>(r, s).
               case r of None \<Rightarrow> bad s
               | Some (ip, off) \<Rightarrow>
                 bnd (ilock (Some ip) s) (\<lambda>s.
                 if sint (inlink (icache s ! ip)) < 1 then panic ''unlink: nlink < 1''
                 else bnd (if itype (icache s ! ip) = T_DIR then isdirempty ip s else Inr (True, s)) (\<lambda>(e, s).
                      if \<not> e then bnd (iunlockput ip s) bad
                      else bnd (writei dp (replicate 16 0) off 16 s) (\<lambda>(r, s).
                           if r \<noteq> 16 then panic ''unlink: writei''
                           else bnd (if itype (icache s ! ip) = T_DIR
                                     then iupdate dp (seti dp (\<lambda>x. x\<lparr>inlink := inlink x - 1\<rparr>) s)
                                     else Inr s) (\<lambda>s.
                                bnd (iunlockput dp s) (\<lambda>s.
                                bnd (iupdate ip (seti ip (\<lambda>x. x\<lparr>inlink := inlink x - 1\<rparr>) s)) (\<lambda>s.
                                bnd (iunlockput ip s) (\<lambda>s.
                                bnd (end_op s) (\<lambda>s. Inr (0, s))))))))))))))"

definition create :: "u8 list \<Rightarrow> u16 \<Rightarrow> u16 \<Rightarrow> u16 \<Rightarrow> 'z plst_scheme \<Rightarrow> (nat option \<times> 'z plst_scheme) res" where
  "create path type major minor s =
     bnd (nameiparent path (replicate DIRSIZ 0) s) (\<lambda>(dp, name, s).
     case dp of None \<Rightarrow> Inr (None, s)
     | Some dp \<Rightarrow>
       bnd (ilock (Some dp) s) (\<lambda>s.
       bnd (dirlookup dp name s) (\<lambda>(r, s).
       case r of
         Some (ip, _) \<Rightarrow>
           bnd (iunlockput dp s) (\<lambda>s.
           bnd (ilock (Some ip) s) (\<lambda>s.
           if type = T_FILE \<and> itype (icache s ! ip) = T_FILE then Inr (Some ip, s)
           else bnd (iunlockput ip s) (\<lambda>s. Inr (None, s))))
       | None \<Rightarrow>
           bnd (ialloc (idev (icache s ! dp)) type s) (\<lambda>(ip, s).
           bnd (ilock (Some ip) s) (\<lambda>s.
           bnd (iupdate ip (seti ip (\<lambda>x. x\<lparr>imajor := major, iminor := minor, inlink := 1\<rparr>) s)) (\<lambda>s.
           bnd (if type = T_DIR
                then bnd (iupdate dp (seti dp (\<lambda>x. x\<lparr>inlink := inlink x + 1\<rparr>) s)) (\<lambda>s.
                     bnd (dirlink ip [46, 0] (inum (icache s ! ip)) s) (\<lambda>(r, s).
                     if sint r < 0 then panic ''create dots''
                     else bnd (dirlink ip [46, 46, 0] (inum (icache s ! dp)) s) (\<lambda>(r, s).
                          if sint r < 0 then panic ''create dots'' else Inr s)))
                else Inr s) (\<lambda>s.
           bnd (dirlink dp name (inum (icache s ! ip)) s) (\<lambda>(r, s).
           if sint r < 0 then panic ''create: dirlink''
           else bnd (iunlockput dp s) (\<lambda>s. Inr (Some ip, s))))))))))"

text \<open>\<open>sys_open\<close> finds or creates the inode, which is then locked.\<close>

definition open_inode :: "u8 list \<Rightarrow> i32 \<Rightarrow> 'z plst_scheme \<Rightarrow> (nat option \<times> 'z plst_scheme) res" where
  "open_inode path omode s =
     (if omode AND O_CREATE \<noteq> 0 then create path T_FILE 0 0 s
      else bnd (namei path s) (\<lambda>(ip, s).
           case ip of None \<Rightarrow> Inr (None, s)
           | Some ip \<Rightarrow>
             bnd (ilock (Some ip) s) (\<lambda>s.
             if itype (icache s ! ip) = T_DIR \<and> omode \<noteq> O_RDONLY
             then bnd (iunlockput ip s) (\<lambda>s. Inr (None, s))
             else Inr (Some ip, s))))"

definition sys_open :: "'z plst_scheme \<Rightarrow> (i32 \<times> 'z plst_scheme) res" where
  "sys_open s =
     orfail (argstr 0 s) (\<lambda>path s.
     orfail (argint 1 s) (\<lambda>omode s.
     bnd (begin_op s) (\<lambda>s.
     bnd (open_inode path omode s) (\<lambda>(ip, s).
     case ip of None \<Rightarrow> fail_op s
     | Some ip \<Rightarrow>
       bnd (filealloc s) (\<lambda>(f, s).
       bnd (case f of None \<Rightarrow> Inr (None, s) | Some f \<Rightarrow> fdalloc f s) (\<lambda>(fd, s).
       case (f, fd) of
         (Some f, Some fd) \<Rightarrow>
           bnd (iunlock (Some ip) s) (\<lambda>s.
           bnd (end_op s) (\<lambda>s.
           Inr (of_nat fd,
             setf f (\<lambda>x. x\<lparr>ftype := FD_INODE, fip := Some ip, foff := 0,
                readable := (omode AND O_WRONLY = 0),
                writable := (omode AND O_WRONLY \<noteq> 0 \<or> omode AND O_RDWR \<noteq> 0)\<rparr>) s)))
       | _ \<Rightarrow> bnd (close_opt f s) (\<lambda>s. bnd (iunlockput ip s) fail_op)))))))"

definition sys_mkdir :: "'z plst_scheme \<Rightarrow> (i32 \<times> 'z plst_scheme) res" where
  "sys_mkdir s =
     bnd (begin_op s) (\<lambda>s.
     bnd (argstr 0 s) (\<lambda>(path, s).
     bnd (case path of None \<Rightarrow> Inr (None, s) | Some path \<Rightarrow> create path T_DIR 0 0 s) (\<lambda>(ip, s).
     case ip of None \<Rightarrow> fail_op s
     | Some ip \<Rightarrow> bnd (iunlockput ip s) (\<lambda>s. bnd (end_op s) (\<lambda>s. Inr (0, s))))))"

text \<open>The device numbers are \<open>int\<close>s that \<open>create\<close> takes as \<open>short\<close>s.\<close>

definition sys_mknod :: "'z plst_scheme \<Rightarrow> (i32 \<times> 'z plst_scheme) res" where
  "sys_mknod s =
     bnd (begin_op s) (\<lambda>s.
     bnd (argstr 0 s) (\<lambda>(path, s).
     case path of None \<Rightarrow> fail_op s
     | Some path \<Rightarrow>
       bnd (argint 1 s) (\<lambda>(major, s).
       case major of None \<Rightarrow> fail_op s
       | Some major \<Rightarrow>
         bnd (argint 2 s) (\<lambda>(minor, s).
         case minor of None \<Rightarrow> fail_op s
         | Some minor \<Rightarrow>
           bnd (create path T_DEV (ucast major) (ucast minor) s) (\<lambda>(ip, s).
           case ip of None \<Rightarrow> fail_op s
           | Some ip \<Rightarrow> bnd (iunlockput ip s) (\<lambda>s. bnd (end_op s) (\<lambda>s. Inr (0, s))))))))"

definition sys_chdir :: "'z plst_scheme \<Rightarrow> (i32 \<times> 'z plst_scheme) res" where
  "sys_chdir s =
     bnd (cur s) (\<lambda>(c, s).
     bnd (begin_op s) (\<lambda>s.
     bnd (argstr 0 s) (\<lambda>(path, s).
     bnd (case path of None \<Rightarrow> Inr (None, s) | Some path \<Rightarrow> namei path s) (\<lambda>(ip, s).
     case ip of None \<Rightarrow> fail_op s
     | Some ip \<Rightarrow>
       bnd (ilock (Some ip) s) (\<lambda>s.
       if itype (icache s ! ip) \<noteq> T_DIR then bnd (iunlockput ip s) fail_op
       else bnd (iunlock (Some ip) s) (\<lambda>s.
            bnd (case cwd (procs s ! c) of None \<Rightarrow> Inl OutOfRange | Some d \<Rightarrow> iput d s) (\<lambda>s.
            bnd (end_op s) (\<lambda>s.
            Inr (0, setp c (\<lambda>x. x\<lparr>cwd := Some ip\<rparr>) s)))))))))"

text \<open>The loop of \<open>sys_exec\<close> that collects the arguments, with room for \<open>n\<close> more of them.\<close>

fun exec_args :: "nat \<Rightarrow> u32 \<Rightarrow> 'z plst_scheme \<Rightarrow> (u8 list list option \<times> 'z plst_scheme) res" where
  "exec_args 0 uargv s = Inr (None, s)"
| "exec_args (Suc n) uargv s =
     bnd (fetchint uargv s) (\<lambda>(uarg, s).
       case uarg of None \<Rightarrow> Inr (None, s)
       | Some uarg \<Rightarrow>
         if uarg = 0 then Inr (Some [], s)
         else bnd (fetchstr uarg s) (\<lambda>(a, s).
              case a of None \<Rightarrow> Inr (None, s)
              | Some a \<Rightarrow> bnd (exec_args n (uargv + 4) s) (\<lambda>(r, s). Inr (map_option (\<lambda>as. a # as) r, s))))"

definition sys_exec :: "'z plst_scheme \<Rightarrow> (i32 \<times> 'z plst_scheme) res" where
  "sys_exec s =
     orfail (argstr 0 s) (\<lambda>path s.
     orfail (argint 1 s) (\<lambda>uargv s.
     orfail (exec_args MAXARG uargv s) (\<lambda>argv s. exec path argv s)))"

definition sys_pipe :: "'z plst_scheme \<Rightarrow> (i32 \<times> 'z plst_scheme) res" where
  "sys_pipe s =
     orfail (argptr 0 8 s) (\<lambda>p s.
     orfail (pipealloc s) (\<lambda>(rf, wf) s.
     let bad = (\<lambda>s. bnd (fileclose rf s) (\<lambda>s. bnd (fileclose wf s) (\<lambda>s. Inr (-1, s))))
     in bnd (fdalloc rf s) (\<lambda>(fd0, s).
        case fd0 of None \<Rightarrow> bad s
        | Some fd0 \<Rightarrow>
          bnd (fdalloc wf s) (\<lambda>(fd1, s).
          case fd1 of
            None \<Rightarrow> bnd (cur s) (\<lambda>(c, s). bad (setp c (\<lambda>x. x\<lparr>ofile := (ofile x)[fd0 := None]\<rparr>) s))
          | Some fd1 \<Rightarrow>
            bnd (uput32 p (of_nat fd0) s) (\<lambda>s.
            bnd (uput32 (p + 4) (of_nat fd1) s) (\<lambda>s. Inr (0, s)))))))"

end
