(* ===== verification/Trap.thy ===== *)
theory Trap
  imports Sysfile
begin

text \<open>
  System call dispatch (\<^verbatim>\<open>syscall.c\<close>, \<^verbatim>\<open>syscall.h\<close>), traps and interrupts (\<^verbatim>\<open>trap.c\<close>,
  \<^verbatim>\<open>traps.h\<close>, the gates of \<^verbatim>\<open>mmu.h\<close>), the serial port's input (\<^verbatim>\<open>uart.c\<close>) and the
  acknowledgement of interrupts (\<^verbatim>\<open>lapic.c\<close>).

  What the devices deliver while a trap is handled is the argument \<open>hw\<close>.  A trap ends by
  returning to the interrupted code, by \<open>exit\<close> (the process is gone) or by \<open>yield\<close>; in the
  last case \<open>trap_resume\<close> is the rest of the routine once the process has been chosen again.
  The kernel is built with the disk of \<^verbatim>\<open>memide.c\<close>, whose interrupt handler does nothing.
\<close>

datatype ('a, 's) go = Ret 'a 's | Gone 's

subsection \<open>System calls\<close>

definition ret :: "('a \<times> 's) res \<Rightarrow> ('a, 's) go res" where
  "ret r = bnd r (\<lambda>(v, s). Inr (Ret v s))"

definition gone :: "'s res \<Rightarrow> ('a, 's) go res" where
  "gone r = bnd r (\<lambda>s. Inr (Gone s))"

definition syscalls :: "(int \<times> ('z plst_scheme \<Rightarrow> (i32, 'z plst_scheme) go res)) list" where
  "syscalls =
     [(1, \<lambda>s. ret (sys_fork s)), (2, \<lambda>s. gone (sys_exit s)), (3, \<lambda>s. ret (sys_wait s)),
      (22, \<lambda>s. ret (sys_waitx s)), (23, \<lambda>s. ret (sys_chpr s)), (4, \<lambda>s. ret (sys_pipe s)),
      (5, \<lambda>s. ret (sys_read s)), (6, \<lambda>s. ret (sys_kill s)), (7, \<lambda>s. ret (sys_exec s)),
      (8, \<lambda>s. ret (sys_fstat s)), (9, \<lambda>s. ret (sys_chdir s)), (10, \<lambda>s. ret (sys_dup s)),
      (11, \<lambda>s. ret (sys_getpid s)), (12, \<lambda>s. ret (sys_sbrk s)), (13, \<lambda>s. ret (sys_sleep s)),
      (14, \<lambda>s. ret (sys_uptime s)), (15, \<lambda>s. ret (sys_open s)), (16, \<lambda>s. ret (sys_write s)),
      (17, \<lambda>s. ret (sys_mknod s)), (18, \<lambda>s. ret (sys_unlink s)), (19, \<lambda>s. ret (sys_link s)),
      (20, \<lambda>s. ret (sys_mkdir s)), (21, \<lambda>s. ret (sys_close s)), (24, \<lambda>s. ret (sys_getpinfo s))]"

text \<open>\<open>NELEM(syscalls)\<close> is 25.\<close>

definition syscall :: "'z plst_scheme \<Rightarrow> (unit, 'z plst_scheme) go res" where
  "syscall s =
     bnd (cur s) (\<lambda>(c, s).
     let num = sint (mem s (tf (procs s ! c) + tf_eax));
         put = (\<lambda>v s. setmem (\<lambda>m. m(tf (procs s ! c) + tf_eax := v)) s)
     in case (if 0 < num \<and> num < 25 then map_of syscalls num else None) of
          Some f \<Rightarrow>
            bnd (f s) (\<lambda>r. case r of Ret v s \<Rightarrow> Inr (Ret () (put v s)) | Gone s \<Rightarrow> Inr (Gone s))
        | None \<Rightarrow>
            bnd (cprintf (Some (map of_char ''%d %s: unknown sys call %d'' @ [10]))
                   [AInt (pid (procs s ! c)), AStr (map of_char (pname (procs s ! c))), AInt (of_int num)] s)
              (\<lambda>s. Inr (Ret () (put (-1) s))))"

subsection \<open>Gates\<close>

record gatedesc =
  off_15_0 :: u16
  gate_cs :: u16
  gate_args :: nat
  gate_rsv1 :: nat
  gate_type :: nat
  gate_s :: nat
  gate_dpl :: nat
  gate_p :: nat
  off_31_16 :: u16

definition SETGATE :: "bool \<Rightarrow> u16 \<Rightarrow> u32 \<Rightarrow> nat \<Rightarrow> gatedesc" where
  "SETGATE istrap sel off d =
     \<lparr>off_15_0 = ucast (off AND 0xFFFF), gate_cs = sel, gate_args = 0, gate_rsv1 = 0,
      gate_type = (if istrap then 0xF else 0xE), gate_s = 0, gate_dpl = d, gate_p = 1,
      off_31_16 = ucast (drop_bit 16 off)\<rparr>"

record tst = plst +
  idt :: "gatedesc list"
  lapic :: bool
  eois :: nat

text \<open>The entry points \<open>vectors\<close> come from a generated file.\<close>

definition tvinit :: "(nat \<Rightarrow> u32) \<Rightarrow> 'z tst_scheme \<Rightarrow> 'z tst_scheme" where
  "tvinit vectors s =
     s\<lparr>idt := (map (\<lambda>i. SETGATE False 8 (vectors i) 0) [0..<256])[64 := SETGATE True 8 (vectors 64) 3],
       locks := (locks s)(LTicks := initlock)\<rparr>"

definition lapiceoi :: "'z tst_scheme \<Rightarrow> 'z tst_scheme" where
  "lapiceoi s = (if lapic s then s\<lparr>eois := eois s + 1\<rparr> else s)"

subsection \<open>Interrupts\<close>

record hwin =
  kbd_in :: "(u32 \<times> u32) list"
  uart_in :: "(u8 \<times> u8) list"
  cr2 :: u32

definition uartgetc :: "bool \<Rightarrow> u8 \<Rightarrow> u8 \<Rightarrow> nat option" where
  "uartgetc on st data = (if \<not> on then None else if st AND 1 = 0 then None else Some (unat data))"

fun uart_chars :: "bool \<Rightarrow> (u8 \<times> u8) list \<Rightarrow> nat list" where
  "uart_chars on [] = []"
| "uart_chars on ((st, data) # ps) = (case uartgetc on st data of None \<Rightarrow> [] | Some c \<Rightarrow> c # uart_chars on ps)"

definition uartintr :: "(u8 \<times> u8) list \<Rightarrow> 'z cst_scheme \<Rightarrow> 'z cst_scheme res" where
  "uartintr ps s = consoleintr (uart_chars (uart s) ps) s"

definition cpuid :: "'z mach_scheme \<Rightarrow> nat res" where
  "cpuid s =
     (if iflag (mcpu s) then panic ''mycpu called with interrupts enabled'' else Inr (cpu_id (mcpu s)))"

text \<open>The interrupt handler of \<^verbatim>\<open>memide.c\<close>.\<close>

definition ideintr :: "'s \<Rightarrow> 's" where
  "ideintr s = s"

definition timer_tick :: "'z plst_scheme \<Rightarrow> 'z plst_scheme res" where
  "timer_tick s =
     bnd (cpuid s) (\<lambda>i.
     bnd (if i = 0
          then bnd (acq LTicks s) (\<lambda>s. bnd (wakeup ChTicks (s\<lparr>ticks := ticks s + 1\<rparr>)) (rel LTicks))
          else Inr s) (\<lambda>s.
     bnd (myproc s) (\<lambda>(p, s).
     case p of None \<Rightarrow> Inr s
     | Some c \<Rightarrow>
       Inr (setp c (\<lambda>x. x\<lparr>rtime := rtime x + 1, modtime := modtime x + 1, last_executed := ticks s,
                   pticks := upd (nat (pqueue x)) (\<lambda>k. k + 1) (pticks x)\<rparr>) s))))"

text \<open>The \<open>switch\<close> of \<open>trap\<close> on the trap number.\<close>

definition trap_switch :: "u32 \<Rightarrow> hwin \<Rightarrow> 'z tst_scheme \<Rightarrow> 'z tst_scheme res" where
  "trap_switch t hw s =
     (let no = mem s (t + tf_trapno)
      in if no = 32 then bnd (timer_tick s) (\<lambda>s. Inr (lapiceoi s))
         else if no = 46 then Inr (lapiceoi (ideintr s))
         else if no = 47 then Inr s
         else if no = 33 then bnd (kbdintr (kbd_in hw) s) (\<lambda>s. Inr (lapiceoi s))
         else if no = 36 then bnd (uartintr (uart_in hw) s) (\<lambda>s. Inr (lapiceoi s))
         else if no = 39 \<or> no = 63
         then bnd (cpuid s) (\<lambda>i.
              bnd (cprintf (Some (map of_char ''cpu%d: spurious interrupt at %x:%x'' @ [10]))
                     [AInt (of_nat i), AInt (mem s (t + tf_cs) AND 0xFFFF), AInt (mem s (t + tf_eip))] s)
                (\<lambda>s. Inr (lapiceoi s)))
         else bnd (myproc s) (\<lambda>(p, s).
              bnd (cpuid s) (\<lambda>i.
              case (p, mem s (t + tf_cs) AND 3 = 0) of
                (Some c, False) \<Rightarrow>
                  bnd (cprintf (Some (map of_char ''pid %d %s: trap %d err %d on cpu %d eip 0x%x addr 0x%x--kill proc'' @ [10]))
                         [AInt (pid (procs s ! c)), AStr (map of_char (pname (procs s ! c))), AInt no,
                          AInt (mem s (t + tf_err)), AInt (of_nat i), AInt (mem s (t + tf_eip)), AInt (cr2 hw)] s)
                    (\<lambda>s. Inr (setp c (\<lambda>x. x\<lparr>killed := True\<rparr>) s))
              | _ \<Rightarrow>
                  bnd (cprintf (Some (map of_char ''unexpected trap %d from cpu %d eip %x (cr2=0x%x)'' @ [10]))
                         [AInt no, AInt (of_nat i), AInt (mem s (t + tf_eip)), AInt (cr2 hw)] s)
                    (\<lambda>_. panic ''trap''))))"

datatype 's after = Back 's | Exited 's | Yielding bool 's

definition exited :: "'z plst_scheme \<Rightarrow> 'z plst_scheme after res" where
  "exited s = bnd (exit_out s) (\<lambda>(_, s). Inr (Exited s))"

text \<open>\<open>myproc() && myproc()->killed && (tf->cs&3) == DPL_USER\<close>\<close>

definition must_exit :: "u32 \<Rightarrow> 'z pst_scheme \<Rightarrow> (bool \<times> 'z pst_scheme) res" where
  "must_exit t s =
     bnd (myproc s) (\<lambda>(p, s).
     Inr (case p of None \<Rightarrow> False | Some c \<Rightarrow> killed (procs s ! c) \<and> mem s (t + tf_cs) AND 3 = 3, s))"

definition trap_last :: "u32 \<Rightarrow> 'z plst_scheme \<Rightarrow> 'z plst_scheme after res" where
  "trap_last t s = bnd (must_exit t s) (\<lambda>(k, s). if k then exited s else Inr (Back s))"

text \<open>What remains to be done when a process that yielded in \<open>trap\<close> runs again.\<close>

definition trap_resume :: "u32 \<Rightarrow> bool \<Rightarrow> 'z plst_scheme \<Rightarrow> 'z plst_scheme after res" where
  "trap_resume t i s = bnd (yield_in i s) (trap_last t)"

definition trap_end :: "u32 \<Rightarrow> u32 \<Rightarrow> 'z plst_scheme \<Rightarrow> 'z plst_scheme after res" where
  "trap_end t no s =
     bnd (must_exit t s) (\<lambda>(k, s).
       if k then exited s
       else bnd (myproc s) (\<lambda>(p, s).
            if (case p of None \<Rightarrow> False | Some c \<Rightarrow> pstate (procs s ! c) = RUNNING) \<and> no = 32
            then bnd (yield_out s) (\<lambda>(i, s). Inr (Yielding i s))
            else trap_last t s))"

definition trap :: "u32 \<Rightarrow> hwin \<Rightarrow> 'z tst_scheme \<Rightarrow> 'z tst_scheme after res" where
  "trap t hw s =
     (if mem s (t + tf_trapno) = 64
      then bnd (cur s) (\<lambda>(c, s).
           if killed (procs s ! c) then exited s
           else bnd (syscall (setp c (\<lambda>x. x\<lparr>tf := t\<rparr>) s)) (\<lambda>r.
                case r of Gone s \<Rightarrow> Inr (Exited s)
                | Ret _ s \<Rightarrow>
                  bnd (cur s) (\<lambda>(c, s). if killed (procs s ! c) then exited s else Inr (Back s))))
      else let no = mem s (t + tf_trapno)
           in bnd (trap_switch t hw s) (trap_end t no))"

end
