(* ===== verification/Ring.thy ===== *)
theory Ring
  imports Fifo
begin

text \<open>
  A ring of \<open>N\<close> slots addressed by two free-running 32-bit counters, as pipes and the console
  input buffer have it: the elements between the counters \<open>r\<close> and \<open>w\<close>.  Since \<open>N\<close> divides
  \<open>2 ^ 32\<close>, the slot of a counter is not disturbed when the counter wraps around.
\<close>

definition ring_list :: "nat \<Rightarrow> 'a list \<Rightarrow> u32 \<Rightarrow> u32 \<Rightarrow> 'a list" where
  "ring_list N d r w = map (\<lambda>i. d ! ((unat r + i) mod N)) [0..<unat (w - r)]"

lemma length_ring_list [simp]: "length (ring_list N d r w) = unat (w - r)"
  by (simp add: ring_list_def)

lemma ring_list_Nil [simp]: "ring_list N d r w = [] \<longleftrightarrow> w = r"
  by (simp add: ring_list_def unat_eq_0)

lemma ring_list_same [simp]: "ring_list N d r r = []"
  by simp

lemma unat_wrap:
  assumes "N dvd 2 ^ 32"
  shows "unat (a + of_nat i :: u32) mod N = (unat a + i) mod N"
proof -
  have "unat (a + of_nat i) = (unat a + i) mod 2 ^ 32"
    by (simp add: unat_word_ariths take_bit_eq_mod unsigned_of_nat mod_simps)
  then show ?thesis using assms by (simp add: mod_mod_cancel)
qed

lemma unat_wrap_diff:
  fixes r w :: u32
  assumes "N dvd 2 ^ 32"
  shows "unat w mod N = (unat r + unat (w - r)) mod N"
  using unat_wrap [OF assms, of r "unat (w - r)"] by simp

lemma ring_distinct:
  assumes "i < n" and "n < N"
  shows "(r + i) mod N \<noteq> (r + n) mod (N :: nat)"
proof
  assume "(r + i) mod N = (r + n) mod N"
  then have "N dvd (r + n) - (r + i)" using assms by (subst mod_eq_dvd_iff_nat [symmetric]) simp_all
  then have "N dvd n - i" by simp
  then show False using assms by (auto dest: dvd_imp_le)
qed

lemma ring_length_push:
  assumes "unat (w - r) < 4294967295"
  shows "unat (w + 1 - r :: u32) = Suc (unat (w - r))"
proof -
  have d: "w + 1 - r = (w - r) + 1" by simp
  show ?thesis unfolding d using unat_u32_add [of "w - r" 1] assms by simp
qed

lemma ring_push:
  assumes N: "N dvd 2 ^ 32" "N < 2 ^ 32" and d: "length d = N" and n: "unat (w - r) < N"
  shows "ring_list N (d[unat w mod N := c]) r (w + 1) = ring_list N d r w @ [c]"
proof -
  let ?n = "unat (w - r)"
  have "0 < N" using n by auto
  have s: "unat (w + 1 - r) = Suc ?n" using ring_length_push [of w r] n N(2) by simp
  have at: "unat w mod N = (unat r + ?n) mod N" by (rule unat_wrap_diff [OF N(1)])
  have "ring_list N (d[unat w mod N := c]) r (w + 1) ! i = (ring_list N d r w @ [c]) ! i" if "i < Suc ?n" for i
  proof (cases "i = ?n")
    case True
    then show ?thesis using d s \<open>0 < N\<close> by (simp add: ring_list_def at nth_append)
  next
    case False
    then have "i < ?n" using that by simp
    then show ?thesis using d s ring_distinct [of i ?n N "unat r"] n
      by (simp add: ring_list_def at nth_append)
  qed
  then show ?thesis using s by (intro nth_equalityI) simp_all
qed

lemma ring_pop:
  assumes N: "N dvd 2 ^ 32" and ne: "w \<noteq> r"
  shows "ring_list N d r w = d ! (unat r mod N) # ring_list N d (r + 1) w"
    "unat (w - (r + 1)) = unat (w - r) - 1"
proof -
  let ?n = "unat (w - r)"
  have n: "0 < ?n" using ne by (simp add: unat_gt_0)
  have e: "w - (r + 1) = (w - r) - 1" by simp
  show s: "unat (w - (r + 1)) = ?n - 1" unfolding e using unat_u32_sub [of "w - r" 1] n by simp
  have "(unat (r + 1) + i) mod N = (unat r + Suc i) mod N" for i
  proof -
    have "(unat (r + 1) + i) mod N = (unat (r + 1) mod N + i) mod N" by (simp add: mod_add_left_eq)
    also have "\<dots> = ((unat r + 1) mod N + i) mod N" using unat_wrap [OF N, of r 1] by simp
    finally show ?thesis by (simp add: mod_add_left_eq)
  qed
  then have "ring_list N d (r + 1) w = map (\<lambda>i. d ! ((unat r + Suc i) mod N)) [0..<?n - 1]"
    using s by (simp add: ring_list_def)
  moreover have "[0..<?n] = 0 # map Suc [0..<?n - 1]" using n by (simp add: map_Suc_upt upt_conv_Cons)
  ultimately show "ring_list N d r w = d ! (unat r mod N) # ring_list N d (r + 1) w"
    by (simp add: ring_list_def del: upt_Suc)
qed

lemma ring_unpush:
  assumes ne: "w \<noteq> r"
  shows "ring_list N d r (w - 1) = butlast (ring_list N d r w)" "unat (w - 1 - r) = unat (w - r) - 1"
proof -
  let ?n = "unat (w - r)"
  have n: "0 < ?n" using ne by (simp add: unat_gt_0)
  have e: "w - 1 - r = (w - r) - 1" by simp
  show s: "unat (w - 1 - r) = ?n - 1" unfolding e using unat_u32_sub [of "w - r" 1] n by simp
  have "butlast [0..<?n] = [0..<?n - 1]" using n by (cases ?n) simp_all
  then show "ring_list N d r (w - 1) = butlast (ring_list N d r w)"
    using s by (simp add: ring_list_def map_butlast [symmetric])
qed

end
