(* ===== verification/PipeInv.thy ===== *)
theory PipeInv
  imports File Ring
begin

text \<open>
  The ring of a pipe as a bounded queue of bytes.  The counters \<open>nread\<close> and \<open>nwrite\<close> run
  freely and wrap around at \<open>2 ^ 32\<close>, a multiple of \<open>PIPESIZE\<close>; what counts is their
  difference.
\<close>

definition pipe_wf :: "pipe \<Rightarrow> bool" where
  "pipe_wf q \<longleftrightarrow> length (pdata q) = PIPESIZE \<and> unat (nwrite q - nread q) \<le> PIPESIZE"

definition pipe_bytes :: "pipe \<Rightarrow> u8 list" where
  "pipe_bytes q = ring_list PIPESIZE (pdata q) (nread q) (nwrite q)"

lemma length_pipe_bytes [simp]: "length (pipe_bytes q) = unat (nwrite q - nread q)"
  by (simp add: pipe_bytes_def)

lemma pipe_full_iff: "pipe_full q \<longleftrightarrow> unat (nwrite q - nread q) = 512"
proof -
  have "pipe_full q \<longleftrightarrow> nwrite q - nread q = 512" by (auto simp: pipe_full_def algebra_simps)
  also have "\<dots> \<longleftrightarrow> unat (nwrite q - nread q) = 512"
    using word_unat_eq_iff [of "nwrite q - nread q" 512] by simp
  finally show ?thesis .
qed

lemma pipe_empty_iff: "pipe_empty q \<longleftrightarrow> pipe_bytes q = []"
  by (auto simp: pipe_empty_def pipe_bytes_def)

lemma pipe_put_ok:
  assumes w: "pipe_wf q" and f: "\<not> pipe_full q"
  shows "pipe_wf (pipe_put c q)" "pipe_bytes (pipe_put c q) = pipe_bytes q @ [c]"
proof -
  have n: "unat (nwrite q - nread q) < 512" using w f by (auto simp: pipe_wf_def pipe_full_iff)
  then show "pipe_wf (pipe_put c q)"
    using w ring_length_push [of "nwrite q" "nread q"] by (simp add: pipe_wf_def pipe_put_def)
  show "pipe_bytes (pipe_put c q) = pipe_bytes q @ [c]"
    using ring_push [of 512 "pdata q" "nwrite q" "nread q" c] w n by (simp add: pipe_bytes_def pipe_put_def pipe_wf_def)
qed

lemma pipe_get_ok:
  assumes w: "pipe_wf q" and e: "pipe_bytes q \<noteq> []"
  shows "pipe_wf (snd (pipe_get q))" "pipe_bytes q = fst (pipe_get q) # pipe_bytes (snd (pipe_get q))"
proof -
  have ne: "nwrite q \<noteq> nread q" using e by (simp add: pipe_bytes_def)
  show "pipe_wf (snd (pipe_get q))"
    using w ring_pop(2) [of 512 "nwrite q" "nread q"] ne by (auto simp: pipe_wf_def pipe_get_def)
  show "pipe_bytes q = fst (pipe_get q) # pipe_bytes (snd (pipe_get q))"
    using ring_pop(1) [of 512 "nwrite q" "nread q" "pdata q"] ne by (simp add: pipe_bytes_def pipe_get_def)
qed

interpretation pipefifo: fifo pipe_wf pipe_bytes "\<lambda>q. \<not> pipe_full q" pipe_put
    "\<lambda>q. fst (pipe_get q)" "\<lambda>q. snd (pipe_get q)"
proof (unfold_locales, goal_cases)
  case (4 q)
  then show ?case using pipe_get_ok(2) [of q] by (metis list.sel(3))
next
  case (5 q)
  then show ?case using pipe_get_ok(2) [of q] by (metis list.sel(1))
qed (simp_all add: pipe_put_ok pipe_get_ok(1))

end
