(* ===== verification/BootSys.thy ===== *)
theory BootSys
  imports LogProps Trap
begin

text \<open>
  A concrete state of the whole kernel for the witnesses: the state of \<open>boot_lst\<close> with empty
  inode, file and pipe tables, an empty console and process 0 on the CPU.
\<close>

definition inode0 :: inode where
  "inode0 = \<lparr>idev = 0, inum = 0, iref = 0, ilk = initsleeplock, ivalid = False, itype = 0, imajor = 0,
     iminor = 0, inlink = 0, isize = 0, iaddrs = replicate 13 0\<rparr>"

definition file0 :: fileent where
  "file0 = \<lparr>ftype = FD_NONE, fref = 0, readable = False, writable = False, fpipe = 0, fip = None, foff = 0\<rparr>"

definition pipe0 :: pipe where
  "pipe0 = \<lparr>pdata = replicate 512 0, nread = 0, nwrite = 0, readopen = True, writeopen = True\<rparr>"

definition input0 :: cinput where
  "input0 = \<lparr>ibuf = replicate 128 0, ir = 0, iw = 0, ie = 0\<rparr>"

definition boot_tst :: tst where
  "boot_tst = lst.extend boot_lst
     \<lparr>icache = replicate 50 inode0,
      sb = \<lparr>sb_size = 1000, sb_nblocks = 941, sb_ninodes = 200, sb_nlog = 30, sb_logstart = 2,
            sb_inodestart = 32, sb_bmapstart = 58\<rparr>,
      cons_locking = True, panicked = False, cgapos = 0, crt = (\<lambda>_. 0x0720), uart = True, uart_out = [],
      input = input0, devsw = (replicate 10 None)[1 := Some ConsoleDev], kbd_shift = 0,
      ftable = replicate 100 file0, pipes = (\<lambda>_. pipe0), fr_first = True,
      idt = [], lapic = True, eois = 0\<rparr>"

lemma boot_tst_kok: "kok 0 boot_tst"
  using boot_kok by (simp add: boot_tst_def lst.defs kok_def pt_ok_def pt_shape_def pt_idle_def)

lemma boot_tst_fields [simp]:
  "pipes boot_tst = (\<lambda>_. pipe0)" "input boot_tst = input0" "ftable boot_tst = replicate 100 file0"
  "cgapos boot_tst = 0" "panicked boot_tst = False" "icache boot_tst = replicate 50 inode0"
  by (simp_all add: boot_tst_def lst.defs)

end
