(* ===== verification/PipeProps.thy ===== *)
theory PipeProps
  imports PipeInv BootSys
begin

text \<open>
  Pipes: the loops of \<open>pipewrite\<close> and \<open>piperead\<close> in terms of the queue of bytes, the
  result of both system-level routines in every case, the stream that any interleaving of
  readers and writers sees, and progress.
\<close>

subsection \<open>The pipe under its lock\<close>

lemma setpipe_simps [simp]:
  "pipes (setpipe p f s) = (pipes s)(p := f (pipes s p))"
  "setpipe p f (setpipe p g s) = setpipe p (\<lambda>q. f (g q)) s"
  "setpipe p f (with_lock l s) = with_lock l (setpipe p f s)"
  "kok c (setpipe p f s) = kok c s"
  "procs (setpipe p f s) = procs s"
  by (simp_all add: setpipe_def with_lock_def kok_def pt_ok_def pt_shape_def pt_idle_def)

lemma setpipe_id: "f (pipes s p) = pipes s p \<Longrightarrow> setpipe p f s = s"
  by (simp add: setpipe_def fun_upd_idem)

lemma setpipe_cong: "f (pipes s p) = g (pipes s p) \<Longrightarrow> setpipe p f s = setpipe p g s"
  by (simp add: setpipe_def)

lemma with_lock_pipes [simp]: "pipes (with_lock l s) = pipes s"
  and with_lock_procs [simp]: "procs (with_lock l s) = procs s"
  by (simp_all add: with_lock_def)

lemma calm_pipes: "calm c s s' \<Longrightarrow> pipes s' = pipes s"
  using arg_cong [OF calm_frame, of c s s' pipes] by simp

lemma am_killed_under:
  assumes "kok c s"
  shows "am_killed (with_lock l s) = Inr (killed (procs s ! c), with_lock l s)"
proof -
  have "cpu_ok (mcpu (with_lock l s))" using kok_cpu [OF assms] by (simp add: with_lock_def)
  moreover have "settle (mcpu (with_lock l s)) = mcpu (with_lock l s)"
    using kok_cpu [OF assms] by (simp add: with_lock_def)
  ultimately show ?thesis using kok_proc [OF assms]
    by (simp add: am_killed_def myproc_eq) (simp add: with_lock_def)
qed


subsection \<open>The loops\<close>

lemma puts_ok:
  assumes "pipe_wf q" and "length (pipe_bytes q) + length cs \<le> PIPESIZE"
  shows "pipe_wf (fold pipe_put cs q)" "pipe_bytes (fold pipe_put cs q) = pipe_bytes q @ cs"
  using assms
proof (induction cs arbitrary: q)
  case (Cons c cs)
  { case 1
    then have "\<not> pipe_full q" by (simp add: pipe_full_iff)
    with 1 show ?case using Cons.IH(1) [of "pipe_put c q"] pipefifo.put_inv [of q c] pipefifo.put_contents [of q c]
      by (simp del: length_pipe_bytes) }
  { case 2
    then have "\<not> pipe_full q" by (simp add: pipe_full_iff)
    with 2 show ?case using Cons.IH(2) [of "pipe_put c q"] pipefifo.put_inv [of q c] pipefifo.put_contents [of q c]
      by (simp del: length_pipe_bytes) }
qed simp_all

lemma puts_fields [simp]:
  "readopen (fold pipe_put cs q) = readopen q" "writeopen (fold pipe_put cs q) = writeopen q"
  by (induction cs arbitrary: q) (simp_all add: pipe_put_def)

lemma puts_nwrite: "nwrite (fold pipe_put cs q) = nwrite q + of_nat (length cs)"
  by (induction cs arbitrary: q) (simp_all add: pipe_put_def)

lemma pipewrite_loop_puts:
  assumes "pipe_wf (pipes s p)" and "length (pipe_bytes (pipes s p)) + length cs \<le> PIPESIZE"
  shows "pipewrite_loop p (cs @ ds) s = pipewrite_loop p ds (setpipe p (fold pipe_put cs) s)"
  using assms
proof (induction cs arbitrary: s)
  case Nil
  then show ?case by (simp add: setpipe_id)
next
  case (Cons c cs)
  then have f: "\<not> pipe_full (pipes s p)" by (simp add: pipe_full_iff)
  then have "pipewrite_loop p (cs @ ds) (setpipe p (pipe_put c) s) =
      pipewrite_loop p ds (setpipe p (fold pipe_put cs) (setpipe p (pipe_put c) s))"
    using Cons.IH [of "setpipe p (pipe_put c) s"] Cons.prems
      pipefifo.put_inv [of "pipes s p" c] pipefifo.put_contents [of "pipes s p" c]
    by (simp del: length_pipe_bytes)
  then show ?case using f by simp
qed

text \<open>How many of \<open>n\<close> bytes fit.\<close>

definition fits :: "nat \<Rightarrow> pipe \<Rightarrow> nat" where
  "fits n q = min n (PIPESIZE - length (pipe_bytes q))"

lemma fits_le: "pipe_wf q \<Longrightarrow> length (pipe_bytes q) + length (take (fits (length cs) q) cs) \<le> PIPESIZE"
  by (auto simp: fits_def pipe_wf_def min_def)

lemma pipewrite_loop_eq:
  assumes "pipe_wf (pipes s p)"
  shows "pipewrite_loop p cs s =
    pipewrite_loop p (drop (fits (length cs) (pipes s p)) cs)
      (setpipe p (fold pipe_put (take (fits (length cs) (pipes s p)) cs)) s)"
  using pipewrite_loop_puts [OF assms fits_le [OF assms],
      where ds = "drop (fits (length cs) (pipes s p)) cs"]
  by (metis append_take_drop_id)

lemma fits_all: "length (pipe_bytes q) + n \<le> PIPESIZE \<Longrightarrow> fits n q = n"
  by (simp add: fits_def)

lemma fits_full:
  assumes "pipe_wf q" and "\<not> length (pipe_bytes q) + length cs \<le> PIPESIZE"
  shows "drop (fits (length cs) q) cs \<noteq> []" "pipe_full (fold pipe_put (take (fits (length cs) q) cs) q)"
proof -
  show "drop (fits (length cs) q) cs \<noteq> []" using assms by (auto simp: fits_def pipe_wf_def)
  have "length (pipe_bytes (fold pipe_put (take (fits (length cs) q) cs) q)) = 512"
    unfolding puts_ok(2) [OF assms(1) fits_le [OF assms(1)]]
    using assms by (auto simp: fits_def pipe_wf_def)
  then show "pipe_full (fold pipe_put (take (fits (length cs) q) cs) q)" by (simp add: pipe_full_iff)
qed

lemma piperead_copy_eq:
  assumes "pipe_wf (pipes s p)"
  shows "\<exists>q. piperead_copy n p s = (take n (pipe_bytes (pipes s p)), setpipe p (\<lambda>_. q) s) \<and> pipe_wf q \<and>
    pipe_bytes q = drop n (pipe_bytes (pipes s p)) \<and> readopen q = readopen (pipes s p) \<and>
    writeopen q = writeopen (pipes s p)"
  using assms
proof (induction n arbitrary: s)
  case 0
  then show ?case by (intro exI [of _ "pipes s p"]) (simp add: setpipe_id)
next
  case (Suc n)
  show ?case
  proof (cases "pipe_bytes (pipes s p) = []")
    case True
    then show ?thesis using Suc.prems
      by (intro exI [of _ "pipes s p"]) (simp add: setpipe_id pipe_empty_iff)
  next
    case False
    let ?s = "setpipe p (\<lambda>q. snd (pipe_get q)) s"
    note G = pipe_get_ok [OF Suc.prems False]
    obtain q where q: "piperead_copy n p ?s = (take n (pipe_bytes (pipes ?s p)), setpipe p (\<lambda>_. q) ?s)"
      "pipe_wf q" "pipe_bytes q = drop n (pipe_bytes (pipes ?s p))" "readopen q = readopen (pipes ?s p)"
      "writeopen q = writeopen (pipes ?s p)"
      using Suc.IH [of ?s] G(1) by auto
    have h: "pipe_bytes (pipes s p) = fst (pipe_get (pipes s p)) # pipe_bytes (pipes ?s p)" using G(2) by simp
    have o: "readopen (pipes ?s p) = readopen (pipes s p)" "writeopen (pipes ?s p) = writeopen (pipes s p)"
      by (simp_all add: pipe_get_def)
    have "piperead_copy (Suc n) p s = (fst (pipe_get (pipes s p)) # take n (pipe_bytes (pipes ?s p)), setpipe p (\<lambda>_. q) s)"
      using False q(1) by (simp add: pipe_empty_iff)
    then have "piperead_copy (Suc n) p s = (take (Suc n) (pipe_bytes (pipes s p)), setpipe p (\<lambda>_. q) s)"
      by (subst h) simp
    moreover have "pipe_bytes q = drop (Suc n) (pipe_bytes (pipes s p))" by (subst h) (simp add: q(3))
    ultimately show ?thesis using q(2,4,5) o by blast
  qed
qed

subsection \<open>Writing and reading\<close>

lemma sint_of_nat_small: "n < 2 ^ 31 \<Longrightarrow> nat (sint (of_nat n :: i32)) = n"
  by (simp add: signed_of_nat signed_take_bit_int_eq_self)

lemma pipewrite_loop_full:
  assumes k: "kok c s" and "pipe_full (pipes s p)"
  shows "if \<not> readopen (pipes s p) \<or> killed (procs s ! c)
    then pipewrite_loop p (b # bs) (with_lock l s) = Inr (WRefused, with_lock l s)
    else \<exists>u. pipewrite_loop p (b # bs) (with_lock l s) = Inr (WSleep (b # bs), with_lock l u) \<and> calm c s u"
  using assms am_killed_under [OF k] wake_under [OF k, of "ChNread p" l] by auto

lemma pipewrite_loop_done:
  assumes "pipe_wf (pipes s p)" and "length (pipe_bytes (pipes s p)) + length cs \<le> PIPESIZE"
  shows "pipewrite_loop p cs s = Inr (WDone, setpipe p (fold pipe_put cs) s)"
  using pipewrite_loop_puts [OF assms, of "[]"] by simp

text \<open>The loop of a writer whose bytes do not fit: it fills the pipe and gives up or waits.\<close>

lemma pipewrite_loop_stuck:
  fixes s :: "'z flst_scheme"
  assumes k: "kok c s" and w: "pipe_wf (pipes s p)"
    and nf: "\<not> length (pipe_bytes (pipes s p)) + length cs \<le> PIPESIZE"
  defines "r \<equiv> PIPESIZE - length (pipe_bytes (pipes s p))"
  defines "t \<equiv> setpipe p (fold pipe_put (take r cs)) s"
  shows "kok c t" "pipe_wf (pipes t p)" "pipe_bytes (pipes t p) = pipe_bytes (pipes s p) @ take r cs"
    "procs t = procs s" "readopen (pipes t p) = readopen (pipes s p)"
    "if \<not> readopen (pipes s p) \<or> killed (procs s ! c)
     then pipewrite_loop p cs (with_lock l s) = Inr (WRefused, with_lock l t)
     else \<exists>u. pipewrite_loop p cs (with_lock l s) = Inr (WSleep (drop r cs), with_lock l u) \<and> calm c t u"
proof -
  have r: "fits (length cs) (pipes s p) = r" using nf by (simp add: fits_def r_def)
  note F = fits_full [OF w nf, unfolded r] and P = puts_ok [OF w fits_le [OF w, of cs], unfolded r]
  show kt: "kok c t" and "procs t = procs s" "readopen (pipes t p) = readopen (pipes s p)"
    using k by (simp_all add: t_def)
  show "pipe_wf (pipes t p)" "pipe_bytes (pipes t p) = pipe_bytes (pipes s p) @ take r cs"
    using P by (simp_all add: t_def)
  obtain b bs where b: "drop r cs = b # bs" using F(1) by (cases "drop r cs") auto
  have full: "pipe_full (pipes t p)" using F(2) by (simp add: t_def)
  have eq: "pipewrite_loop p cs (with_lock l s) = pipewrite_loop p (b # bs) (with_lock l t)"
    using pipewrite_loop_eq [of "with_lock l s" p cs] w b r by (simp add: t_def del: pipewrite_loop.simps)
  have "readopen (pipes t p) = readopen (pipes s p)" "procs t = procs s" by (simp_all add: t_def)
  then show "if \<not> readopen (pipes s p) \<or> killed (procs s ! c)
     then pipewrite_loop p cs (with_lock l s) = Inr (WRefused, with_lock l t)
     else \<exists>u. pipewrite_loop p cs (with_lock l s) = Inr (WSleep (drop r cs), with_lock l u) \<and> calm c t u"
    using pipewrite_loop_full [OF kt full, of b bs l] unfolding eq b by (simp del: pipewrite_loop.simps)
qed

text \<open>
  C29: \<open>pipewrite\<close> in every case.  If the bytes fit, all of them are appended to the pipe, the
  number of bytes is returned, and every process waiting for data in this pipe is made
  runnable.  If they do not fit and there is no reader left, or the writer has been killed,
  the pipe is filled up and the result is -1.  Otherwise the writer sleeps until there is
  room.
\<close>

theorem pipewrite_result:
  fixes s :: "'z flst_scheme"
  assumes k: "kok c s" and w: "pipe_wf (pipes s p)" and n: "length src < 2 ^ 31"
  shows "if length (pipe_bytes (pipes s p)) + length src \<le> PIPESIZE
    then \<exists>s'. pipewrite p src (of_nat (length src)) s = Inr (of_nat (length src), s') \<and>
           pipe_bytes (pipes s' p) = pipe_bytes (pipes s p) @ src \<and>
           procs s' = map (woken (Some (ChNread p))) (procs s)
    else if \<not> readopen (pipes s p) \<or> killed (procs s ! c)
    then \<exists>s'. pipewrite p src (of_nat (length src)) s = Inr (-1, s') \<and> procs s' = procs s \<and>
           pipe_bytes (pipes s' p) = pipe_bytes (pipes s p) @ take (PIPESIZE - length (pipe_bytes (pipes s p))) src
    else pipewrite p src (of_nat (length src)) s = Inl (Sleeping (ChNwrite p))"
proof -
  let ?l = "LPipe p"
  have start: "pipewrite p src (of_nat (length src)) s =
      bnd (pipewrite_loop p src (with_lock ?l s)) (\<lambda>(x, s). pipewrite_end p (of_nat (length src)) x s)"
    using n by (simp add: pipewrite_def acq_with_lock [OF k] sint_of_nat_small)
  show ?thesis
  proof (cases "length (pipe_bytes (pipes s p)) + length src \<le> PIPESIZE")
    case True
    let ?t = "setpipe p (fold pipe_put src) s"
    have "pipewrite_loop p src (with_lock ?l s) = Inr (WDone, with_lock ?l ?t)"
      using pipewrite_loop_done [of "with_lock ?l s" p src] w True by simp
    moreover obtain u where u: "bnd (wakeup (ChNread p) (with_lock ?l ?t)) (rel ?l) = Inr u" "calm c ?t u"
      "procs u = map (woken (Some (ChNread p))) (procs ?t)" using wake_release [of c ?t] k by auto
    ultimately have "pipewrite p src (of_nat (length src)) s = Inr (of_nat (length src), u)"
      by (auto simp: start pipewrite_end_def res_iff)
    moreover have "pipe_bytes (pipes u p) = pipe_bytes (pipes s p) @ src"
      using calm_pipes [OF u(2)] puts_ok(2) [OF w True] by simp
    ultimately show ?thesis using True u(3) by simp
  next
    case False
    note S = pipewrite_loop_stuck [OF k w False]
    show ?thesis using False S(3,4) S(6) [of ?l] rel_with_lock [OF S(1), of ?l]
      by (auto simp: start pipewrite_end_def)
  qed
qed

theorem pipewrite_result_witness:
  "\<exists>s'. pipewrite 0x80500000 [104, 105] 2 boot_tst = Inr (2, s') \<and>
     pipe_bytes (pipes s' 0x80500000) = [104, 105] \<and>
     procs s' = map (woken (Some (ChNread 0x80500000))) (procs boot_tst)"
  using pipewrite_result [OF boot_tst_kok, where p = "0x80500000" and src = "[104, 105]"]
  by (simp add: pipe_wf_def pipe_bytes_def pipe0_def)

text \<open>
  C30: \<open>piperead\<close> in every case.  If there are bytes in the pipe, or no writer is left, the
  result is as many of the oldest bytes as were asked for (possibly none), they are removed,
  and every process waiting for room in this pipe is made runnable.  If the pipe is empty and
  still open for writing, a killed reader gets -1 and any other reader sleeps until there is
  data.
\<close>

theorem piperead_result:
  fixes s :: "'z flst_scheme"
  assumes k: "kok c s" and w: "pipe_wf (pipes s p)"
  shows "if pipe_bytes (pipes s p) \<noteq> [] \<or> \<not> writeopen (pipes s p)
    then \<exists>s'. piperead p n s =
             Inr (of_nat (min (nat (sint n)) (length (pipe_bytes (pipes s p)))), take (nat (sint n)) (pipe_bytes (pipes s p)), s') \<and>
           pipe_bytes (pipes s' p) = drop (nat (sint n)) (pipe_bytes (pipes s p)) \<and>
           procs s' = map (woken (Some (ChNwrite p))) (procs s)
    else if killed (procs s ! c)
    then \<exists>s'. piperead p n s = Inr (-1, [], s') \<and> pipes s' = pipes s \<and> procs s' = procs s
    else piperead p n s = Inl (Sleeping (ChNread p))"
proof (cases "pipe_bytes (pipes s p) \<noteq> [] \<or> \<not> writeopen (pipes s p)")
  case True
  let ?l = "LPipe p" and ?n = "nat (sint n)"
  have go: "piperead_wait p (with_lock ?l s) = Inr (RGo, with_lock ?l s)"
    using True by (auto simp: piperead_wait_def pipe_empty_iff)
  obtain q where q: "piperead_copy ?n p (with_lock ?l s) = (take ?n (pipe_bytes (pipes s p)), setpipe p (\<lambda>_. q) (with_lock ?l s))"
    "pipe_bytes q = drop ?n (pipe_bytes (pipes s p))"
    using piperead_copy_eq [of "with_lock ?l s" p ?n] w by auto
  let ?t = "setpipe p (\<lambda>_. q) s"
  obtain u where u: "bnd (wakeup (ChNwrite p) (with_lock ?l ?t)) (rel ?l) = Inr u" "calm c ?t u"
    "procs u = map (woken (Some (ChNwrite p))) (procs ?t)" using wake_release [of c ?t] k by auto
  have "length (take ?n (pipe_bytes (pipes s p))) = min ?n (length (pipe_bytes (pipes s p)))" by simp
  then have "piperead p n s = Inr (of_nat (min ?n (length (pipe_bytes (pipes s p)))), take ?n (pipe_bytes (pipes s p)), u)"
    using u(1) by (auto simp: piperead_def acq_with_lock [OF k] go q(1) res_iff)
  moreover have "pipe_bytes (pipes u p) = drop ?n (pipe_bytes (pipes s p))"
    using calm_pipes [OF u(2)] q(2) by simp
  ultimately show ?thesis using True u(3) by auto
next
  case False
  then have "piperead_wait p (with_lock (LPipe p) s) =
      Inr (if killed (procs s ! c) then RKilled else RSleep, with_lock (LPipe p) s)"
    by (simp add: piperead_wait_def pipe_empty_iff am_killed_under [OF k])
  then show ?thesis using False rel_with_lock [OF k] by (simp add: piperead_def acq_with_lock [OF k])
qed

theorem piperead_result_witness: "piperead 0x80500000 10 boot_tst = Inl (Sleeping (ChNread 0x80500000))"
  using piperead_result [OF boot_tst_kok, where p = "0x80500000" and n = 10]
  by (simp add: pipe_wf_def pipe_bytes_def pipe0_def)
    (simp add: boot_tst_def boot_lst_def lst.defs pst.defs idle_pst_def proc0_def)

subsection \<open>Streams\<close>

lemma enqueue_pipes: "enqueue k i s = Inr s' \<Longrightarrow> pipes s' = pipes s"
  by (auto simp: enqueue_def setp_def Let_def split: if_splits)

lemma setp_pipes [simp]: "pipes (setp i f s) = pipes s"
  by (simp add: setp_def)

lemma wakeup1_loop_pipes: "wakeup1_loop ks ch s = Inr s' \<Longrightarrow> pipes s' = pipes s"
proof (induction ks arbitrary: s)
  case (Cons i ks)
  show ?case
  proof (cases "pstate (procs s ! i) = SLEEPING \<and> pchan (procs s ! i) = ch")
    case True
    then obtain t where "enqueue (pqueue (procs (setp i (\<lambda>p. p\<lparr>pstate := RUNNABLE\<rparr>) s) ! i)) i (setp i (\<lambda>p. p\<lparr>pstate := RUNNABLE\<rparr>) s) = Inr t"
      "wakeup1_loop ks ch t = Inr s'" using Cons.prems by (auto simp: res_iff Let_def)
    then show ?thesis using Cons.IH [of t] enqueue_pipes by fastforce
  next
    case False
    then show ?thesis using Cons.IH [of s] Cons.prems by auto
  qed
qed simp

lemma wakeup_pipes: "wakeup ch s = Inr s' \<Longrightarrow> pipes s' = pipes s"
  by (auto simp: wakeup_def wakeup1_def res_iff pt_acquire_def pt_release_def dest!: wakeup1_loop_pipes)

lemma am_killed_pipes: "am_killed s = Inr (k, s') \<Longrightarrow> pipes s' = pipes s"
  by (auto simp: am_killed_def myproc_def res_iff Let_def split: option.splits)

text \<open>What a segment of a writer's loop does to the pipe, however it ends.\<close>

lemma pipewrite_loop_pipe:
  assumes w: "pipe_wf (pipes s p)" and r: "pipewrite_loop p cs s = Inr (x, u)"
  shows "pipes u p = fold pipe_put (take (fits (length cs) (pipes s p)) cs) (pipes s p)"
proof (cases "length (pipe_bytes (pipes s p)) + length cs \<le> PIPESIZE")
  case True
  then show ?thesis using pipewrite_loop_done [OF w True] r fits_all [OF True] by auto
next
  case False
  let ?k = "fits (length cs) (pipes s p)"
  let ?t = "setpipe p (fold pipe_put (take ?k cs)) s"
  obtain b bs where b: "drop ?k cs = b # bs" using fits_full(1) [OF w False] by (cases "drop ?k cs") auto
  have "pipewrite_loop p (b # bs) ?t = Inr (x, u)" using pipewrite_loop_eq [OF w, of cs] r b by metis
  moreover have "pipe_full (pipes ?t p)" using fits_full(2) [OF w False] by simp
  ultimately have "pipes u = pipes ?t"
    by (auto simp: res_iff dest!: wakeup_pipes am_killed_pipes split: if_splits prod.splits)
  then show ?thesis by simp
qed

text \<open>
  A history of one pipe: segments of writers' loops, of readers' copy loops, and anything else
  that leaves the pipe alone, in any order.  \<open>W\<close> are the bytes the writers have put in and \<open>R\<close> the
  bytes the readers have got.
\<close>

inductive pipe_run :: "u32 \<Rightarrow> 'z flst_scheme \<Rightarrow> u8 list \<Rightarrow> u8 list \<Rightarrow> 'z flst_scheme \<Rightarrow> bool" for p s where
  ini: "pipe_run p s [] [] s"
| wr: "pipe_run p s W R t \<Longrightarrow> pipewrite_loop p cs t = Inr (x, u) \<Longrightarrow>
     pipe_run p s (W @ take (unat (nwrite (pipes u p) - nwrite (pipes t p))) cs) R u"
| rd: "pipe_run p s W R t \<Longrightarrow> piperead_copy n p t = (v, u) \<Longrightarrow> pipe_run p s W (R @ v) u"
| oth: "pipe_run p s W R t \<Longrightarrow> pipes u p = pipes t p \<Longrightarrow> pipe_run p s W R u"

text \<open>
  C27: A pipe is a stream.  Whatever the interleaving of writers, readers and other code, the
  bytes read so far followed by the bytes in the ring are the bytes that were in the ring at
  first followed by the bytes written, in order; nothing is lost, duplicated or overwritten,
  also when the counters wrap around.
\<close>

theorem pipe_stream:
  assumes "pipe_wf (pipes s p)" and "pipe_run p s W R t"
  shows "pipe_wf (pipes t p) \<and> R @ pipe_bytes (pipes t p) = pipe_bytes (pipes s p) @ W"
  using assms(2,1)
proof induction
  case (wr W R t cs x u)
  let ?k = "fits (length cs) (pipes t p)"
  have w: "pipe_wf (pipes t p)" using wr by simp
  note U = pipewrite_loop_pipe [OF w wr.hyps(2)] and P = puts_ok [OF w fits_le [OF w, of cs]]
  have "?k \<le> length cs" "?k \<le> 512" by (auto simp: fits_def)
  then have "nwrite (pipes u p) - nwrite (pipes t p) = of_nat ?k" "unat (of_nat ?k :: u32) = ?k"
    using U by (simp_all add: puts_nwrite min_absorb2 unat_of_nat_u32)
  then show ?case using wr P U by simp
next
  case (rd W R t n v u)
  then obtain q where "piperead_copy n p t = (take n (pipe_bytes (pipes t p)), setpipe p (\<lambda>_. q) t)"
    "pipe_wf q" "pipe_bytes q = drop n (pipe_bytes (pipes t p))" using piperead_copy_eq [of t p n] by auto
  then show ?case using rd by auto
qed simp_all

theorem pipe_stream_witness:
  "\<exists>t. pipe_run 0x80500000 boot_tst [104, 105] [104] t \<and> pipe_bytes (pipes t 0x80500000) = [105]"
proof -
  let ?p = "0x80500000 :: u32" and ?q = "pipe_put 105 (pipe_put 104 pipe0)"
  let ?u = "setpipe ?p (\<lambda>_. ?q) boot_tst" and ?v = "setpipe ?p (\<lambda>_. snd (pipe_get ?q)) boot_tst"
  have "pipewrite_loop ?p [104, 105] boot_tst = Inr (WDone, ?u)"
    by (simp add: pipe_full_def pipe_put_def pipe0_def setpipe_def)
  from pipe_run.wr [OF pipe_run.ini this] have a: "pipe_run ?p boot_tst [104, 105] [] ?u"
    by (simp add: pipe_put_def pipe0_def)
  have "piperead_copy 1 ?p ?u = ([104], ?v)"
    by (simp add: pipe_empty_def pipe_put_def pipe_get_def pipe0_def setpipe_def)
  from pipe_run.rd [OF a this] have r: "pipe_run ?p boot_tst [104, 105] [104] ?v" by simp
  have "pipe_wf (pipes boot_tst ?p)" "pipe_bytes (pipes boot_tst ?p) = []"
    by (simp_all add: pipe_wf_def pipe_bytes_def pipe0_def)
  then show ?thesis using pipe_stream [OF _ r] r by auto
qed






end
