(* ===== verification/ConsoleProps.thy ===== *)
theory ConsoleProps
  imports Ring BootSys
begin

text \<open>
  The console: the cursor never leaves the screen, and the input ring implements line editing.
\<close>

subsection \<open>Output\<close>

definition screen_ok :: "'z cst_scheme \<Rightarrow> bool" where
  "screen_ok s \<longleftrightarrow> 0 \<le> cgapos s \<and> cgapos s < 24 * 80"

text \<open>
  \<open>drawn s s'\<close>: from \<open>s\<close> to \<open>s'\<close> only the display and the serial port changed, and the
  display only inside its 2000 cells.
\<close>

definition drawn :: "'z cst_scheme \<Rightarrow> 'z cst_scheme \<Rightarrow> bool" where
  "drawn s s' \<longleftrightarrow> s' = s\<lparr>cgapos := cgapos s', crt := crt s', uart_out := uart_out s'\<rparr> \<and>
     (\<forall>i\<ge>2000. crt s' i = crt s i)"

lemma drawn_refl: "drawn s s"
  by (simp add: drawn_def)

lemma drawn_trans:
  assumes "drawn s t" and "drawn t u"
  shows "drawn s u"
proof -
  have t: "t = s\<lparr>cgapos := cgapos t, crt := crt t, uart_out := uart_out t\<rparr>"
    and u: "u = t\<lparr>cgapos := cgapos u, crt := crt u, uart_out := uart_out u\<rparr>"
    using assms by (simp_all add: drawn_def)
  have "u = s\<lparr>cgapos := cgapos u, crt := crt u, uart_out := uart_out u\<rparr>" by (subst u, subst t) simp
  then show ?thesis using assms by (simp add: drawn_def)
qed

lemma drawn_fields:
  assumes "drawn s s'"
  shows "input s' = input s" "panicked s' = panicked s" "uart s' = uart s" "procs s' = procs s"
  using arg_cong [where f = input, OF conjunct1 [OF assms [unfolded drawn_def]]]
    arg_cong [where f = panicked, OF conjunct1 [OF assms [unfolded drawn_def]]]
    arg_cong [where f = uart, OF conjunct1 [OF assms [unfolded drawn_def]]]
    arg_cong [where f = procs, OF conjunct1 [OF assms [unfolded drawn_def]]] by simp_all

lemma cgaputc_ok:
  assumes "screen_ok s"
  shows "\<exists>s'. cgaputc c s = Inr s' \<and> screen_ok s' \<and> drawn s s' \<and> uart_out s' = uart_out s"
proof -
  define pos where "pos = (if c = 10 then cgapos s + (80 - cgapos s mod 80)
    else if c = BACKSPACE then (if cgapos s > 0 then cgapos s - 1 else cgapos s) else cgapos s + 1)"
  define t where "t = (if c = 10 \<or> c = BACKSPACE then s
    else s\<lparr>crt := (crt s)(nat (cgapos s) := (of_nat c AND 0xFF) OR 0x0700)\<rparr>)"
  have p: "0 \<le> pos" "pos \<le> 24 * 80" using assms unfolding screen_ok_def pos_def by (auto simp: algebra_simps) presburger+
  have dt: "drawn s t" "uart_out t = uart_out s" using assms by (auto simp: t_def drawn_def screen_ok_def)
  define u where "u = (if pos div 80 \<ge> 24
    then t\<lparr>cgapos := pos - 80, crt := (\<lambda>i. if nat (pos - 80) \<le> i \<and> i < 24 * 80 then 0
            else if i < 23 * 80 then crt t (i + 80) else crt t i)(nat (pos - 80) := 0x0720)\<rparr>
    else t\<lparr>cgapos := pos, crt := (crt t)(nat pos := 0x0720)\<rparr>)"
  have pt: "(if c = 10 then (cgapos s + (80 - cgapos s mod 80), s)
      else if c = BACKSPACE then (if cgapos s > 0 then cgapos s - 1 else cgapos s, s)
      else (cgapos s + 1, s\<lparr>crt := (crt s)(nat (cgapos s) := (of_nat c AND 0xFF) OR 0x0700)\<rparr>)) = (pos, t)"
    by (simp add: pos_def t_def)
  have "cgaputc c s = Inr u"
    using p unfolding cgaputc_def Let_def pt by (simp add: u_def cong: if_cong)
  moreover have "screen_ok u" using p by (auto simp: u_def screen_ok_def)
  moreover have "drawn t u" "uart_out u = uart_out t" using p by (auto simp: u_def drawn_def)
  ultimately show ?thesis using drawn_trans [OF dt(1)] dt(2) by auto
qed

lemma consputc_ok:
  assumes "screen_ok s" and "\<not> panicked s"
  shows "\<exists>s'. consputc c s = Inr s' \<and> screen_ok s' \<and> drawn s s' \<and>
    uart_out s' = uart_out s @ (if \<not> uart s then [] else if c = BACKSPACE then [8, 32, 8] else [of_nat c])"
proof -
  define t where "t = (if c = BACKSPACE then uartputc 8 (uartputc 32 (uartputc 8 s)) else uartputc (of_nat c) s)"
  have t: "screen_ok t" "drawn s t"
      "uart_out t = uart_out s @ (if \<not> uart s then [] else if c = BACKSPACE then [8, 32, 8] else [of_nat c])"
    using assms(1) by (auto simp: t_def screen_ok_def drawn_def uartputc_def)
  obtain s' where "cgaputc c t = Inr s'" "screen_ok s'" "drawn t s'" "uart_out s' = uart_out t"
    using cgaputc_ok [OF t(1)] by blast
  then show ?thesis using t(2,3) drawn_trans [OF t(2)] assms(2) by (auto simp: consputc_def t_def)
qed

text \<open>
  C33: Console output is safe.  Whatever bytes are written, with the cursor on the screen and no
  panic pending, \<open>cgaputc\<close> never panics, the cursor stays in the first 24 lines, no cell outside
  the 2000 cells of the display is touched, nothing but the display and the serial port changes,
  and the serial port receives exactly the bytes written.
\<close>

theorem put_all_safe:
  assumes "screen_ok s" and "\<not> panicked s"
  shows "\<exists>s'. put_all cs s = Inr s' \<and> screen_ok s' \<and> drawn s s' \<and>
    uart_out s' = uart_out s @ (if uart s then cs else [])"
  using assms
proof (induction cs arbitrary: s)
  case Nil
  then show ?case by (simp add: put_all_def drawn_refl)
next
  case (Cons c cs)
  have b: "unat c \<noteq> BACKSPACE" using unsigned_less [of c, where ?'a = nat] by simp
  obtain t where t: "consputc (unat c) s = Inr t" "screen_ok t" "drawn s t"
    "uart_out t = uart_out s @ (if \<not> uart s then [] else [c])"
    using consputc_ok [OF Cons.prems, of "unat c"] b by auto
  obtain s' where s': "put_all cs t = Inr s'" "screen_ok s'" "drawn t s'"
    "uart_out s' = uart_out t @ (if uart t then cs else [])"
    using Cons.IH [OF t(2)] Cons.prems(2) drawn_fields(2) [OF t(3)] by auto
  show ?case using t s' drawn_trans [OF t(3) s'(3)] drawn_fields(3) [OF t(3)] by (simp add: put_all_def)
qed

theorem put_all_safe_witness:
  "\<exists>s'. put_all (replicate 5000 10) boot_tst = Inr s' \<and> uart_out s' = replicate 5000 10 \<and> cgapos s' < 24 * 80"
  using put_all_safe [of boot_tst "replicate 5000 10"] by (auto simp: screen_ok_def boot_tst_def lst.defs)

subsection \<open>The input ring\<close>

text \<open>
  The bytes in the ring, oldest first: up to \<open>w\<close> they belong to finished lines and may be read,
  from \<open>w\<close> to \<open>e\<close> they are the line being edited.
\<close>

definition typed :: "cinput \<Rightarrow> u8 list" where
  "typed q = ring_list INPUT_BUF (ibuf q) (ir q) (ie q)"

definition ready :: "cinput \<Rightarrow> u8 list" where
  "ready q = take (unat (iw q - ir q)) (typed q)"

definition editing :: "cinput \<Rightarrow> u8 list" where
  "editing q = drop (unat (iw q - ir q)) (typed q)"

definition ring_ok :: "cinput \<Rightarrow> bool" where
  "ring_ok q \<longleftrightarrow> length (ibuf q) = INPUT_BUF \<and> unat (ie q - ir q) \<le> INPUT_BUF"

definition input_wf :: "cinput \<Rightarrow> bool" where
  "input_wf q \<longleftrightarrow> ring_ok q \<and> unat (iw q - ir q) \<le> unat (ie q - ir q) \<and> 10 \<notin> set (editing q)"

definition put_key :: "u8 \<Rightarrow> cinput \<Rightarrow> cinput" where
  "put_key c q = q\<lparr>ibuf := (ibuf q)[unat (ie q) mod INPUT_BUF := c], ie := ie q + 1\<rparr>"

lemma length_typed [simp]: "length (typed q) = unat (ie q - ir q)"
  by (simp add: typed_def)

interpretation keys: fifo ring_ok typed "\<lambda>q. ie q - ir q < of_nat INPUT_BUF" put_key
    "\<lambda>q. buf_at q (ir q)" "\<lambda>q. q\<lparr>ir := ir q + 1\<rparr>"
proof (unfold_locales, goal_cases)
  case (1 q x)
  then show ?case using ring_length_push [of "ie q" "ir q"]
    by (simp add: ring_ok_def put_key_def word_less_nat_alt)
next
  case (2 q x)
  then show ?case using ring_push [of 128 "ibuf q" "ie q" "ir q" x]
    by (simp add: ring_ok_def put_key_def typed_def word_less_nat_alt)
next
  case (3 q)
  then show ?case using ring_pop(2) [of 128 "ie q" "ir q"] by (auto simp: ring_ok_def typed_def)
next
  case (4 q)
  then show ?case using ring_pop(1) [of 128 "ie q" "ir q" "ibuf q"] by (simp add: typed_def)
next
  case (5 q)
  then show ?case using ring_pop(1) [of 128 "ie q" "ir q" "ibuf q"] by (simp add: typed_def buf_at_def)
qed

lemma ready_all: "iw q = ie q \<Longrightarrow> ready q = typed q"
  by (simp add: ready_def)

lemma editing_Nil: "input_wf q \<Longrightarrow> editing q = [] \<longleftrightarrow> ie q = iw q"
proof -
  assume w: "input_wf q"
  have "editing q = [] \<longleftrightarrow> unat (ie q - ir q) = unat (iw q - ir q)"
    using w by (auto simp: editing_def input_wf_def)
  also have "\<dots> \<longleftrightarrow> ie q - ir q = iw q - ir q" by (simp add: word_unat_eq_iff)
  finally show ?thesis by simp
qed

text \<open>Erasing the last character of the line.\<close>

lemma erase_ok:
  assumes w: "input_wf q" and ne: "ie q \<noteq> iw q"
  defines "q' \<equiv> q\<lparr>ie := ie q - 1\<rparr>"
  shows "input_wf q'" "ready q' = ready q" "editing q' = butlast (editing q)"
    "buf_at q (ie q - 1) = last (editing q)"
proof -
  have ed: "editing q \<noteq> []" using editing_Nil [OF w] ne by simp
  then have lt: "unat (iw q - ir q) < unat (ie q - ir q)" by (simp add: editing_def)
  then have nr: "ie q \<noteq> ir q" by auto
  note U = ring_unpush [OF nr]
  have ty: "typed q' = butlast (typed q)" using U(1) by (simp add: q'_def typed_def)
  show r: "ready q' = ready q" using ty lt by (simp add: ready_def q'_def take_butlast)
  show e: "editing q' = butlast (editing q)" using ty by (simp add: editing_def q'_def butlast_drop)
  show "input_wf q'" using w lt U(2) e by (auto simp: input_wf_def ring_ok_def q'_def dest: in_set_butlastD)
  have "last (editing q) = last (typed q)" using ed by (simp add: editing_def)
  also have "\<dots> = typed q ! (unat (ie q - ir q) - 1)" using nr by (subst last_conv_nth) (auto simp: typed_def)
  also have "\<dots> = ibuf q ! ((unat (ir q) + (unat (ie q - ir q) - 1)) mod 128)"
    using lt by (simp add: typed_def ring_list_def)
  also have "(unat (ir q) + (unat (ie q - ir q) - 1)) mod 128 = unat (ie q - 1) mod 128"
    using unat_wrap_diff [of 128 "ie q - 1" "ir q"] U(2) by simp
  finally show "buf_at q (ie q - 1) = last (editing q)" by (simp add: buf_at_def)
qed

lemma put_key_ok:
  assumes w: "input_wf q" and room: "ie q - ir q < of_nat INPUT_BUF"
  shows "ready (put_key c q) = ready q" "editing (put_key c q) = editing q @ [c]"
    "c \<noteq> 10 \<Longrightarrow> input_wf (put_key c q)"
    "input_wf ((put_key c q)\<lparr>iw := ie (put_key c q)\<rparr>)"
    "ready ((put_key c q)\<lparr>iw := ie (put_key c q)\<rparr>) = ready q @ editing q @ [c]"
    "editing ((put_key c q)\<lparr>iw := ie (put_key c q)\<rparr>) = []"
proof -
  have r: "ring_ok q" and le: "unat (iw q - ir q) \<le> unat (ie q - ir q)" using w by (auto simp: input_wf_def)
  note P = keys.put_inv [OF r room, of c] keys.put_contents [OF r room, of c]
  have f: "ir (put_key c q) = ir q" "iw (put_key c q) = iw q" by (simp_all add: put_key_def)
  have n: "unat (ie (put_key c q) - ir q) = Suc (unat (ie q - ir q))"
    using arg_cong [OF P(2), of length] f by simp
  show rd: "ready (put_key c q) = ready q" and ed: "editing (put_key c q) = editing q @ [c]"
    using P(2) f le by (simp_all add: ready_def editing_def)
  show "c \<noteq> 10 \<Longrightarrow> input_wf (put_key c q)" using w P(1) ed f n by (simp add: input_wf_def)
  have t: "typed ((put_key c q)\<lparr>iw := ie (put_key c q)\<rparr>) = ready q @ editing q @ [c]"
    using P(2) by (simp add: typed_def ready_def editing_def)
  show "ready ((put_key c q)\<lparr>iw := ie (put_key c q)\<rparr>) = ready q @ editing q @ [c]"
    using ready_all [of "(put_key c q)\<lparr>iw := ie (put_key c q)\<rparr>"] t by simp
  show e: "editing ((put_key c q)\<lparr>iw := ie (put_key c q)\<rparr>) = []" by (simp add: editing_def)
  show "input_wf ((put_key c q)\<lparr>iw := ie (put_key c q)\<rparr>)"
    using P(1) e by (simp add: input_wf_def ring_ok_def)
qed

subsection \<open>Line editing\<close>

text \<open>
  What the console promises: a key acts on the pair of the finished input and the line being
  edited.  Backspace and delete remove the last character of the line, control-U removes the
  line; any other character is added if there is room, a carriage return as a newline; a
  newline, an end-of-file mark (control-D) or a full buffer finishes the line.
\<close>

definition edit :: "nat \<Rightarrow> u8 list \<times> u8 list \<Rightarrow> u8 list \<times> u8 list" where
  "edit c p =
     (let (rd, ed) = p; k = (if c = 13 then 10 else c)
      in if c = 16 then (rd, ed)
         else if c = 21 then (rd, [])
         else if c = 8 \<or> c = 0x7F then (rd, butlast ed)
         else if c \<noteq> 0 \<and> length rd + length ed < INPUT_BUF
         then if k = 10 \<or> k = 4 \<or> Suc (length rd + length ed) = INPUT_BUF
              then (rd @ ed @ [of_nat k], []) else (rd, ed @ [of_nat k])
         else (rd, ed))"

definition console_ok :: "nat \<Rightarrow> 'z cst_scheme \<Rightarrow> bool" where
  "console_ok p s \<longleftrightarrow> kok p s \<and> input_wf (input s) \<and> screen_ok s \<and> \<not> panicked s"

abbreviation io :: "'z cst_scheme \<Rightarrow> u8 list \<times> u8 list" where
  "io s \<equiv> (ready (input s), editing (input s))"

lemma setinput_simps [simp]:
  "setinput f (with_lock l s) = with_lock l (setinput f s)" "input (setinput f s) = f (input s)"
  "kok p (setinput f s) = kok p s" "screen_ok (setinput f s) = screen_ok s" "panicked (setinput f s) = panicked s"
  by (simp_all add: setinput_def with_lock_def kok_def pt_ok_def pt_shape_def pt_idle_def screen_ok_def)

lemma with_lock_input [simp]: "input (with_lock l s) = input s"
  by (simp add: with_lock_def)

lemma consputc_under:
  assumes k: "kok p s" and so: "screen_ok s" and np: "\<not> panicked s"
  shows "\<exists>t. consputc c (with_lock l s) = Inr (with_lock l t) \<and> kok p t \<and> screen_ok t \<and> \<not> panicked t \<and> input t = input s"
proof -
  have "screen_ok (with_lock l s)" "\<not> panicked (with_lock l s)" using so np by (simp_all add: screen_ok_def with_lock_def)
  then obtain u where u: "consputc c (with_lock l s) = Inr u" "screen_ok u" "drawn (with_lock l s) u"
    using consputc_ok by blast
  let ?t = "s\<lparr>cgapos := cgapos u, crt := crt u, uart_out := uart_out u\<rparr>"
  have "u = (with_lock l s)\<lparr>cgapos := cgapos u, crt := crt u, uart_out := uart_out u\<rparr>" using u(3) by (simp add: drawn_def)
  also have "\<dots> = with_lock l ?t" by (simp add: with_lock_def)
  finally have "u = with_lock l ?t" .
  moreover have "kok p ?t" using k by (simp add: kok_def pt_ok_def pt_shape_def pt_idle_def)
  moreover have "screen_ok ?t" using u(2) by (simp add: screen_ok_def)
  ultimately show ?thesis using u(1) np by (intro exI [of _ ?t]) simp
qed

lemma calm_cons:
  assumes "calm p s s'"
  shows "input s' = input s" "screen_ok s' = screen_ok s" "panicked s' = panicked s"
  using arg_cong [OF calm_frame [OF assms], of input] arg_cong [OF calm_frame [OF assms], of cgapos]
    arg_cong [OF calm_frame [OF assms], of panicked] by (simp_all add: screen_ok_def)

lemma kill_line_ok:
  assumes "console_ok p s"
  shows "\<exists>s'. kill_line (with_lock l s) = Inr (with_lock l s') \<and> console_ok p s' \<and> io s' = (ready (input s), [])"
  using assms
proof (induction "length (editing (input s))" arbitrary: s)
  case 0
  then have "ie (input s) = iw (input s)" using editing_Nil [of "input s"] by (simp add: console_ok_def)
  then show ?case using 0 by (subst kill_line.simps) auto
next
  case (Suc n)
  let ?q = "input s"
  have w: "input_wf ?q" and ne: "ie ?q \<noteq> iw ?q" and e: "editing ?q \<noteq> []"
    using Suc editing_Nil [of ?q] by (auto simp: console_ok_def)
  note E = erase_ok [OF w ne]
  have "last (editing ?q) \<noteq> 10" using w e by (metis input_wf_def last_in_set)
  then have nl: "buf_at ?q (ie ?q - 1) \<noteq> 10" using E(4) by simp
  let ?s = "setinput (\<lambda>q. q\<lparr>ie := ie q - 1\<rparr>) s"
  obtain t where t: "consputc BACKSPACE (with_lock l ?s) = Inr (with_lock l t)" "kok p t" "screen_ok t"
    "\<not> panicked t" "input t = input ?s"
    using consputc_under [of p ?s BACKSPACE l] Suc.prems by (auto simp: console_ok_def)
  have "console_ok p t" "n = length (editing (input t))" "ready (input t) = ready ?q"
    using t E Suc.hyps(2) by (simp_all add: console_ok_def)
  then obtain s' where "kill_line (with_lock l t) = Inr (with_lock l s')" "console_ok p s'" "io s' = (ready ?q, [])"
    using Suc.hyps(1) [of t] by auto
  then show ?case using t(1) ne nl by (subst kill_line.simps) auto
qed

lemma room_iff: "input_wf q \<Longrightarrow> ie q - ir q < of_nat INPUT_BUF \<longleftrightarrow> length (ready q) + length (editing q) < INPUT_BUF"
  by (simp add: word_less_nat_alt ready_def editing_def input_wf_def)

lemma full_iff:
  "input_wf q \<Longrightarrow> ie q - ir q < of_nat INPUT_BUF \<Longrightarrow>
     ie (put_key k q) = ir (put_key k q) + of_nat INPUT_BUF \<longleftrightarrow> Suc (length (ready q) + length (editing q)) = INPUT_BUF"
proof -
  assume w: "input_wf q" and r: "ie q - ir q < of_nat INPUT_BUF"
  have "unat (ie q + 1 - ir q) = Suc (unat (ie q - ir q))"
    using ring_length_push [of "ie q" "ir q"] r by (simp add: word_less_nat_alt)
  moreover have "ie q + 1 = ir q + 128 \<longleftrightarrow> ie q + 1 - ir q = 128" by (auto simp: algebra_simps)
  moreover have "\<dots> \<longleftrightarrow> unat (ie q + 1 - ir q) = 128" using word_unat_eq_iff [of "ie q + 1 - ir q" 128] by simp
  ultimately show ?thesis using w by (simp add: put_key_def ready_def editing_def input_wf_def)
qed

text \<open>Adding a character to the line, and finishing the line if the character does.\<close>

lemma insert_char_ok:
  assumes ok: "console_ok p s" and r: "ie (input s) - ir (input s) < of_nat INPUT_BUF" and k: "k < 256"
  defines "fin \<equiv> k = 10 \<or> k = 4 \<or> Suc (length (ready (input s)) + length (editing (input s))) = INPUT_BUF"
  shows "\<exists>s'. bnd (consputc k (with_lock l (setinput (put_key (of_nat k)) s))) (\<lambda>s.
      if k = 10 \<or> k = 4 \<or> ie (input s) = ir (input s) + of_nat INPUT_BUF
      then bnd (wakeup ChInput (setinput (\<lambda>q. q\<lparr>iw := ie q\<rparr>) s)) (\<lambda>s. Inr (False, s))
      else Inr (False, s)) = Inr (False, with_lock l s') \<and> console_ok p s' \<and>
    io s' = (if fin then (ready (input s) @ editing (input s) @ [of_nat k], []) else (ready (input s), editing (input s) @ [of_nat k]))"
proof -
  let ?q = "input s" and ?s = "setinput (put_key (of_nat k)) s"
  have w: "input_wf ?q" using ok by (simp add: console_ok_def)
  note P = put_key_ok [OF w r, of "of_nat k"]
  obtain t where t: "consputc k (with_lock l ?s) = Inr (with_lock l t)" "kok p t" "screen_ok t"
    "\<not> panicked t" "input t = input ?s"
    using consputc_under [of p ?s k l] ok by (auto simp: console_ok_def)
  have fin: "(k = 10 \<or> k = 4 \<or> ie (input t) = ir (input t) + of_nat INPUT_BUF) \<longleftrightarrow> fin"
    using full_iff [OF w r, of "of_nat k"] t(5) by (simp add: fin_def)
  show ?thesis
  proof (cases fin)
    case True
    let ?t = "setinput (\<lambda>q. q\<lparr>iw := ie q\<rparr>) t"
    obtain u where u: "wakeup ChInput (with_lock l ?t) = Inr (with_lock l u)" "calm p ?t u"
      using wake_under [of p ?t ChInput l] t(2) by auto
    have "console_ok p u"
      using t(3-5) P(4) calm_kok [OF u(2)] calm_cons [OF u(2)] by (simp add: console_ok_def)
    then show ?thesis using t(1,5) fin True u(1) P(5,6) calm_cons(1) [OF u(2)] by (intro exI [of _ u]) simp
  next
    case False
    then have "(of_nat k :: u8) \<noteq> 10" using k by (auto simp: fin_def word_unat_eq_iff unsigned_of_nat take_bit_eq_mod)
    then have "console_ok p t" using t(2-5) P(3) by (simp add: console_ok_def)
    then show ?thesis using t(1,5) fin False P(1,2) by (intro exI [of _ t]) simp
  qed
qed

lemma console_char_ok:
  assumes ok: "console_ok p s" and c: "c < 256"
  shows "\<exists>s'. console_char c (with_lock l s) = Inr (c = 16, with_lock l s') \<and> console_ok p s' \<and> io s' = edit c (io s)"
proof -
  let ?q = "input s"
  have w: "input_wf ?q" using ok by (simp add: console_ok_def)
  consider "c = 16" | "c = 21" | "c = 8 \<or> c = 0x7F" | "c \<noteq> 16" "c \<noteq> 21" "c \<noteq> 8" "c \<noteq> 0x7F" by blast
  then show ?thesis
  proof cases
    case 1
    then show ?thesis using ok by (intro exI [of _ s]) (simp add: console_char_def edit_def)
  next
    case 2
    then show ?thesis using kill_line_ok [OF ok, of l] by (auto simp: console_char_def edit_def)
  next
    case 3
    show ?thesis
    proof (cases "ie ?q = iw ?q")
      case True
      then show ?thesis using ok 3 editing_Nil [OF w] by (intro exI [of _ s]) (auto simp: console_char_def edit_def)
    next
      case False
      let ?s = "setinput (\<lambda>q. q\<lparr>ie := ie q - 1\<rparr>) s"
      obtain t where t: "consputc BACKSPACE (with_lock l ?s) = Inr (with_lock l t)" "kok p t" "screen_ok t"
        "\<not> panicked t" "input t = input ?s"
        using consputc_under [of p ?s BACKSPACE l] ok by (auto simp: console_ok_def)
      then show ?thesis using 3 False erase_ok [OF w False]
        by (intro exI [of _ t]) (auto simp: console_char_def edit_def console_ok_def)
    qed
  next
    case 4
    define k where "k = (if c = 13 then 10 else c)"
    have k: "k < 256" using c by (simp add: k_def)
    show ?thesis
    proof (cases "c \<noteq> 0 \<and> ie ?q - ir ?q < of_nat INPUT_BUF")
      case True
      then have r: "ie ?q - ir ?q < of_nat INPUT_BUF" by simp
      have eq: "console_char c (with_lock l s) =
        bnd (consputc k (with_lock l (setinput (put_key (of_nat k)) s))) (\<lambda>s.
          if k = 10 \<or> k = 4 \<or> ie (input s) = ir (input s) + of_nat INPUT_BUF
          then bnd (wakeup ChInput (setinput (\<lambda>q. q\<lparr>iw := ie q\<rparr>) s)) (\<lambda>s. Inr (False, s))
          else Inr (False, s))"
        using 4 True by (simp add: console_char_def Let_def put_key_def [abs_def] k_def [symmetric])
      have ed: "edit c (io s) = (if k = 10 \<or> k = 4 \<or> Suc (length (ready ?q) + length (editing ?q)) = INPUT_BUF
          then (ready ?q @ editing ?q @ [of_nat k], []) else (ready ?q, editing ?q @ [of_nat k]))"
        using 4 True room_iff [OF w] by (simp add: edit_def Let_def k_def [symmetric])
      show ?thesis unfolding eq ed using insert_char_ok [OF ok r k, of l] 4(1) by simp
    next
      case False
      then show ?thesis using 4 ok room_iff [OF w]
        by (intro exI [of _ s]) (auto simp: console_char_def edit_def)
    qed
  qed
qed

text \<open>
  C31: The keyboard and serial interrupt implements line editing.  On whatever characters arrive
  (control-P, which lists the processes, aside), \<open>consoleintr\<close> succeeds, keeps the ring and the
  screen well formed, and changes the finished input and the line being edited exactly as the
  editing rules say, one character after the other.
\<close>

theorem consoleintr_edits:
  assumes "console_ok p s" and "\<forall>c\<in>set cs. c < 256 \<and> c \<noteq> 16"
  shows "\<exists>s'. consoleintr cs s = Inr s' \<and> console_ok p s' \<and> io s' = fold edit cs (io s)"
proof -
  have loop: "console_ok p s \<Longrightarrow> \<forall>c\<in>set cs. c < 256 \<and> c \<noteq> 16 \<Longrightarrow>
    \<exists>s'. intr_loop cs False (with_lock LCons s) = Inr (False, with_lock LCons s') \<and> console_ok p s' \<and> io s' = fold edit cs (io s)" for s cs
  proof (induction cs arbitrary: s)
    case (Cons c cs)
    then obtain t where t: "console_char c (with_lock LCons s) = Inr (False, with_lock LCons t)" "console_ok p t" "io t = edit c (io s)"
      using console_char_ok [OF Cons.prems(1), of c LCons] by auto
    then show ?case using Cons.IH [OF t(2)] Cons.prems(2) by simp
  qed auto
  obtain s' where s': "intr_loop cs False (with_lock LCons s) = Inr (False, with_lock LCons s')" "console_ok p s'"
    "io s' = fold edit cs (io s)" using loop [OF assms] by blast
  have k: "kok p s" "kok p s'" using assms(1) s'(2) by (simp_all add: console_ok_def)
  let ?t = "s'\<lparr>mcpu := settle (mcpu s')\<rparr>"
  have "console_ok p ?t" using s'(2) calm_settle [OF k(2)] by (simp add: console_ok_def calm_kok screen_ok_def)
  moreover have "consoleintr cs s = Inr ?t"
    using s'(1) by (simp add: consoleintr_def acq_with_lock [OF k(1)] rel_with_lock [OF k(2)])
  ultimately show ?thesis using s'(3) by (intro exI [of _ ?t]) simp
qed

theorem consoleintr_edits_witness:
  "\<exists>s'. consoleintr [108, 120, 8, 115, 13] boot_tst = Inr s' \<and> io s' = ([108, 115, 10], [])"
proof -
  have "console_ok 0 boot_tst" using boot_tst_kok
    by (simp add: console_ok_def input_wf_def ring_ok_def input0_def editing_def typed_def screen_ok_def)
  moreover have "io boot_tst = ([], [])" by (simp add: ready_def editing_def typed_def input0_def)
  moreover have "fold edit [108, 120, 8, 115, 13] ([], []) = ([108, 115, 10], [])" by (simp add: edit_def)
  ultimately show ?thesis using consoleintr_edits [of 0 boot_tst "[108, 120, 8, 115, 13]"] by auto
qed

subsection \<open>Reading\<close>




end
