(* ===== verification/Grep.thy ===== *)
theory Grep
  imports Str
begin

text \<open>
  The user program \<^verbatim>\<open>grep.c\<close>: its matcher, the loop over the lines of the buffer, and the
  language that a pattern describes.

  A string is a list of bytes without its terminating zero; \<open>chr\<close> reads the zero at its end.
  The input is the list of what successive calls of \<open>read\<close> return.
\<close>

subsection \<open>The program\<close>

lemma chr_ne0_length: "chr s \<noteq> 0 \<Longrightarrow> 0 < length s"
  by (cases s) (auto simp: chr_def)

function matchhere :: "u8 list \<Rightarrow> u8 list \<Rightarrow> bool"
  and matchstar :: "u8 \<Rightarrow> u8 list \<Rightarrow> u8 list \<Rightarrow> bool" where
  "matchhere re tx =
     (if chr re = 0 then True
      else if chr (tl re) = 42 then matchstar (chr re) (drop 2 re) tx
      else if chr re = 36 \<and> chr (tl re) = 0 then chr tx = 0
      else if chr tx \<noteq> 0 \<and> (chr re = 46 \<or> chr re = chr tx) then matchhere (tl re) (tl tx)
      else False)"
| "matchstar c re tx =
     (if matchhere re tx then True
      else if chr tx \<noteq> 0 \<and> (chr tx = c \<or> c = 46) then matchstar c re (tl tx)
      else False)"
  by pat_completeness auto

termination
proof (relation "measure (\<lambda>x. case x of Inl (re, tx) \<Rightarrow> 2 * (length re + length tx)
    | Inr (c, re, tx) \<Rightarrow> 2 * (length re + length tx) + 1)", goal_cases)
  case (2 re tx)
  then have "Suc (2 * (length re - 2)) < 2 * length re" using chr_ne0_length [of re] by arith
  then show ?case by simp
next
  case (3 re tx)
  then have "length (tl re) < length re" using chr_ne0_length [of re] by auto
  moreover have "length (tl tx) \<le> length tx" by simp
  ultimately show ?case by (simp del: length_tl)
next
  case (5 c re tx)
  then show ?case using chr_ne0_length [of tx] by auto
qed simp_all

declare matchhere.simps [simp del] matchstar.simps [simp del]

text \<open>The loop of \<open>match\<close> tries every suffix of the tx, the empty one included.\<close>

fun match_from :: "u8 list \<Rightarrow> u8 list \<Rightarrow> bool" where
  "match_from re tx =
     (if matchhere re tx then True
      else case tx of [] \<Rightarrow> False | c # tx \<Rightarrow> if c = 0 then False else match_from re tx)"

declare match_from.simps [simp del]

definition match :: "u8 list \<Rightarrow> u8 list \<Rightarrow> bool" where
  "match re tx = (if chr re = 94 then matchhere (tl re) tx else match_from re tx)"




subsection \<open>The language of a pattern\<close>

datatype item = Lit u8 | Star u8

fun items :: "u8 list \<Rightarrow> item list \<times> bool" where
  "items [] = ([], False)"
| "items [c] = (if c = 36 then ([], True) else ([Lit c], False))"
| "items (c # d # re) =
     (if d = 42 then let (xs, e) = items re in (Star c # xs, e)
      else let (xs, e) = items (d # re) in (Lit c # xs, e))"

definition covers :: "u8 \<Rightarrow> u8 set" where
  "covers c = (if c = 46 then - {0} else {c})"

fun lang :: "item list \<Rightarrow> u8 list set" where
  "lang [] = {[]}"
| "lang (Lit c # xs) = {a # w | a w. a \<in> covers c \<and> w \<in> lang xs}"
| "lang (Star c # xs) = {u @ w | u w. set u \<subseteq> covers c \<and> w \<in> lang xs}"

text \<open>A prefix of the tx is in the language, and all of it if the pattern ends in \<open>$\<close>.\<close>

definition at_start :: "item list \<times> bool \<Rightarrow> u8 list \<Rightarrow> bool" where
  "at_start p tx \<longleftrightarrow> (\<exists>u v. tx = u @ v \<and> u \<in> lang (fst p) \<and> (snd p \<longrightarrow> v = []))"

lemma at_start_lit:
  "at_start (Lit c # xs, e) tx \<longleftrightarrow>
     (case tx of [] \<Rightarrow> False | a # t \<Rightarrow> a \<in> covers c \<and> at_start (xs, e) t)"
  by (cases tx) (auto simp: at_start_def Cons_eq_append_conv)

lemma at_start_star:
  "at_start (Star c # xs, e) tx \<longleftrightarrow>
     at_start (xs, e) tx \<or> (case tx of [] \<Rightarrow> False | a # t \<Rightarrow> a \<in> covers c \<and> at_start (Star c # xs, e) t)"
  (is "?L \<longleftrightarrow> ?R")
proof
  assume ?L
  then obtain x v where x: "tx = x @ v" "x \<in> lang (Star c # xs)" "e \<longrightarrow> v = []"
    unfolding at_start_def fst_conv snd_conv by blast
  from x(2) obtain u w where "x = u @ w" "set u \<subseteq> covers c" "w \<in> lang xs" by auto
  with x have t: "tx = (u @ w) @ v" "set u \<subseteq> covers c" "w \<in> lang xs" "e \<longrightarrow> v = []" by auto
  show ?R
  proof (cases u)
    case Nil
    then show ?thesis using t by (auto simp: at_start_def)
  next
    case (Cons a u')
    then have "at_start (Star c # xs, e) (u' @ w @ v)"
      using t unfolding at_start_def by (intro exI [of _ "u' @ w"] exI [of _ v]) auto
    then show ?thesis using t Cons by simp
  qed
next
  assume ?R
  then show ?L
  proof
    assume "at_start (xs, e) tx"
    then obtain u v where "tx = u @ v" "u \<in> lang xs" "e \<longrightarrow> v = []" by (auto simp: at_start_def)
    then show ?L unfolding at_start_def by (intro exI [of _ u] exI [of _ v]) (auto intro: exI [of _ "[]"])
  next
    assume "case tx of [] \<Rightarrow> False | a # t \<Rightarrow> a \<in> covers c \<and> at_start (Star c # xs, e) t"
    then obtain a t where at: "tx = a # t" "a \<in> covers c" "at_start (Star c # xs, e) t" by (cases tx) auto
    from at(3) obtain x v where "t = x @ v" "x \<in> lang (Star c # xs)" "e \<longrightarrow> v = []"
      unfolding at_start_def fst_conv snd_conv by blast
    note a = at(1,2) this
    from a(4) obtain u w where "x = u @ w" "set u \<subseteq> covers c" "w \<in> lang xs" by auto
    then have "a # x \<in> lang (Star c # xs)" using a(2)
      unfolding lang.simps mem_Collect_eq by (intro exI [of _ "a # u"] exI [of _ w]) simp
    then show ?L unfolding at_start_def using a by (intro exI [of _ "a # x"] exI [of _ v]) simp
  qed
qed

text \<open>The matcher decides the language.\<close>

lemma chr_in: "0 \<notin> set s \<Longrightarrow> chr s = 0 \<longleftrightarrow> s = []"
  by (cases s) (auto simp: chr_def)

lemma items_Cons:
  "items (c # re) = (if chr re = 42 then let (xs, e) = items (tl re) in (Star c # xs, e)
     else if c = 36 \<and> re = [] then ([], True) else let (xs, e) = items re in (Lit c # xs, e))"
  by (cases re) (auto simp: chr_def)

lemma matchhere_Nil [simp]: "matchhere [] tx"
  by (simp add: matchhere.simps chr_def)

lemma matchhere_Cons:
  assumes "0 \<notin> set (c # r)" and "0 \<notin> set tx"
  shows "matchhere (c # r) tx \<longleftrightarrow>
    (if chr r = 42 then matchstar c (tl r) tx
     else if c = 36 \<and> r = [] then tx = []
     else tx \<noteq> [] \<and> (c = 46 \<or> c = hd tx) \<and> matchhere r (tl tx))"
  using assms chr_in [of r] chr_in [of tx]
  by (subst matchhere.simps) (cases tx; auto simp: chr_def drop_Suc)

lemma matchstar_eq:
  assumes "0 \<notin> set tx"
  shows "matchstar c re tx \<longleftrightarrow> matchhere re tx \<or> (tx \<noteq> [] \<and> (hd tx = c \<or> c = 46) \<and> matchstar c re (tl tx))"
  using assms by (subst matchstar.simps) (cases tx; auto simp: chr_def)

lemma star_iff:
  assumes "\<And>tx. 0 \<notin> set tx \<Longrightarrow> matchhere re tx \<longleftrightarrow> at_start (xs, e) tx"
  shows "0 \<notin> set tx \<Longrightarrow> matchstar c re tx \<longleftrightarrow> at_start (Star c # xs, e) tx"
proof (induction tx)
  case Nil
  then show ?case using assms [of "[]"] by (subst matchstar_eq, simp, subst at_start_star) simp
next
  case (Cons a tx)
  then have "hd (a # tx) = c \<or> c = 46 \<longleftrightarrow> a \<in> covers c" by (auto simp: covers_def)
  then show ?case using Cons assms [of "a # tx"]
    by (subst matchstar_eq, simp, subst at_start_star) auto
qed

lemma matchhere_iff: "0 \<notin> set re \<Longrightarrow> 0 \<notin> set tx \<Longrightarrow> matchhere re tx \<longleftrightarrow> at_start (items re) tx"
proof (induction re arbitrary: tx rule: length_induct)
  case (1 re)
  show ?case
  proof (cases re)
    case Nil
    then show ?thesis by (simp add: at_start_def)
  next
    case (Cons c r)
    obtain xs e where r: "items r = (xs, e)" by fastforce
    obtain ys f where tr: "items (tl r) = (ys, f)" by fastforce
    have "0 \<notin> set (tl r)" using 1(2) Cons by (cases r) auto
    then have "matchhere (tl r) t \<longleftrightarrow> at_start (ys, f) t" if "0 \<notin> set t" for t
      using 1(1) that Cons tr by auto
    then have star: "matchstar c (tl r) tx \<longleftrightarrow> at_start (Star c # ys, f) tx" using star_iff 1(3) by blast
    have "matchhere r (tl tx) \<longleftrightarrow> at_start (xs, e) (tl tx)"
      using 1 Cons r by (cases tx) auto
    then have lit: "tx \<noteq> [] \<and> (c = 46 \<or> c = hd tx) \<and> matchhere r (tl tx) \<longleftrightarrow> at_start (Lit c # xs, e) tx"
      using 1(3) by (cases tx) (auto simp: at_start_lit covers_def)
    have eol: "at_start ([], True) tx \<longleftrightarrow> tx = []" by (simp add: at_start_def)
    show ?thesis using 1(2,3) matchhere_Cons [of c r tx] star lit eol r tr by (simp add: Cons items_Cons)
  qed
qed

text \<open>
  C37: The matcher is correct.  For a pattern and a line without zero bytes, \<open>match\<close> answers
  yes exactly if some part of the line is in the language of the pattern, where \<open>c*\<close> stands for
  any number of \<open>c\<close>, \<open>.\<close> for any byte, a leading \<open>^\<close> ties the part to the start of the line and
  a trailing \<open>$\<close> to its end.
\<close>

theorem match_lang:
  assumes "0 \<notin> set re" and "0 \<notin> set tx"
  shows "match re tx \<longleftrightarrow>
    (let (caret, p) = (if chr re = 94 then (True, items (tl re)) else (False, items re))
     in \<exists>a u b. tx = a @ u @ b \<and> u \<in> lang (fst p) \<and> (caret \<longrightarrow> a = []) \<and> (snd p \<longrightarrow> b = []))"
proof -
  have from_iff: "0 \<notin> set t \<Longrightarrow> match_from re t \<longleftrightarrow> (\<exists>a v. t = a @ v \<and> at_start (items re) v)" for t
  proof (induction t)
    case Nil
    then show ?case using matchhere_iff [OF assms(1), of "[]"] by (subst match_from.simps) simp
  next
    case (Cons c t)
    then show ?case using matchhere_iff [OF assms(1), of "c # t"]
      by (subst match_from.simps) (auto simp: Cons_eq_append_conv)
  qed
  have "0 \<notin> set (tl re)" using assms(1) by (cases re) auto
  then show ?thesis using matchhere_iff [of "tl re" tx] from_iff [of tx] assms
    by (simp add: match_def at_start_def) blast
qed

theorem match_lang_witness:
  "match [94, 97, 42, 98, 36] [97, 97, 98] \<and> \<not> match [94, 97, 42, 98, 36] [97, 98, 97]"
proof -
  let ?re = "[94, 97, 42, 98, 36] :: u8 list"
  have it: "items [97, 42, 98, 36] = ([Star 97, Lit 98], True)" by simp
  have "[97, 97, 98] \<in> lang [Star 97, Lit 98]"
    by (auto simp: covers_def intro!: exI [of _ "[97, 97]"] exI [of _ "[98]"])
  then have "match ?re [97, 97, 98]"
    using match_lang [of ?re "[97, 97, 98]"] it by (simp add: chr_def)
  moreover have "[97, 98, 97] \<notin> lang [Star 97, Lit 98]"
    by (auto simp: covers_def append_eq_Cons_conv)
  then have "\<not> match ?re [97, 98, 97]"
    using match_lang [of ?re "[97, 98, 97]"] it by (simp add: chr_def)
  ultimately show ?thesis ..
qed


end
