(* ===== verification/UserLib.thy ===== *)
theory UserLib
  imports Console
begin

text \<open>
  The library of the user programs (\<^verbatim>\<open>ulib.c\<close>, \<^verbatim>\<open>printf.c\<close>).

  Strings are lists of bytes; \<open>chr\<close> reads the zero at the end.  What \<open>printf\<close> writes to its
  file descriptor is returned as a list of bytes.
\<close>

subsection \<open>Strings\<close>

text \<open>The destination is the buffer behind the pointer; a string that is too long runs over it.\<close>

fun strcpy :: "u8 list \<Rightarrow> u8 list \<Rightarrow> u8 list res" where
  "strcpy [] t = Inl OutOfRange"
| "strcpy (d # ds) t =
     (if chr t = 0 then Inr (0 # ds) else bnd (strcpy ds (tl t)) (\<lambda>r. Inr (chr t # r)))"

fun strcmp :: "u8 list \<Rightarrow> u8 list \<Rightarrow> int" where
  "strcmp [] q = - int (unat (chr q))"
| "strcmp (c # p) q =
     (if c \<noteq> 0 \<and> c = chr q then strcmp p (tl q) else int (unat c) - int (unat (chr q)))"

fun strchr :: "u8 list \<Rightarrow> u8 \<Rightarrow> u8 list option" where
  "strchr [] c = None"
| "strchr (x # s) c = (if x = 0 then None else if x = c then Some (x # s) else strchr s c)"

text \<open>
  The loop of \<open>gets\<close> on the results of its reads: the count and the byte that \<open>read\<close> stored.
\<close>

fun gets_loop :: "nat \<Rightarrow> (int \<times> u8) list \<Rightarrow> u8 list" where
  "gets_loop 0 rs = []"
| "gets_loop (Suc n) [] = []"
| "gets_loop (Suc n) ((cc, c) # rs) =
     (if cc < 1 then [] else if c = 10 \<or> c = 13 then [c] else c # gets_loop n rs)"

definition gets :: "int \<Rightarrow> (int \<times> u8) list \<Rightarrow> u8 list" where
  "gets mx rs = gets_loop (nat (mx - 1)) rs @ [0]"



text \<open>The library's \<open>memmove\<close> always copies upwards.\<close>

definition umemmove :: "bytes \<Rightarrow> u32 \<Rightarrow> u32 \<Rightarrow> int \<Rightarrow> bytes" where
  "umemmove m d s n = copy_up (nat n) d s m"

subsection \<open>Formatted output\<close>

definition upper_digits :: "u8 list" where
  "upper_digits = map of_char ''0123456789ABCDEF''"

definition uprintint :: "i32 \<Rightarrow> u32 \<Rightarrow> bool \<Rightarrow> u8 list" where
  "uprintint xx base sg =
     (let neg = (sg \<and> sint xx < 0);
          x = (if neg then - xx else xx)
      in rev (int_digits upper_digits base x @ (if neg then [45] else [])))"

text \<open>The loop of \<open>printf\<close>; \<open>st\<close> says whether the last character was a percent sign.\<close>

fun printf_loop :: "bool \<Rightarrow> u8 list \<Rightarrow> carg list \<Rightarrow> u8 list res" where
  "printf_loop st [] args = Inr []"
| "printf_loop st (c # fmt) args =
     (if c = 0 then Inr []
      else if \<not> st
      then if c = 37 then printf_loop True fmt args else emit [c] (printf_loop False fmt args)
      else if c = 100
      then (case args of AInt v # args \<Rightarrow> emit (uprintint v 10 True) (printf_loop False fmt args) | _ \<Rightarrow> Inl OutOfRange)
      else if c = 120 \<or> c = 112
      then (case args of AInt v # args \<Rightarrow> emit (uprintint v 16 False) (printf_loop False fmt args) | _ \<Rightarrow> Inl OutOfRange)
      else if c = 115
      then (case args of AStr t # args \<Rightarrow> emit (cstr t) (printf_loop False fmt args)
            | AInt v # args \<Rightarrow> if v = 0 then emit (map of_char ''(null)'') (printf_loop False fmt args) else Inl OutOfRange
            | [] \<Rightarrow> Inl OutOfRange)
      else if c = 99
      then (case args of AInt v # args \<Rightarrow> emit [ucast v] (printf_loop False fmt args) | _ \<Rightarrow> Inl OutOfRange)
      else if c = 37 then emit [c] (printf_loop False fmt args)
      else emit [37, c] (printf_loop False fmt args))"

definition printf :: "u8 list \<Rightarrow> carg list \<Rightarrow> u8 list res" where
  "printf fmt args = printf_loop False fmt args"

subsection \<open>Numbers\<close>








lemma int_digits_length:
  assumes "1 < base" and "unat x < unat base ^ Suc k"
  shows "length (int_digits ds base x) \<le> Suc k"
  using assms(2)
proof (induction k arbitrary: x)
  case 0
  then have "x div base = 0" by (simp add: word_unat_eq_iff unat_div)
  then show ?case by (subst int_digits.simps) simp
next
  case (Suc k)
  have "unat (x div base) < unat base ^ Suc k"
    using Suc.prems by (simp add: unat_div less_mult_imp_div_less mult.commute)
  from Suc.IH [OF this] show ?case by (subst int_digits.simps) simp
qed

text \<open>
  C40: The 16-byte buffers of both \<open>printint\<close> routines are large enough: in base 10 and above, a
  number has at most 10 digits and a sign.
\<close>

theorem printint_fits:
  assumes "10 \<le> base"
  shows "length (printint x base sg) \<le> 11 \<and> length (uprintint x base sg) \<le> 11"
proof -
  have b: "10 \<le> unat base" using assms by (simp add: word_le_nat_alt)
  then have b1: "1 < base" by (simp add: word_less_nat_alt)
  have "(10 :: nat) ^ Suc 9 \<le> unat base ^ Suc 9" by (rule power_mono [OF b]) simp
  then have "unat y < unat base ^ Suc 9" for y :: u32 using unat_u32_less [of y] by simp
  then have L: "length (int_digits ds base y) \<le> 10" for ds y using int_digits_length [OF b1, of y 9 ds] by simp
  moreover have "length (int_digits ds base y) \<le> 11" for ds y using L [of ds y] by linarith
  ultimately show ?thesis by (auto simp: printint_def uprintint_def Let_def)
qed

theorem printint_fits_witness: "length (uprintint 0x80000000 10 True) \<le> 11 \<and> length (printint 0x80000000 10 True) \<le> 11"
  using printint_fits [of 10 "0x80000000" True] by simp

end
