(* ===== verification/FsTx.thy ===== *)
theory FsTx
  imports FsData LogTx
begin

text \<open>
  Blocks and inodes inside a transaction: every store of the file system is the sequence
  \<open>bread\<close>, change, \<open>log_write\<close>, \<open>brelse\<close>, and its effect on what readers see is the
  change of this one block.
\<close>

subsection \<open>One block\<close>

text \<open>There is an operation in progress, and the log has room for \<open>n\<close> more blocks.\<close>

definition tx_room :: "nat \<Rightarrow> nat \<Rightarrow> 'z lst_scheme \<Rightarrow> bool" where
  "tx_room c n s \<longleftrightarrow> linv c s \<and> 1 \<le> outstanding (lg s) \<and> lhn (lg s) + int n \<le> 29 \<and>
     lhn (lg s) + int n \<le> lsize (lg s) - 1"

definition data_block :: "'z lst_scheme \<Rightarrow> u32 \<Rightarrow> bool" where
  "data_block s x \<longleftrightarrow> x < disksize s \<and> \<not> in_log (lstart (lg s)) x"

text \<open>From \<open>s\<close> to \<open>s'\<close> the logged view of the disk changed to \<open>V\<close>, within \<open>n\<close> log slots.\<close>

definition tx_step :: "nat \<Rightarrow> nat \<Rightarrow> (u32 \<Rightarrow> block) \<Rightarrow> 'z lst_scheme \<Rightarrow> 'z lst_scheme \<Rightarrow> bool" where
  "tx_step c n V s s' \<longleftrightarrow> linv c s' \<and> view s' = V \<and> disk s' = disk s \<and> lframe c s s' \<and>
     lstart (lg s') = lstart (lg s) \<and> lsize (lg s') = lsize (lg s) \<and>
     outstanding (lg s') = outstanding (lg s) \<and> lhn (lg s') \<le> lhn (lg s) + int n"

lemma tx_stepD:
  assumes "tx_step c n V s s'"
  shows "linv c s'" "view s' = V" "disk s' = disk s" "lframe c s s'" "disksize s' = disksize s"
    "data_block s' x = data_block s x"
  using assms lframe_disksize [of c s s'] by (simp_all add: tx_step_def data_block_def)

lemma tx_step_trans:
  "tx_step c m V s t \<Longrightarrow> tx_step c n W t u \<Longrightarrow> tx_step c (m + n) W s u"
  using lframe_trans by (auto simp: tx_step_def)

lemma tx_step_room: "tx_room c (m + n) s \<Longrightarrow> tx_step c m V s t \<Longrightarrow> tx_room c n t"
  by (simp add: tx_room_def tx_step_def)

lemma release_block:
  assumes h: "only_held c t {b}" and b: "holds t x b" and wf: "log_wf t"
    and clean: "bdirty (bufs t ! b) \<or> bdata (bufs t ! b) = disk t x"
  shows "\<exists>s'. brelse b t = Inr s' \<and> tx_step c 0 (view t) t s'"
proof (rule brelse_held [OF h b clean])
  fix s'
  assume s': "brelse b t = Inr s'" "only_held c s' ({b} - {b})" "view s' = view t"
    "is_dirty s' = is_dirty t" "disk s' = disk t" "dtrace s' = dtrace t" "bframe c t s'"
  have "linv c s'" using s'(2) log_wf_same(1) [OF wf s'(3,4,5,7)] by (simp add: linv_def quiet_only)
  then have "tx_step c 0 (view t) t s'"
    using s'(3,5,7) bframe_lg [OF s'(7)] by (simp add: tx_step_def bframe_lframe)
  then show ?thesis using s'(1) by blast
qed

lemma read_block:
  assumes inv: "linv c s" and x: "x < disksize s"
  obtains b t where "bread 1 x s = Inr (b, t)" and "bdata (bufs t ! b) = view s x" and "bframe c s t"
    and "holds t x b" and "only_held c t {b}" and "log_wf t" and "view t = view s" and "disk t = disk s"
    and "bdirty (bufs t ! b) \<or> bdata (bufs t ! b) = disk t x"
proof -
  have h: "only_held c s {}" and wf: "log_wf s" using inv by (simp_all add: linv_def quiet_only)
  have "length (logged s) < 30" using log_wfD(3,4,10) [OF wf] by linarith
  then have ev: "evictable s"
    by (intro evictable_room [OF h, of "logged s"]) (use log_wfD(7) [OF wf] in simp_all)
  show ?thesis
  proof (rule bread_held [OF h x])
    fix b t
    assume t: "bread 1 x s = Inr (b, t)" "only_held c t {b}" "holds t x b"
      "bdata (bufs t ! b) = view s x" "bdirty (bufs t ! b) = is_dirty s x"
      "view t = view s" "is_dirty t = is_dirty s" "disk t = disk s" "bframe c s t"
    note W = log_wf_same [OF wf t(6,7,8,9)]
    have "bdirty (bufs t ! b) \<or> bdata (bufs t ! b) = disk t x"
      using t(4,5,8) view_clean [OF h, of x] by auto
    then show thesis using that [OF t(1,4,9,3,2) W(1) t(6,8)] by blast
  qed (use ev in auto)
qed

lemma put_held:
  assumes h: "only_held c t {b}" and b: "holds t x b" and wf: "log_wf t" and x: "\<not> in_log (lstart (lg t)) x"
  shows "only_held c (put_data b v t) {b}" "holds (put_data b v t) x b" "log_wf (put_data b v t)"
    "view (put_data b v t) = (view t)(x := v)" "disk (put_data b v t) = disk t" "lg (put_data b v t) = lg t"
    "lframe c t (put_data b v t)"
proof -
  obtain xs where inv: "binv c t xs" using h by (auto simp: only_held_def)
  note P = put_data_ok [OF inv b, of v]
  have f: "disk (put_data b v t) = disk t" "lg (put_data b v t) = lg t" "disksize (put_data b v t) = disksize t"
    by (simp_all add: put_data_def setb_def)
  then show "disk (put_data b v t) = disk t" "lg (put_data b v t) = lg t" by simp_all
  have "brefcnt (bufs (put_data b v t) ! i) = brefcnt (bufs t ! i)" for i
    by (simp add: put_data_def nth_upd_if)
  then show "only_held c (put_data b v t) {b}" using h P(1) by (auto simp: only_held_def)
  show "holds (put_data b v t) x b" using P(4) b by simp
  show v: "view (put_data b v t) = (view t)(x := v)" by (rule P(2))
  have "in_log (lstart (lg t)) (lstart (lg t))"
    using log_wfD(2) [OF wf] unat_u32_less [of "disksize t"]
    by (simp add: in_log_def word_le_nat_alt word_less_nat_alt unat_u32_add)
  then have "x \<noteq> lstart (lg t)" using x by auto
  then show "log_wf (put_data b v t)" using wf P(3) v f by (simp add: log_wf_def logged_def)
  show "lframe c t (put_data b v t)" by (rule bframe_lframe [OF bframe_put [OF only_held_kok [OF h]]])
qed

text \<open>Reading a block, changing it, logging it and releasing it.\<close>

lemma update_block:
  fixes s :: "'z lst_scheme"
  assumes r: "tx_room c (Suc n) s" and x: "data_block s x"
  obtains b t where "bread 1 x s = Inr (b, t)" and "bdata (bufs t ! b) = view s x" and "bframe c s t"
    and "\<And>v. \<exists>s'. bnd (log_write b (put_data b v t)) (brelse b) = Inr s' \<and> tx_step c 1 ((view s)(x := v)) s s'"
    and "\<exists>s'. brelse b t = Inr s' \<and> tx_step c 0 (view s) s s'"
proof (rule read_block)
  show "linv c s" "x < disksize s" using r x by (simp_all add: tx_room_def data_block_def)
  fix b and t :: "'z lst_scheme"
  assume t: "bread 1 x s = Inr (b, t)" "bdata (bufs t ! b) = view s x" "bframe c s t"
    "holds t x b" "only_held c t {b}" "log_wf t" "view t = view s" "disk t = disk s"
    "bdirty (bufs t ! b) \<or> bdata (bufs t ! b) = disk t x"
  have s0: "tx_step c 0 (view t) t s' \<Longrightarrow> tx_step c 0 (view s) s s'" for s'
    using lframe_trans [OF bframe_lframe [OF t(3)], of s'] bframe_lg [OF t(3)] t(7,8) by (simp add: tx_step_def)
  have "\<exists>s'. bnd (log_write b (put_data b v t)) (brelse b) = Inr s' \<and> tx_step c 1 ((view s)(x := v)) s s'" for v
  proof -
    have lgt: "lg t = lg s" by (rule bframe_lg [OF t(3)])
    have nl: "\<not> in_log (lstart (lg t)) x" using x by (simp add: data_block_def lgt)
    note P = put_held [OF t(5,4,6) nl, of v]
    have room: "lhn (lg (put_data b v t)) < 29" "lhn (lg (put_data b v t)) < lsize (lg (put_data b v t)) - 1"
        "1 \<le> outstanding (lg (put_data b v t))" "\<not> in_log (lstart (lg (put_data b v t))) x"
      using r nl by (simp_all add: P(6) lgt tx_room_def)
    show ?thesis
    proof (rule log_write_ok [OF P(1,3,2) room(4,1,2,3)])
      fix u
      assume u: "log_write b (put_data b v t) = Inr u" "only_held c u {b}" "log_wf u" "view u = view (put_data b v t)"
        "disk u = disk (put_data b v t)" "lg u = record_block x (lg (put_data b v t))"
        "\<And>y j. holds u y j = holds (put_data b v t) y j" "bdirty (bufs u ! b)" "lframe c (put_data b v t) u"
      have hu: "holds u x b" using u(7) P(2) by simp
      show ?thesis
      proof (rule brelse_held [OF u(2) hu disjI1 [OF u(8)]])
        fix s'
        assume s': "brelse b u = Inr s'" "only_held c s' ({b} - {b})" "view s' = view u"
          "is_dirty s' = is_dirty u" "disk s' = disk u" "bframe c u s'"
        have "linv c s'" using s'(2) log_wf_same(1) [OF u(3) s'(3,4,5,6)] by (simp add: linv_def quiet_only)
        moreover have "lframe c s s'"
          using lframe_trans [OF bframe_lframe [OF t(3)] lframe_trans [OF P(7) lframe_trans [OF u(9) bframe_lframe [OF s'(6)]]]] .
        moreover have "lg s' = record_block x (lg s)" using bframe_lg [OF s'(6)] u(6) P(6) lgt by simp
        ultimately have "tx_step c 1 ((view s)(x := v)) s s'"
          using s'(3,5) u(4,5) P(4,5) t(7,8) by (simp add: tx_step_def) (simp add: record_block_def)
        then show ?thesis using u(1) s'(1) by auto
      qed
    qed
  qed
  moreover have "\<exists>s'. brelse b t = Inr s' \<and> tx_step c 0 (view s) s s'"
    using release_block [OF t(5,4,6,9)] s0 by blast
  ultimately show thesis using that [OF t(1-3)] by blast
qed

lemma lframe_eq:
  "lframe c s s' \<Longrightarrow> s' = s\<lparr>lg := lg s', mcpu := mcpu s', procs := procs s', queue := queue s',
     queue_tail := queue_tail s', bufs := bufs s', disk := disk s', dtrace := dtrace s'\<rparr>"
  using bframe_eq [of c "s\<lparr>lg := lg s'\<rparr>" s'] by (simp add: lframe_def)

lemma lframe_ist:
  assumes "lframe c s s'"
  shows "sb s' = sb s" "icache s' = icache s"
  using arg_cong [OF lframe_eq [OF assms], of sb] arg_cong [OF lframe_eq [OF assms], of icache] by simp_all

lemma bframe_ist: "bframe c s s' \<Longrightarrow> sb s' = sb s" "bframe c s s' \<Longrightarrow> icache s' = icache s"
  using lframe_ist [OF bframe_lframe] by blast+

subsection \<open>The block map\<close>

lemma bzero_ok:
  assumes r: "tx_room c (Suc n) s" and x: "data_block s x"
  shows "\<exists>s'. bzero 1 x s = Inr s' \<and> tx_step c 1 ((view s)(x := replicate BSIZE 0)) s s'"
proof (rule update_block [OF r x])
  fix b t
  assume "bread 1 x s = Inr (b, t)"
    "\<And>v. \<exists>s'. bnd (log_write b (put_data b v t)) (brelse b) = Inr s' \<and> tx_step c 1 ((view s)(x := v)) s s'"
  then show ?thesis by (auto simp: bzero_def)
qed

lemma map_bit_set:
  assumes "bi div 8 < length bs"
  shows "map_bit (set_map_bit bi v bs) bj = (if bj = bi then v else map_bit bs bj)"
proof (cases "bj div 8 = bi div 8")
  case True
  have "bj mod 8 = bi mod 8 \<longleftrightarrow> bj = bi" using True by (metis div_mult_mod_eq)
  then show ?thesis using assms True
    by (auto simp: map_bit_def set_map_bit_def bit_simps split: if_splits)
next
  case False
  then have "bj \<noteq> bi" by auto
  then show ?thesis using False by (simp add: map_bit_def set_map_bit_def)
qed

lemma set_map_bit_undo: "bi div 8 < length bs \<Longrightarrow> \<not> map_bit bs bi \<Longrightarrow> set_map_bit bi False (set_map_bit bi True bs) = bs"
proof -
  assume l: "bi div 8 < length bs" and f: "\<not> map_bit bs bi"
  have "(bs ! (bi div 8) OR push_bit (bi mod 8) 1) AND NOT (push_bit (bi mod 8) 1) = bs ! (bi div 8)"
    using f by (intro bit_word_eqI) (auto simp: map_bit_def bit_simps)
  then show ?thesis using l by (simp add: set_map_bit_def)
qed

text \<open>A disk whose block map is the single block \<open>sb.bmapstart\<close>, with the log and the map in use.\<close>

definition map_ok :: "'z ist_scheme \<Rightarrow> bool" where
  "map_ok s \<longleftrightarrow> 0 < sb_size (sb s) \<and> unat (sb_size (sb s)) \<le> BPB \<and> data_block s (sb_bmapstart (sb s)) \<and>
     length (view s (sb_bmapstart (sb s))) = BSIZE \<and>
     (\<forall>b<unat (sb_size (sb s)). \<not> map_bit (view s (sb_bmapstart (sb s))) b \<longrightarrow>
        data_block s (of_nat b) \<and> of_nat b \<noteq> sb_bmapstart (sb s))"

definition first_free :: "'z ist_scheme \<Rightarrow> nat option" where
  "first_free s = first_idx (\<lambda>b. \<not> map_bit (view s (sb_bmapstart (sb s))) b) [0..<unat (sb_size (sb s))]"

lemma first_freeD:
  assumes "first_free s = Some b"
  shows "b < unat (sb_size (sb s))" "\<not> map_bit (view s (sb_bmapstart (sb s))) b"
  using first_idx_SomeD [OF assms [unfolded first_free_def]] by simp_all

lemma balloc_eq:
  fixes s :: "'z ist_scheme"
  assumes r: "tx_room c 2 s" and ok: "map_ok s"
  defines "m \<equiv> sb_bmapstart (sb s)"
  shows "case first_free s of
      None \<Rightarrow> balloc 1 s = panic ''balloc: out of blocks''
    | Some b \<Rightarrow> \<exists>s'. balloc 1 s = Inr (of_nat b, s') \<and>
        tx_step c 2 ((view s)(m := set_map_bit b True (view s m), of_nat b := replicate BSIZE 0)) s s'"
proof -
  have m: "data_block s m" and sz: "0 < unat (sb_size (sb s))" "unat (sb_size (sb s)) \<le> 4096"
    using ok by (simp_all add: map_ok_def m_def word_less_nat_alt)
  have "(4095 + unat (sb_size (sb s))) div 4096 = 1" using sz by (intro div_nat_eqI) simp_all
  then have start: "balloc 1 s = balloc_loop 1 [0] s" by (simp add: balloc_def del: balloc_loop.simps)
  have r1: "tx_room c (Suc 1) s" using r by (simp add: numeral_2_eq_2)
  show ?thesis
  proof (rule update_block [OF r1 m])
    fix b and t :: "'z ist_scheme"
    assume t: "bread 1 m s = Inr (b, t)" "bdata (bufs t ! b) = view s m" "bframe c s t"
      "\<And>v. \<exists>s'. bnd (log_write b (put_data b v t)) (brelse b) = Inr s' \<and> tx_step c 1 ((view s)(m := v)) s s'"
      "\<exists>s'. brelse b t = Inr s' \<and> tx_step c 0 (view s) s s'"
    have sbt: "sb t = sb s" by (rule bframe_ist(1) [OF t(3)])
    have bb: "BBLOCK 0 (sb s) = m" by (simp add: BBLOCK_def m_def)
    have free: "first_idx (\<lambda>bi. \<not> map_bit (bdata (bufs t ! b)) bi) [0..<min BPB (unat (sb_size (sb t)) - 0)] = first_free s"
      using t(2) sz by (simp add: first_free_def sbt m_def min_absorb2)
    show ?thesis
    proof (cases "first_free s")
      case None
      obtain s' where "brelse b t = Inr s'" using t(5) by blast
      then show ?thesis using None free by (simp add: start bb t(1) del: first_idx_None_iff)
    next
      case (Some k)
      note F = first_freeD [OF Some]
      obtain u where u: "bnd (log_write b (put_data b (set_map_bit k True (view s m)) t)) (brelse b) = Inr u"
        "tx_step c 1 ((view s)(m := set_map_bit k True (view s m))) s u" using t(4) by blast
      have "data_block s (of_nat k)" using ok F by (simp add: map_ok_def)
      then have "data_block u (of_nat k)" using tx_stepD(6) [OF u(2)] by simp
      moreover have "tx_room c (Suc 0) u" using tx_step_room [of c 1 "Suc 0"] r u(2) by (simp add: numeral_2_eq_2)
      ultimately obtain s' where s': "bzero 1 (of_nat k) u = Inr s'"
        "tx_step c 1 ((view u)(of_nat k := replicate BSIZE 0)) u s'" using bzero_ok by blast
      have "balloc 1 s = Inr (of_nat k, s')"
        using u(1) s'(1) free Some by (auto simp: start bb t(1,2) res_iff Let_def)
      moreover have "tx_step c 2 ((view s)(m := set_map_bit k True (view s m), of_nat k := replicate BSIZE 0)) s s'"
        using tx_step_trans [OF u(2) s'(2)] tx_stepD(2) [OF u(2)] by (simp add: numeral_2_eq_2)
      ultimately show ?thesis using Some by auto
    qed
  qed
qed

lemma bfree_eq:
  fixes s :: "'z ist_scheme"
  assumes r: "tx_room c 1 s" and m: "data_block s (sb_bmapstart (sb s))" and b: "unat x < BPB"
  defines "m \<equiv> sb_bmapstart (sb s)"
  shows "if map_bit (view s m) (unat x)
    then \<exists>s'. bfree 1 x s = Inr s' \<and> tx_step c 1 ((view s)(m := set_map_bit (unat x) False (view s m))) s s'
    else bfree 1 x s = panic ''freeing free block''"
proof -
  have r1: "tx_room c (Suc 0) s" using r by simp
  have "x div 4096 = 0" using b by (simp add: word_unat_eq_iff unat_div)
  then have bb: "BBLOCK x (sb s) = m" by (simp add: BBLOCK_def m_def)
  show ?thesis
  proof (rule update_block [OF r1 m])
    fix b and t :: "'z ist_scheme"
    assume t: "bread 1 (sb_bmapstart (sb s)) s = Inr (b, t)" "bdata (bufs t ! b) = view s (sb_bmapstart (sb s))"
      "\<And>v. \<exists>s'. bnd (log_write b (put_data b v t)) (brelse b) = Inr s' \<and>
          tx_step c 1 ((view s)(sb_bmapstart (sb s) := v)) s s'"
    have "unat x mod BPB = unat x" using b by simp
    then show ?thesis using t(1,2) t(3) [of "set_map_bit (unat x) False (view s m)"] bb
      by (simp add: bfree_def Let_def m_def del: BPB_def)
  qed
qed

subsection \<open>Inodes\<close>

lemma dinode_fold:
  fixes k n :: nat and a :: "nat \<Rightarrow> u32"
  defines "put \<equiv> \<lambda>n. fold (\<lambda>j bs. put32 (64 * k + 12 + 4 * j) (a j) bs) [0..<n]"
  assumes "length bs = 512" and "k < 8" and "n \<le> 13"
  shows "length (put n bs) = 512 \<and> (\<forall>j<n. le32 (put n bs) (64 * k + 12 + 4 * j) = a j) \<and>
    (\<forall>i. i + 4 \<le> 64 * k + 12 \<or> 64 * k + 64 \<le> i \<longrightarrow> le32 (put n bs) i = le32 bs i) \<and>
    (\<forall>i. i + 2 \<le> 64 * k + 12 \<or> 64 * k + 64 \<le> i \<longrightarrow> le16 (put n bs) i = le16 bs i)"
  using assms(4)
proof (induction n)
  case 0
  then show ?case using assms(2) by (simp add: put_def)
next
  case (Suc n)
  then have IH: "length (put n bs) = 512" "\<forall>j<n. le32 (put n bs) (64 * k + 12 + 4 * j) = a j"
    "\<forall>i. i + 4 \<le> 64 * k + 12 \<or> 64 * k + 64 \<le> i \<longrightarrow> le32 (put n bs) i = le32 bs i"
    "\<forall>i. i + 2 \<le> 64 * k + 12 \<or> 64 * k + 64 \<le> i \<longrightarrow> le16 (put n bs) i = le16 bs i" by simp_all
  have s: "put (Suc n) bs = put32 (64 * k + 12 + 4 * n) (a n) (put n bs)" by (simp add: put_def)
  have "le32 (put (Suc n) bs) (64 * k + 12 + 4 * j) = a j" if "j < Suc n" for j
    using that IH(1,2) Suc.prems assms(3) unfolding s by (cases "j = n") (simp_all add: le_put_other)
  moreover have "le32 (put (Suc n) bs) i = le32 bs i" if "i + 4 \<le> 64 * k + 12 \<or> 64 * k + 64 \<le> i" for i
    using IH(3) that Suc.prems unfolding s by (subst le_put_other) auto
  moreover have "le16 (put (Suc n) bs) i = le16 bs i" if "i + 2 \<le> 64 * k + 12 \<or> 64 * k + 64 \<le> i" for i
    using IH(4) that Suc.prems unfolding s by (subst le_put_other) auto
  ultimately show ?case using IH(1) unfolding s by simp
qed

text \<open>An inode stored in its slot is read back, and the other seven slots are not disturbed.\<close>

lemma get_put_dinode:
  assumes l: "length bs = 512" and k: "k < 8" and d: "length (daddrs d) = 13"
  shows "get_dinode k (put_dinode k d bs) = d" and "j \<noteq> k \<Longrightarrow> j < 8 \<Longrightarrow> get_dinode j (put_dinode k d bs) = get_dinode j bs"
    "length (put_dinode k d bs) = 512"
proof -
  let ?b = "put32 (64 * k + 8) (dsize d) (put16 (64 * k + 6) (dnlink d) (put16 (64 * k + 4) (dminor d)
    (put16 (64 * k + 2) (dmajor d) (put16 (64 * k) (dtype d) bs))))"
  have p: "put_dinode k d bs = fold (\<lambda>j bs. put32 (64 * k + 12 + 4 * j) (daddrs d ! j) bs) [0..<13] ?b"
    by (simp add: put_dinode_def Let_def)
  have lb: "length ?b = 512" using l by simp
  have F: "length (put_dinode k d bs) = 512" "\<And>j. j < 13 \<Longrightarrow> le32 (put_dinode k d bs) (64 * k + 12 + 4 * j) = daddrs d ! j"
    "\<And>i. i + 4 \<le> 64 * k + 12 \<or> 64 * k + 64 \<le> i \<Longrightarrow> le32 (put_dinode k d bs) i = le32 ?b i"
    "\<And>i. i + 2 \<le> 64 * k + 12 \<or> 64 * k + 64 \<le> i \<Longrightarrow> le16 (put_dinode k d bs) i = le16 ?b i"
    using dinode_fold [OF lb k, where n = 13 and a = "\<lambda>j. daddrs d ! j"] unfolding p by auto
  have "map (\<lambda>j. daddrs d ! j) [0..<13] = daddrs d" using d map_nth [of "daddrs d"] by simp
  moreover have "map (\<lambda>j. le32 (put_dinode k d bs) (64 * k + 12 + 4 * j)) [0..<13] = map (\<lambda>j. daddrs d ! j) [0..<13]"
    using F(2) by (intro map_cong) simp_all
  ultimately have a: "daddrs (get_dinode k (put_dinode k d bs)) = daddrs d" by (simp add: get_dinode_def)
  have "dtype (get_dinode k (put_dinode k d bs)) = dtype d" "dmajor (get_dinode k (put_dinode k d bs)) = dmajor d"
    "dminor (get_dinode k (put_dinode k d bs)) = dminor d" "dnlink (get_dinode k (put_dinode k d bs)) = dnlink d"
    "dsize (get_dinode k (put_dinode k d bs)) = dsize d"
    using F(3,4) l k by (simp_all add: get_dinode_def le_put_other)
  then show "get_dinode k (put_dinode k d bs) = d" using a by (simp add: dinode.equality)
  show "length (put_dinode k d bs) = 512" by (rule F(1))
  show "get_dinode j (put_dinode k d bs) = get_dinode j bs" if "j \<noteq> k" "j < 8" for j
  proof -
    have "64 * j + 64 \<le> 64 * k \<or> 64 * k + 64 \<le> 64 * j" using that(1) by arith
    then show ?thesis unfolding get_dinode_def using F(3,4) l k that
      by (intro dinode.equality) (auto simp: le_put_other)
  qed
qed

definition dinode_of :: "inode \<Rightarrow> dinode" where
  "dinode_of ip = \<lparr>dtype = itype ip, dmajor = imajor ip, dminor = iminor ip, dnlink = inlink ip,
     dsize = isize ip, daddrs = iaddrs ip\<rparr>"

text \<open>The block and the slot of an inode.\<close>

definition iblk :: "'z ist_scheme \<Rightarrow> nat \<Rightarrow> u32" where
  "iblk s i = IBLOCK (inum (icache s ! i)) (sb s)"

definition islot :: "'z ist_scheme \<Rightarrow> nat \<Rightarrow> nat" where
  "islot s i = unat (inum (icache s ! i) mod IPB)"

lemma iupdate_ok:
  fixes s :: "'z ist_scheme"
  assumes r: "tx_room c (Suc n) s" and dev: "idev (icache s ! i) = 1" and x: "data_block s (iblk s i)"
  shows "\<exists>s'. iupdate i s = Inr s' \<and>
    tx_step c 1 ((view s)(iblk s i := put_dinode (islot s i) (dinode_of (icache s ! i)) (view s (iblk s i)))) s s'"
proof (rule update_block [OF r x])
  fix b and t :: "'z ist_scheme"
  assume t: "bread 1 (iblk s i) s = Inr (b, t)" "bdata (bufs t ! b) = view s (iblk s i)" "bframe c s t"
    "\<And>v. \<exists>s'. bnd (log_write b (put_data b v t)) (brelse b) = Inr s' \<and> tx_step c 1 ((view s)(iblk s i := v)) s s'"
  have "icache t = icache s" by (rule bframe_ist(2) [OF t(3)])
  then show ?thesis using t(1,2) t(4) [of "put_dinode (islot s i) (dinode_of (icache s ! i)) (view s (iblk s i))"] dev
    by (simp add: iupdate_def iblk_def islot_def dinode_of_def Let_def)
qed

lemma icache_upd_simps [simp]:
  "view (s\<lparr>icache := v\<rparr>) = view s" "is_dirty (s\<lparr>icache := v\<rparr>) = is_dirty s" "kok c (s\<lparr>icache := v\<rparr>) = kok c s"
  "holds (s\<lparr>icache := v\<rparr>) x b = holds s x b" "only_held c (s\<lparr>icache := v\<rparr>) H = only_held c s H"
  "log_wf (s\<lparr>icache := v\<rparr>) = log_wf s" "linv c (s\<lparr>icache := v\<rparr>) = linv c s"
proof -
  show v: "view (s\<lparr>icache := v\<rparr>) = view s" and d: "is_dirty (s\<lparr>icache := v\<rparr>) = is_dirty s"
    by (auto simp: view_def is_dirty_def cached_def fun_eq_iff split: option.split)
  show "kok c (s\<lparr>icache := v\<rparr>) = kok c s" and h: "only_held c (s\<lparr>icache := v\<rparr>) H = only_held c s H" for H
    by (simp_all add: only_held_unfold)
  show "holds (s\<lparr>icache := v\<rparr>) x b = holds s x b" by (simp add: holds_def cached_def)
  show w: "log_wf (s\<lparr>icache := v\<rparr>) = log_wf s" using v d by (simp add: log_wf_def logged_def)
  show "linv c (s\<lparr>icache := v\<rparr>) = linv c s" using h [of "{}"] w by (simp add: linv_def quiet_only)
qed

lemma seti_nth: "i < length (icache s) \<Longrightarrow> icache (seti i f s) ! i = f (icache s ! i)"
  by (simp add: seti_def)

lemma ilock_loads:
  fixes s :: "'z ist_scheme"
  assumes inv: "linv c s" and i: "i < length (icache s)" and ref: "1 \<le> sint (iref (icache s ! i))"
    and free: "\<not> slocked (ilk (icache s ! i))" and nv: "\<not> ivalid (icache s ! i)"
    and dev: "idev (icache s ! i) = 1" and x: "iblk s i < disksize s"
    and ty: "dtype (get_dinode (islot s i) (view s (iblk s i))) \<noteq> 0"
  shows "\<exists>s'. ilock (Some i) s = Inr s' \<and> dinode_of (icache s' ! i) = get_dinode (islot s i) (view s (iblk s i)) \<and>
    ivalid (icache s' ! i) \<and> slocked (ilk (icache s' ! i)) \<and> linv c s' \<and> view s' = view s"
proof -
  have k: "kok c s" using inv by (auto simp: linv_def quiet_only intro: only_held_kok)
  let ?lk = "(ilk (icache s ! i))\<lparr>slocked := True, spid := pid (procs s ! c)\<rparr>"
  let ?s = "seti i (\<lambda>x. x\<lparr>ilk := ?lk\<rparr>) (s\<lparr>mcpu := settle (mcpu s)\<rparr>)"
  have inv': "linv c ?s" using calm_linv [OF inv calm_settle [OF k]] by (simp add: seti_def)
  have vw: "view ?s = view s" using calm_view(1) [OF calm_settle [OF k]] by (simp add: seti_def)
  have sb: "sb ?s = sb s" "disksize ?s = disksize s" by (simp_all add: seti_def)
  have ic: "icache ?s ! i = (icache s ! i)\<lparr>ilk := ?lk\<rparr>" "length (icache ?s) = length (icache s)" using i by (simp_all add: seti_def)
  show ?thesis
  proof (rule read_block [OF inv'])
    show "iblk s i < disksize ?s" using x sb by simp
    fix b and t :: "'z ist_scheme"
    assume t: "bread 1 (iblk s i) ?s = Inr (b, t)" "bdata (bufs t ! b) = view ?s (iblk s i)" "bframe c ?s t"
      "holds t (iblk s i) b" "only_held c t {b}" "log_wf t" "view t = view ?s" "disk t = disk ?s"
      "bdirty (bufs t ! b) \<or> bdata (bufs t ! b) = disk t (iblk s i)"
    have it: "icache t = icache ?s" by (rule bframe_ist(2) [OF t(3)])
    let ?d = "get_dinode (islot s i) (view s (iblk s i))"
    let ?f = "\<lambda>x. x\<lparr>itype := dtype ?d, imajor := dmajor ?d, iminor := dminor ?d, inlink := dnlink ?d,
      isize := dsize ?d, iaddrs := daddrs ?d\<rparr>"
    obtain u where u: "brelse b (seti i ?f t) = Inr u" "tx_step c 0 (view t) (seti i ?f t) u"
      using release_block [of c "seti i ?f t" b "iblk s i"] t(4-6,9) by (auto simp: seti_def)
    have iu: "icache u = icache (seti i ?f t)" using lframe_ist(2) [OF tx_stepD(4) [OF u(2)]] .
    let ?u = "seti i (\<lambda>x. x\<lparr>ivalid := True\<rparr>) u"
    have last: "icache ?u ! i = (?f ((icache s ! i)\<lparr>ilk := ?lk\<rparr>))\<lparr>ivalid := True\<rparr>"
      using i ic it iu by (simp add: seti_def)
    have "ilock (Some i) s = Inr ?u"
      using ref free nv dev ty last t(1,2) u(1) it ic vw
      by (simp add: ilock_def acquiresleep_free [OF k free] iblk_def islot_def sb(1))
    moreover have "dinode_of (icache ?u ! i) = ?d" "ivalid (icache ?u ! i)" "slocked (ilk (icache ?u ! i))"
      unfolding last by (simp_all add: dinode_of_def)
    moreover have "linv c ?u" "view ?u = view s"
      using tx_stepD(1,2) [OF u(2)] t(7) vw by (simp_all add: seti_def)
    ultimately show ?thesis by blast
  qed
qed

end
