(* ===== verification/FsProps.thy ===== *)
theory FsProps
  imports FsTx BootSys
begin

text \<open>
  The file system's block map, inodes and path names.
\<close>

subsection \<open>A file system in use\<close>

text \<open>
  The state inside an operation on a disk whose first 59 blocks are in use (blocks 0 to 31,
  the inodes and the block map itself), with the inode 5 open in slot 3 of the cache.
\<close>

definition map_block :: block where
  "map_block = replicate 7 255 @ [7] @ replicate 504 0"

definition fs_base :: lst where
  "fs_base = (crashed_lst [(58, map_block)])\<lparr>lg := log0\<lparr>outstanding := 1\<rparr>\<rparr>"

definition fs_ist :: ist where
  "fs_ist = lst.extend fs_base
     \<lparr>icache = (replicate 50 inode0)[3 := inode0\<lparr>idev := 1, inum := 5, iref := 1, ivalid := True, itype := 2,
         inlink := 1, isize := 77, iaddrs := 100 # replicate 12 0\<rparr>,
         4 := inode0\<lparr>idev := 1, inum := 5, iref := 1\<rparr>],
      sb = \<lparr>sb_size = 1000, sb_nblocks = 941, sb_ninodes = 200, sb_nlog = 30, sb_logstart = 2,
            sb_inodestart = 32, sb_bmapstart = 58\<rparr>\<rparr>"

lemma fs_base_linv: "linv 0 fs_base" "disksize fs_base = 1000" "lg fs_base = log0\<lparr>outstanding := 1\<rparr>"
  "view fs_base = fs_disk(58 := map_block)"
proof -
  let ?s = "crashed_lst [(58, map_block)]"
  note C = crashed_cold [of "[(58, map_block)]"]
  have v: "view fs_base = fs_disk(58 := map_block)" "disk fs_base = fs_disk(58 := map_block)"
    using coldD(5) [OF C(1)] C(3) by (simp_all add: fs_base_def put_blocks_def)
  then show "view fs_base = fs_disk(58 := map_block)" by simp
  show l: "lg fs_base = log0\<lparr>outstanding := 1\<rparr>" and d: "disksize fs_base = 1000"
    using C(2) by (simp_all add: fs_base_def)
  have "quiet 0 fs_base" using coldD(1) [OF C(1)] by (simp add: fs_base_def)
  moreover have "\<not> is_dirty fs_base z" for z using coldD(3) [OF C(1)] by (simp add: fs_base_def)
  moreover have "logged fs_base = []" by (simp add: logged_def l log0_def)
  moreover have "le32 zero_block 0 = 0" "length zero_block = 512" by (simp_all add: le32_def zero_block_def)
  ultimately show "linv 0 fs_base" by (simp add: linv_def log_wf_def l d v) (simp add: log0_def fs_disk_def)
qed

lemma fs_ist_tx: "tx_room 0 2 fs_ist" "view fs_ist = fs_disk(58 := map_block)" "disksize fs_ist = 1000"
  "lstart (lg fs_ist) = 2"
proof -
  have f: "mcpu fs_ist = mcpu fs_base" "bufs fs_ist = bufs fs_base" "disk fs_ist = disk fs_base"
    "disksize fs_ist = disksize fs_base" "lg fs_ist = lg fs_base" "procs fs_ist = procs fs_base"
    "queue_head fs_ist = queue_head fs_base" "queue_tail fs_ist = queue_tail fs_base" "queue fs_ist = queue fs_base"
    "pt_lock fs_ist = pt_lock fs_base" "locks fs_ist = locks fs_base"
    by (simp_all add: fs_ist_def lst.defs)
  have v: "view fs_ist = view fs_base" "is_dirty fs_ist = is_dirty fs_base"
    by (auto simp: view_def is_dirty_def cached_def fun_eq_iff f split: option.split)
  have "linv 0 fs_ist = linv 0 fs_base"
    by (simp add: linv_def log_wf_def logged_def v f only_held_unfold)
  then show "tx_room 0 2 fs_ist" using fs_base_linv(1,3) by (simp add: tx_room_def f log0_def)
  show "view fs_ist = fs_disk(58 := map_block)" "disksize fs_ist = 1000" "lstart (lg fs_ist) = 2"
    using v f fs_base_linv by (simp_all add: log0_def)
qed

subsection \<open>Blocks\<close>

text \<open>
  C34: Allocating and freeing blocks.  Inside an operation with room in the log, \<open>balloc\<close> takes the
  free block with the smallest number, marks exactly this block in the block map, and fills it
  with zeros; every other block reads as before, and \<open>bfree\<close> of this block afterwards restores the
  block map as it was.  With no free block \<open>balloc\<close> panics.
\<close>

theorem balloc_bfree:
  fixes s :: "'z ist_scheme"
  assumes r: "tx_room c 3 s" and ok: "map_ok s"
  defines "m \<equiv> sb_bmapstart (sb s)"
  shows "case first_free s of
      None \<Rightarrow> balloc 1 s = panic ''balloc: out of blocks''
    | Some b \<Rightarrow> \<exists>s' s''. balloc 1 s = Inr (of_nat b, s') \<and>
        view s' = (view s)(m := set_map_bit b True (view s m), of_nat b := replicate BSIZE 0) \<and>
        bfree 1 (of_nat b) s' = Inr s'' \<and> view s'' = (view s)(of_nat b := replicate BSIZE 0)"
proof -
  have r2: "tx_room c 2 s" using r by (simp add: tx_room_def)
  note B = balloc_eq [OF r2 ok]
  show ?thesis
  proof (cases "first_free s")
    case (Some b)
    note F = first_freeD [OF Some]
    let ?V = "(view s)(m := set_map_bit b True (view s m), of_nat b := replicate BSIZE 0)"
    obtain s' where s': "balloc 1 s = Inr (of_nat b, s')" "tx_step c 2 ?V s s'" using B Some by (auto simp: m_def)
    have b: "b < 4096" "unat (of_nat b :: u32) = b" using F(1) ok by (simp_all add: map_ok_def unat_of_nat_u32)
    have ne: "of_nat b \<noteq> m" and l: "length (view s m) = 512" using ok F by (simp_all add: map_ok_def m_def)
    have sb: "sb s' = sb s" by (rule lframe_ist(1) [OF tx_stepD(4) [OF s'(2)]])
    have v: "view s' = ?V" by (rule tx_stepD(2) [OF s'(2)])
    have vm: "view s' m = set_map_bit b True (view s m)" using ne by (simp add: v)
    have "tx_room c 1 s'" using tx_step_room [of c 2 1 s] r s'(2) by simp
    moreover have "data_block s' (sb_bmapstart (sb s'))" using ok tx_stepD(6) [OF s'(2)] by (simp add: map_ok_def sb)
    moreover have "map_bit (view s' m) b" using b(1) l by (simp add: vm map_bit_set)
    ultimately obtain s'' where s'': "bfree 1 (of_nat b) s' = Inr s''"
      "tx_step c 1 ((view s')(m := set_map_bit b False (view s' m))) s' s''"
      using bfree_eq [of c s' "of_nat b"] b by (auto simp: sb m_def)
    have "set_map_bit b False (view s' m) = view s m" unfolding vm
      using b(1) l F(2) by (intro set_map_bit_undo) (simp_all add: m_def)
    then have "view s'' = (view s)(of_nat b := replicate BSIZE 0)" using tx_stepD(2) [OF s''(2)] ne by (auto simp: v)
    then show ?thesis using Some s'(1) v s''(1) by auto
  qed (use B in \<open>simp add: m_def\<close>)
qed

theorem balloc_bfree_witness: "\<exists>s'. balloc 1 fs_ist = Inr (59, s') \<and> view s' 59 = replicate 512 0"
proof -
  have sb: "sb fs_ist = \<lparr>sb_size = 1000, sb_nblocks = 941, sb_ninodes = 200, sb_nlog = 30, sb_logstart = 2,
      sb_inodestart = 32, sb_bmapstart = 58\<rparr>" by (simp add: fs_ist_def lst.defs)
  have r: "tx_room 0 3 fs_ist" using fs_ist_tx(1) by (simp add: tx_room_def fs_ist_def lst.defs fs_base_linv(3) log0_def)
  have used: "map_bit map_block b" if "b < 59" for b
  proof -
    have "\<forall>b\<in>set [0..<59]. map_bit map_block b" by code_simp
    then show ?thesis using that by simp
  qed
  have free: "\<not> map_bit map_block 59" by code_simp
  have "first_free fs_ist = first_idx (\<lambda>b. \<not> map_bit map_block b) [0..<1000]"
    by (simp add: first_free_def sb fs_ist_tx(2))
  also have "\<dots> = Some 59"
    using used free by (simp add: first_idx_Some_iff)
  finally have f: "first_free fs_ist = Some 59" .
  have "data_block fs_ist (of_nat b) \<and> (of_nat b :: u32) \<noteq> 58" if "b < 1000" "\<not> map_bit map_block b" for b
  proof -
    have b: "59 \<le> b" using used [of b] that(2) by (meson not_le)
    have u: "unat (of_nat b :: u32) = b" using that(1) by (simp add: unat_of_nat_u32)
    have "\<not> in_log 2 (of_nat b)" "(of_nat b :: u32) < 1000" using b that(1) u
      by (simp_all add: in_log_def word_less_nat_alt word_le_nat_alt)
    moreover have "(of_nat b :: u32) \<noteq> 58" using b u by (auto simp: word_unat_eq_iff)
    ultimately show ?thesis by (simp add: data_block_def fs_ist_tx)
  qed
  moreover have "data_block fs_ist 58" by (simp add: data_block_def fs_ist_tx in_log_def)
  ultimately have "map_ok fs_ist" by (simp add: map_ok_def sb fs_ist_tx(2)) (simp add: map_block_def)
  from balloc_bfree [OF r this] show ?thesis by (auto simp: f sb)
qed

subsection \<open>Inodes\<close>

text \<open>
  C35: Inodes survive.  \<open>iupdate\<close> writes the inode in memory to its slot on the disk and leaves the
  seven other slots of the block and all other blocks alone; whatever cache entry is later filled
  for this inode number, \<open>ilock\<close> on it gives back the same type, device numbers, link count, size
  and block addresses.
\<close>

theorem inode_roundtrip:
  fixes s :: "'z ist_scheme"
  assumes r: "tx_room c 1 s" and i: "idev (icache s ! i) = 1" "length (iaddrs (icache s ! i)) = 13" "itype (icache s ! i) \<noteq> 0"
    and x: "data_block s (iblk s i)" "length (view s (iblk s i)) = BSIZE"
  shows "\<exists>s'. iupdate i s = Inr s' \<and> (\<forall>y. y \<noteq> iblk s i \<longrightarrow> view s' y = view s y) \<and>
    (\<forall>j<8. j \<noteq> islot s i \<longrightarrow> get_dinode j (view s' (iblk s i)) = get_dinode j (view s (iblk s i))) \<and>
    (\<forall>k ip. k < length (icache s') \<and> ip = icache s' ! k \<and> idev ip = 1 \<and> inum ip = inum (icache s ! i) \<and>
        1 \<le> sint (iref ip) \<and> \<not> slocked (ilk ip) \<and> \<not> ivalid ip \<longrightarrow>
        (\<exists>t. ilock (Some k) s' = Inr t \<and> dinode_of (icache t ! k) = dinode_of (icache s ! i)))"
proof -
  have r1: "tx_room c (Suc 0) s" using r by simp
  let ?x = "iblk s i" and ?d = "dinode_of (icache s ! i)"
  obtain s' where s': "iupdate i s = Inr s'" "tx_step c 1 ((view s)(?x := put_dinode (islot s i) ?d (view s ?x))) s s'"
    using iupdate_ok [OF r1 i(1) x(1)] by blast
  have sl: "islot s i < 8" by (simp add: islot_def unat_mod)
  have l: "length (view s ?x) = 512" "length (daddrs ?d) = 13" using x(2) i(2) by (simp_all add: dinode_of_def)
  note P = get_put_dinode [OF l(1) sl l(2)]
  have fr: "sb s' = sb s" "disksize s' = disksize s" using lframe_ist(1) [OF tx_stepD(4) [OF s'(2)]] tx_stepD(5) [OF s'(2)] by simp_all
  have v: "view s' = (view s)(?x := put_dinode (islot s i) ?d (view s ?x))" by (rule tx_stepD(2) [OF s'(2)])
  have "\<exists>t. ilock (Some k) s' = Inr t \<and> dinode_of (icache t ! k) = ?d"
    if k: "k < length (icache s')" "ip = icache s' ! k" "idev ip = 1" "inum ip = inum (icache s ! i)"
      "1 \<le> sint (iref ip)" "\<not> slocked (ilk ip)" "\<not> ivalid ip" for k ip
  proof -
    have e: "iblk s' k = ?x" "islot s' k = islot s i" using k(2,4) fr by (simp_all add: iblk_def islot_def)
    have d: "get_dinode (islot s' k) (view s' (iblk s' k)) = ?d" using P(1) by (simp add: e v)
    show ?thesis
      using ilock_loads [OF tx_stepD(1) [OF s'(2)] k(1)] k x(1) d i(3) fr(2)
      by (auto simp: e data_block_def dinode_of_def)
  qed
  then show ?thesis using s'(1) v P(2) by (intro exI [of _ s']) auto
qed

theorem inode_roundtrip_witness:
  "\<exists>s' t. iupdate 3 fs_ist = Inr s' \<and> ilock (Some 4) s' = Inr t \<and> isize (icache t ! 4) = 77"
proof -
  have ic: "icache fs_ist ! 3 = inode0\<lparr>idev := 1, inum := 5, iref := 1, ivalid := True, itype := 2,
         inlink := 1, isize := 77, iaddrs := 100 # replicate 12 0\<rparr>"
    "icache fs_ist ! 4 = inode0\<lparr>idev := 1, inum := 5, iref := 1\<rparr>" "length (icache fs_ist) = 50"
    by (simp_all add: fs_ist_def lst.defs)
  have x: "iblk fs_ist 3 = 32" by (simp add: iblk_def ic(1) IBLOCK_def fs_ist_def lst.defs)
  have r: "tx_room 0 1 fs_ist" using fs_ist_tx(1) by (simp add: tx_room_def)
  have "data_block fs_ist 32" by (simp add: data_block_def fs_ist_tx in_log_def)
  moreover have "length (view fs_ist 32) = 512" by (simp add: fs_ist_tx fs_disk_def zero_block_def)
  ultimately obtain s' where s': "iupdate 3 fs_ist = Inr s'"
    "\<forall>k ip. k < length (icache s') \<and> ip = icache s' ! k \<and> idev ip = 1 \<and> inum ip = inum (icache fs_ist ! 3) \<and>
        1 \<le> sint (iref ip) \<and> \<not> slocked (ilk ip) \<and> \<not> ivalid ip \<longrightarrow>
        (\<exists>t. ilock (Some k) s' = Inr t \<and> dinode_of (icache t ! k) = dinode_of (icache fs_ist ! 3))"
    using inode_roundtrip [OF r, of 3] by (auto simp: ic(1) x)
  have "tx_room 0 (Suc 0) fs_ist" using r by simp
  then obtain u where "iupdate 3 fs_ist = Inr u" "lframe 0 fs_ist u"
    using iupdate_ok [of 0 0 fs_ist 3] ic(1) x \<open>data_block fs_ist 32\<close> by (auto dest: tx_stepD(4))
  then have "icache s' = icache fs_ist" using s'(1) lframe_ist(2) by auto
  then obtain t where "ilock (Some 4) s' = Inr t" "dinode_of (icache t ! 4) = dinode_of (icache fs_ist ! 3)"
    using s'(2) [rule_format, of 4 "icache s' ! 4"] ic by (auto simp: inode0_def initsleeplock_def)
  then show ?thesis using s'(1) by (auto simp: ic(1) dinode_of_def)
qed

subsection \<open>Paths\<close>

text \<open>The elements of a path: the non-empty pieces between slashes.\<close>

fun pieces :: "'a \<Rightarrow> 'a list \<Rightarrow> 'a list list" where
  "pieces c [] = [[]]"
| "pieces c (x # xs) = (if x = c then [] # pieces c xs else (x # hd (pieces c xs)) # tl (pieces c xs))"

definition elements :: "u8 list \<Rightarrow> u8 list list" where
  "elements path = filter (\<lambda>e. e \<noteq> []) (pieces 47 (cstr path))"

lemma pieces_ne [simp]: "pieces c xs \<noteq> []"
  by (cases xs) auto

lemma pieces_append: "c \<notin> set e \<Longrightarrow> pieces c (e @ r) = (e @ hd (pieces c r)) # tl (pieces c r)"
  by (induction e) auto

lemma elements_slashes: "elements (dropWhile (\<lambda>c. c = 47) p) = elements p"
  by (induction p) (auto simp: elements_def cstr_def)

lemma elements_nil: "chr p = 0 \<Longrightarrow> elements p = []"
  by (cases p) (auto simp: elements_def cstr_def chr_def)

lemma elements_step:
  assumes "chr p \<noteq> 0" "chr p \<noteq> 47"
  defines "e \<equiv> takeWhile (\<lambda>c. c \<noteq> 47 \<and> c \<noteq> 0) p"
  shows "elements p = e # elements (drop (length e) p)" "e \<noteq> []"
proof -
  show ne: "e \<noteq> []" using assms by (cases p) (auto simp: chr_def)
  have e: "set e \<inter> {0, 47} = {}" unfolding e_def by (auto dest: set_takeWhileD)
  have d: "drop (length e) p = dropWhile (\<lambda>c. c \<noteq> 47 \<and> c \<noteq> 0) p" by (simp add: e_def dropWhile_eq_drop)
  define r where "r = drop (length e) p"
  have p: "p = e @ r" unfolding r_def d unfolding e_def by simp
  have "r = [] \<or> hd r \<in> {0, 47}" unfolding r_def d by (induction p) auto
  then have h: "hd (pieces 47 (cstr r)) = []" by (cases r) (auto simp: cstr_def)
  obtain u v where uv: "pieces 47 (cstr r) = u # v" by (cases "pieces 47 (cstr r)") auto
  have "cstr p = e @ cstr r" using e unfolding p cstr_def by (subst takeWhile_append2) auto
  moreover have "47 \<notin> set e" using e by auto
  ultimately have "pieces 47 (cstr p) = e # v" using h by (simp add: pieces_append uv)
  then show "elements p = e # elements (drop (length e) p)"
    using ne h by (simp add: elements_def r_def [symmetric] uv)
qed

text \<open>
  C36: Splitting paths.  \<open>skipelem\<close> returns null exactly when the path has no element.  Otherwise
  the buffer holds the first element as a string of at most \<open>DIRSIZ\<close> bytes, cut off there when it
  is longer, and the returned path has the remaining elements and starts with no slash, so that
  it is empty exactly when the element was the last one.
\<close>

theorem skipelem_elements:
  assumes "length name = DIRSIZ"
  shows "case skipelem path name of None \<Rightarrow> elements path = []
    | Some (path', name') \<Rightarrow> length name' = DIRSIZ \<and>
        elements path \<noteq> [] \<and> cstr name' = take DIRSIZ (hd (elements path)) \<and>
        elements path' = tl (elements path) \<and> (chr path' = 0 \<longleftrightarrow> tl (elements path) = [])"
proof -
  define p where "p = dropWhile (\<lambda>c. c = 47) path"
  have E: "elements path = elements p" by (simp add: p_def elements_slashes)
  show ?thesis
  proof (cases "chr p = 0")
    case True
    then show ?thesis by (simp add: E elements_nil skipelem_def p_def [symmetric])
  next
    case False
    have h: "chr q \<noteq> 47" if "q = dropWhile (\<lambda>c. c = 47) q'" for q q'
      unfolding that by (induction q') (auto simp: chr_def)
    define e where "e = takeWhile (\<lambda>c. c \<noteq> 47 \<and> c \<noteq> 0) p"
    define r where "r = dropWhile (\<lambda>c. c = 47) (drop (length e) p)"
    have S: "elements p = e # elements r" "e \<noteq> []"
      using elements_step [OF False h [OF p_def]] unfolding e_def r_def by (simp_all add: elements_slashes)
    have r: "chr r = 0 \<longleftrightarrow> elements r = []"
      using elements_step(1) [OF _ h [OF r_def]] elements_nil by fastforce
    have e0: "0 \<notin> set e" unfolding e_def by (auto dest: set_takeWhileD)
    then have c: "cstr (e @ 0 # z) = e" for z unfolding cstr_def by (subst takeWhile_append2) auto
    have c': "cstr (take DIRSIZ e) = take DIRSIZ e" using e0 by (auto simp: cstr_def dest: in_set_takeD)
    have "skipelem path name = Some (r, if DIRSIZ \<le> length e then take DIRSIZ e else splice 0 (e @ [0]) name)"
      using False by (simp add: skipelem_def Let_def p_def [symmetric] e_def [symmetric] r_def [symmetric])
    then show ?thesis using assms S(1) r c c' by (simp add: E splice_def)
  qed
qed

theorem skipelem_elements_witness:
  "elements [47, 47, 97, 47, 47, 98, 98, 0] = [[97], [98, 98]]
   \<and> fst (the (skipelem [47, 47, 97, 47, 47, 98, 98, 0] (replicate 14 0))) = [98, 98, 0]
   \<and> elements [98, 98, 0] = [[98, 98]]"
  using skipelem_elements [of "replicate 14 0" "[47, 47, 97, 47, 47, 98, 98, 0]"]
  by (simp add: skipelem_def elements_def cstr_def chr_def)

end
