(* ===== verification/Shell.thy ===== *)
theory Shell
  imports UserLib Sysfile
begin

text \<open>
  The command parser of the shell (\<^verbatim>\<open>sh.c\<close>).

  A pointer into the line is the rest of the line from there, so that a pointer at the end is
  the empty list, where \<open>chr\<close> reads the zero.  A word is a pair of pointers, to its first byte
  and behind its last one.  The nodes of a parsed command form a tree; \<open>panic\<close> prints its
  message and ends the shell's child process.
\<close>

subsection \<open>Commands\<close>

definition MAXARGS :: nat where
  "MAXARGS = 10"

datatype (words: 'w) cmd =
  EXEC "'w list"
| REDIR "'w cmd" 'w i32 i32
| PIPE "'w cmd" "'w cmd"
| LIST "'w cmd" "'w cmd"
| BACK "'w cmd"

type_synonym word_ptrs = "u8 list \<times> u8 list"

subsection \<open>Tokens\<close>

definition whitespace :: "u8 list" where
  "whitespace = [32, 9, 13, 10, 11]"

text \<open>The bytes of the symbols \<open>< | > & ; ( )\<close>.\<close>

definition symbols :: "u8 list" where
  "symbols = [60, 124, 62, 38, 59, 40, 41]"

definition is_ws :: "u8 \<Rightarrow> bool" where
  "is_ws c \<longleftrightarrow> strchr whitespace c \<noteq> None"

definition is_sym :: "u8 \<Rightarrow> bool" where
  "is_sym c \<longleftrightarrow> strchr symbols c \<noteq> None"

definition skip_ws :: "u8 list \<Rightarrow> u8 list" where
  "skip_ws s = dropWhile is_ws s"

text \<open>
  \<open>gettoken\<close>: the token, the pointers to its first byte and behind its last one, and the rest
  of the line.  A word gives the letter \<open>a\<close> (97), and \<open>>>\<close> a plus sign (43).
\<close>

definition gettoken :: "u8 list \<Rightarrow> u8 \<times> u8 list \<times> u8 list \<times> u8 list" where
  "gettoken s =
     (let q = skip_ws s;
          (ret, eq) =
            (if chr q = 0 then (0, q)
             else if chr q \<in> {124, 40, 41, 59, 38, 60} then (chr q, tl q)
             else if chr q = 62 then if chr (tl q) = 62 then (43, tl (tl q)) else (62, tl q)
             else (97, dropWhile (\<lambda>c. \<not> is_ws c \<and> \<not> is_sym c) q))
      in (ret, q, eq, skip_ws eq))"

definition skip_token :: "u8 list \<Rightarrow> u8 list" where
  "skip_token s = (case gettoken s of (_, _, _, s) \<Rightarrow> s)"

definition peek :: "u8 list \<Rightarrow> u8 list \<Rightarrow> bool \<times> u8 list" where
  "peek s toks = (let s = skip_ws s in (chr s \<noteq> 0 \<and> strchr toks (chr s) \<noteq> None, s))"

text \<open>
  The bytes that may be part of a word, and what can follow a word.
\<close>

definition word_char :: "u8 \<Rightarrow> bool" where
  "word_char c \<longleftrightarrow> c \<noteq> 0 \<and> \<not> is_ws c \<and> \<not> is_sym c"

lemma is_ws_iff: "is_ws c \<longleftrightarrow> c \<in> {32, 9, 13, 10, 11}"
  by (simp add: is_ws_def whitespace_def)

lemma is_sym_iff: "is_sym c \<longleftrightarrow> c \<in> {60, 124, 62, 38, 59, 40, 41}"
  by (simp add: is_sym_def symbols_def)

lemma chr_simps [simp]: "chr (c # s) = c" "chr [] = 0"
  by (simp_all add: chr_def)

lemma skip_ws_Cons: "skip_ws (c # s) = (if is_ws c then skip_ws s else c # s)"
  by (simp add: skip_ws_def)

lemma skip_ws_Nil [simp]: "skip_ws [] = []"
  by (simp add: skip_ws_def)

lemma skip_ws_idem [simp]: "skip_ws (skip_ws s) = skip_ws s"
  by (simp add: skip_ws_def)

lemma skip_ws_le: "length (skip_ws s) \<le> length s"
  by (simp add: skip_ws_def length_dropWhile_le)

lemma skip_ws_hd: "skip_ws s = c # r \<Longrightarrow> \<not> is_ws c"
  unfolding skip_ws_def by (metis dropWhile_eq_Cons_conv)

lemma gettoken_skip [simp]: "gettoken (skip_ws s) = gettoken s"
  by (simp add: gettoken_def)

lemma peek_skip [simp]: "peek (skip_ws s) ts = peek s ts"
  by (simp add: peek_def)

text \<open>The end of the line, a symbol, or a word.\<close>

lemma gettoken_cases:
  assumes "0 \<notin> set s"
  obtains (none) "skip_ws s = []" "gettoken s = (0, [], [], [])"
  | (sym) c r where "skip_ws s = c # r" "c \<in> {124, 40, 41, 59, 38, 60}" "gettoken s = (c, c # r, r, skip_ws r)"
  | (app) r where "skip_ws s = 62 # 62 # r" "gettoken s = (43, 62 # 62 # r, r, skip_ws r)"
  | (out) r where "skip_ws s = 62 # r" "gettoken s = (62, 62 # r, r, skip_ws r)"
  | (word) w r where "skip_ws s = w @ r" "w \<noteq> []" "\<forall>c\<in>set w. word_char c" "r = [] \<or> \<not> word_char (hd r)"
      "gettoken s = (97, w @ r, r, skip_ws r)"
proof (cases "skip_ws s")
  case Nil
  then show thesis by (intro none) (simp_all add: gettoken_def)
next
  case (Cons c r)
  have z: "0 \<notin> set (c # r)" using assms Cons unfolding skip_ws_def by (metis set_dropWhileD)
  consider "c \<in> {124, 40, 41, 59, 38, 60}" | "c = 62" | "c \<notin> {124, 40, 41, 59, 38, 60}" "c \<noteq> 62" by blast
  then show thesis
  proof cases
    case 1
    then show thesis using Cons z by (intro sym [of c r]) (auto simp: gettoken_def)
  next
    case 2
    then show thesis using Cons app out by (cases "chr r = 62"; cases r) (auto simp: gettoken_def)
  next
    case 3
    let ?P = "\<lambda>c. \<not> is_ws c \<and> \<not> is_sym c"
    let ?w = "takeWhile ?P (c # r)" and ?r = "dropWhile ?P (c # r)"
    have "?P c" using 3 skip_ws_hd [OF Cons] by (auto simp: is_sym_iff)
    moreover have "gettoken s = (97, c # r, ?r, skip_ws ?r)" using 3 Cons z by (auto simp: gettoken_def Let_def)
    moreover have "\<forall>c\<in>set ?w. word_char c" using z by (metis set_takeWhileD word_char_def)
    moreover have "?r = [] \<or> \<not> word_char (hd ?r)"
      by (metis (mono_tags, lifting) dropWhile_eq_Nil_conv hd_dropWhile word_char_def)
    ultimately show thesis using Cons by (intro word [of ?w ?r]) (simp_all del: takeWhile.simps dropWhile.simps, simp)
  qed
qed

lemma gettoken_le:
  assumes "gettoken s = (t, q, eq, s')"
  shows "length s' \<le> length s" "t \<noteq> 0 \<Longrightarrow> length s' < length s"
proof -
  let ?q = "skip_ws s"
  have s': "s' = skip_ws eq" and e: "length eq \<le> length ?q"
    using assms by (auto simp: gettoken_def Let_def length_dropWhile_le le_diff_conv split: if_splits)
  then show "length s' \<le> length s" using skip_ws_le [of s] skip_ws_le [of eq] by simp
  have "length eq < length ?q" if t: "t \<noteq> 0"
  proof (cases ?q)
    case Nil
    then show ?thesis using t assms by (simp add: gettoken_def)
  next
    case (Cons c r)
    have w: "\<not> is_ws c" by (rule skip_ws_hd [OF Cons])
    have "length eq \<le> length r" using assms t Cons w
      by (auto simp: gettoken_def Let_def is_sym_iff length_dropWhile_le split: if_splits)
    then show ?thesis using Cons by simp
  qed
  then show "length s' < length s" if "t \<noteq> 0" using that skip_ws_le [of s] skip_ws_le [of eq] s' by simp
qed

lemma skip_token_less: "(True, s') = peek s ts \<Longrightarrow> length (skip_token s') < length s"
proof -
  assume a: "(True, s') = peek s ts"
  obtain t q eq r where g: "gettoken s' = (t, q, eq, r)" by (metis prod_cases4)
  have "s' = skip_ws s" "chr (skip_ws s) \<noteq> 0" using a by (auto simp: peek_def Let_def)
  then have "t \<noteq> 0" using g by (auto simp: gettoken_def Let_def split: if_splits)
  then show ?thesis using gettoken_le(2) [OF g] skip_ws_le [of s] g \<open>s' = skip_ws s\<close>
    by (simp add: skip_token_def)
qed

lemma redir_shorter:
  assumes "(again, s1) = peek s ts" "(t, q, eq, s2) = gettoken s1" "(97, q', eq', s3) = gettoken s2"
  shows "length s3 < length s"
proof -
  have "s1 = skip_ws s" using assms(1) by (simp add: peek_def Let_def)
  then show ?thesis
    using gettoken_le(1) [OF assms(2) [symmetric]] gettoken_le(2) [OF assms(3) [symmetric]] skip_ws_le [of s] by simp
qed

subsection \<open>Parsing\<close>

definition redircmd :: "u8 \<Rightarrow> word_ptrs \<Rightarrow> word_ptrs cmd \<Rightarrow> word_ptrs cmd" where
  "redircmd tok f c =
     (if tok = 60 then REDIR c f O_RDONLY 0
      else if tok = 62 then REDIR c f (O_WRONLY OR O_CREATE) 1
      else if tok = 43 then REDIR c f (O_WRONLY OR O_CREATE) 1
      else c)"

function parseredirs :: "word_ptrs cmd \<Rightarrow> u8 list \<Rightarrow> (word_ptrs cmd \<times> u8 list) res" where
  "parseredirs cmd s =
     (let (again, s) = peek s [60, 62]
      in if again
         then let (tok, _, _, s) = gettoken s;
                  (tok', q, eq, s) = gettoken s
              in if tok' \<noteq> 97 then panic ''missing file for redirection''
                 else parseredirs (redircmd tok (q, eq) cmd) s
         else Inr (cmd, s))"
  by pat_completeness auto
termination
  by (relation "measure (\<lambda>(c, s). length s)") (auto dest: redir_shorter)

declare parseredirs.simps [simp del]

text \<open>The loop of \<open>parseline\<close> over the ampersands.\<close>

function back_loop :: "word_ptrs cmd \<Rightarrow> u8 list \<Rightarrow> word_ptrs cmd \<times> u8 list" where
  "back_loop cmd s =
     (let (again, s) = peek s [38] in if again then back_loop (BACK cmd) (skip_token s) else (cmd, s))"
  by pat_completeness auto
termination
  by (relation "measure (\<lambda>(c, s). length s)") (auto simp: skip_token_less)

declare back_loop.simps [simp del]

text \<open>
  The node that \<open>parseexec\<close> extends is the one at the bottom of the redirections around it.
\<close>

fun add_arg :: "'w \<Rightarrow> 'w cmd \<Rightarrow> 'w cmd" where
  "add_arg a (EXEC args) = EXEC (args @ [a])"
| "add_arg a (REDIR c f m fd) = REDIR (add_arg a c) f m fd"
| "add_arg a c = c"

function args_loop :: "nat \<Rightarrow> word_ptrs cmd \<Rightarrow> u8 list \<Rightarrow> (word_ptrs cmd \<times> u8 list) res" where
  "args_loop argc ret s =
     (let (stop, s) = peek s [124, 41, 38, 59]
      in if stop then Inr (ret, s)
         else let (tok, q, eq, s) = gettoken s
              in if tok = 0 then Inr (ret, s)
                 else if tok \<noteq> 97 then panic ''syntax''
                 else let ret = add_arg (q, eq) ret
                      in if argc + 1 \<ge> MAXARGS then panic ''too many args''
                         else bnd (parseredirs ret s) (\<lambda>(ret, s). args_loop (argc + 1) ret s))"
  by pat_completeness auto
termination
  by (relation "measure (\<lambda>(argc, c, s). MAXARGS - argc)") auto

declare args_loop.simps [simp del]

text \<open>
  The parsers below call \<open>parseline\<close> again for what stands in parentheses; it is their argument
  \<open>line\<close>.  The recursion of \<open>parsepipe\<close> and of \<open>parseline\<close> is cut off after \<open>n\<close> levels, with
  the result \<open>Spin\<close>; each level takes a symbol from the line, so that \<open>parsecmd\<close> allows more
  levels than can occur.
\<close>

definition parseblock ::
  "(u8 list \<Rightarrow> (word_ptrs cmd \<times> u8 list) res) \<Rightarrow> u8 list \<Rightarrow> (word_ptrs cmd \<times> u8 list) res" where
  "parseblock line s =
     (let (open, s) = peek s [40]
      in if \<not> open then panic ''parseblock''
         else bnd (line (skip_token s)) (\<lambda>(cmd, s).
              let (close, s) = peek s [41]
              in if \<not> close then panic ''syntax - missing )'' else parseredirs cmd (skip_token s)))"

definition parseexec ::
  "(u8 list \<Rightarrow> (word_ptrs cmd \<times> u8 list) res) \<Rightarrow> u8 list \<Rightarrow> (word_ptrs cmd \<times> u8 list) res" where
  "parseexec line s =
     (let (open, s) = peek s [40]
      in if open then parseblock line s
         else bnd (parseredirs (EXEC []) s) (\<lambda>(ret, s). args_loop 0 ret s))"

fun parsepipe ::
  "(u8 list \<Rightarrow> (word_ptrs cmd \<times> u8 list) res) \<Rightarrow> nat \<Rightarrow> u8 list \<Rightarrow> (word_ptrs cmd \<times> u8 list) res" where
  "parsepipe line 0 s = Inl Spin"
| "parsepipe line (Suc n) s =
     bnd (parseexec line s) (\<lambda>(cmd, s).
       let (bar, s) = peek s [124]
       in if bar then bnd (parsepipe line n (skip_token s)) (\<lambda>(right, s). Inr (PIPE cmd right, s))
          else Inr (cmd, s))"

fun parseline :: "nat \<Rightarrow> u8 list \<Rightarrow> (word_ptrs cmd \<times> u8 list) res" where
  "parseline 0 s = Inl Spin"
| "parseline (Suc n) s =
     bnd (parsepipe (parseline n) (Suc n) s) (\<lambda>(cmd, s).
       let (cmd, s) = back_loop cmd s;
           (semi, s) = peek s [59]
       in if semi then bnd (parseline n (skip_token s)) (\<lambda>(right, s). Inr (LIST cmd right, s))
          else Inr (cmd, s))"

text \<open>
  \<open>nulterminate\<close> on the buffer of the line; \<open>n\<close> is the length of the line, from which the place
  of a pointer follows.
\<close>

definition cut :: "nat \<Rightarrow> u8 list \<Rightarrow> word_ptrs \<Rightarrow> u8 list" where
  "cut n b w = b[n - length (snd w) := 0]"

fun nulterminate :: "nat \<Rightarrow> word_ptrs cmd \<Rightarrow> u8 list \<Rightarrow> u8 list" where
  "nulterminate n (EXEC args) b = foldl (cut n) b args"
| "nulterminate n (REDIR c f m fd) b = cut n (nulterminate n c b) f"
| "nulterminate n (PIPE l r) b = nulterminate n r (nulterminate n l b)"
| "nulterminate n (LIST l r) b = nulterminate n r (nulterminate n l b)"
| "nulterminate n (BACK c) b = nulterminate n c b"

definition parsecmd :: "u8 list \<Rightarrow> (word_ptrs cmd \<times> u8 list) res" where
  "parsecmd b =
     (let s = cstr b
      in bnd (parseline (Suc (length s)) s) (\<lambda>(cmd, s').
           let (_, s') = peek s' []
           in if s' \<noteq> [] then panic ''syntax'' else Inr (cmd, nulterminate (length s) cmd b)))"

text \<open>The string that a pointer into the terminated buffer points to.\<close>

definition string_at :: "nat \<Rightarrow> u8 list \<Rightarrow> word_ptrs \<Rightarrow> u8 list" where
  "string_at n b w = cstr (drop (n - length (fst w)) b)"

end
