(* ===== verification/ShellProps.thy ===== *)
theory ShellProps
  imports Shell "HOL-Library.Sublist"
begin

text \<open>
  What the shell's parser returns: on every line it ends, and its result is a well-formed
  command whose words are words of the line; every well-formed command is the result for the
  line that prints it.
\<close>

subsection \<open>Well-formed commands\<close>

definition is_word :: "u8 list \<Rightarrow> bool" where
  "is_word w \<longleftrightarrow> w \<noteq> [] \<and> (\<forall>c\<in>set w. word_char c)"

primrec shape :: "'w cmd \<Rightarrow> bool" where
  "shape (EXEC args) \<longleftrightarrow> length args < MAXARGS"
| "shape (REDIR c f m fd) \<longleftrightarrow> shape c \<and> (m = O_RDONLY \<and> fd = 0 \<or> m = O_WRONLY OR O_CREATE \<and> fd = 1)"
| "shape (PIPE l r) \<longleftrightarrow> shape l \<and> shape r"
| "shape (LIST l r) \<longleftrightarrow> shape l \<and> shape r"
| "shape (BACK c) \<longleftrightarrow> shape c"

definition cmd_ok :: "u8 list cmd \<Rightarrow> bool" where
  "cmd_ok c \<longleftrightarrow> shape c \<and> (\<forall>w\<in>words c. is_word w)"

lemma shape_map [simp]: "shape (map_cmd f c) = shape c"
  by (induction c) auto

text \<open>A pair of pointers into the line \<open>l\<close> that delimits a whole word.\<close>

definition delimits :: "u8 list \<Rightarrow> word_ptrs \<Rightarrow> bool" where
  "delimits l p \<longleftrightarrow> suffix (fst p) l \<and>
     (\<exists>w. fst p = w @ snd p \<and> is_word w \<and> (snd p = [] \<or> \<not> word_char (hd (snd p))))"

definition between :: "word_ptrs \<Rightarrow> u8 list" where
  "between p = take (length (fst p) - length (snd p)) (fst p)"

definition parsed :: "u8 list \<Rightarrow> word_ptrs cmd \<Rightarrow> bool" where
  "parsed l c \<longleftrightarrow> shape c \<and> (\<forall>p\<in>words c. delimits l p)"

text \<open>A parser's result on a rest \<open>s\<close> of the line \<open>l\<close>: it ends, in an error or as it should.\<close>

definition fine :: "u8 list \<Rightarrow> u8 list \<Rightarrow> (word_ptrs cmd \<times> u8 list) res \<Rightarrow> bool" where
  "fine l s r \<longleftrightarrow> (case r of Inl e \<Rightarrow> e \<noteq> Spin | Inr (c, s') \<Rightarrow> parsed l c \<and> suffix s' s)"

lemma fine_simps [simp]:
  "fine l s (panic m)" "fine l s (Inr (c, s')) \<longleftrightarrow> parsed l c \<and> suffix s' s"
  by (simp_all add: fine_def panic_def)

lemma fine_weaken: "fine l s' r \<Longrightarrow> suffix s' s \<Longrightarrow> fine l s r"
  by (auto simp: fine_def split: sum.splits intro: suffix_order.trans)

lemma fine_bnd:
  assumes "fine l s r" and "\<And>c s'. r = Inr (c, s') \<Longrightarrow> parsed l c \<Longrightarrow> suffix s' s \<Longrightarrow> fine l s (k (c, s'))"
  shows "fine l s (bnd r k)"
  using assms by (cases r) (auto simp: fine_def)

lemma suffix_skip_ws: "suffix (skip_ws s) s"
  by (simp add: skip_ws_def suffix_dropWhile)

lemma peek_eq: "peek s ts = (chr (skip_ws s) \<noteq> 0 \<and> strchr ts (chr (skip_ws s)) \<noteq> None, skip_ws s)"
  by (simp add: peek_def Let_def)

lemma gettoken_suffix:
  assumes "0 \<notin> set s" and g: "gettoken s = (t, q, eq, s')"
  shows "suffix s' s" "t = 97 \<Longrightarrow> suffix s l \<Longrightarrow> delimits l (q, eq)"
proof -
  have i: "suffix (skip_ws s) s" by (rule suffix_skip_ws)
  have *: "suffix s' s \<and> (t = 97 \<longrightarrow> suffix s l \<longrightarrow> delimits l (q, eq))" using assms(1)
  proof (cases rule: gettoken_cases)
    case none
    then show ?thesis using g by auto
  next
    case (sym c r)
    then have "s' = skip_ws r" "t \<noteq> 97" using g by auto
    then show ?thesis using i sym(1) suffix_skip_ws [of r] by (auto intro: suffix_order.trans suffix_ConsI)
  next
    case (app r)
    then have "s' = skip_ws r" "t \<noteq> 97" using g by auto
    then show ?thesis using i app(1) suffix_skip_ws [of r] by (auto intro: suffix_order.trans suffix_ConsI)
  next
    case (out r)
    then have "s' = skip_ws r" "t \<noteq> 97" using g by auto
    then show ?thesis using i out(1) suffix_skip_ws [of r] by (auto intro: suffix_order.trans suffix_ConsI)
  next
    case (word w r)
    then have e: "s' = skip_ws r" "q = w @ r" "eq = r" using g by auto
    have "suffix r s" using i word(1) by (metis suffix_def suffix_order.trans)
    then have "suffix s' s" using suffix_skip_ws [of r] e by (auto intro: suffix_order.trans)
    moreover have "delimits l (q, eq)" if "suffix s l"
      using that i word suffix_order.trans unfolding delimits_def is_word_def by (auto simp: e)
    ultimately show ?thesis by simp
  qed
  then show "suffix s' s" "t = 97 \<Longrightarrow> suffix s l \<Longrightarrow> delimits l (q, eq)" by auto
qed

lemma suffix_skip_token:
  assumes "0 \<notin> set s"
  shows "suffix (skip_token s) s"
proof -
  obtain t q eq r where g: "gettoken s = (t, q, eq, r)" by (metis prod_cases4)
  then show ?thesis using gettoken_suffix(1) [OF assms g] by (simp add: skip_token_def)
qed

lemma suffix_zero: "suffix s l \<Longrightarrow> 0 \<notin> set l \<Longrightarrow> 0 \<notin> set (s :: u8 list)"
  using set_mono_suffix by blast

lemma parseredirs_unfold:
  "parseredirs c s =
     (if chr (skip_ws s) \<in> {60, 62}
      then case gettoken s of (tok, _, _, s1) \<Rightarrow> case gettoken s1 of (tok', q, eq, s2) \<Rightarrow>
           if tok' \<noteq> 97 then panic ''missing file for redirection''
           else parseredirs (redircmd tok (q, eq) c) s2
      else Inr (c, skip_ws s))"
  by (subst parseredirs.simps) (auto simp: peek_eq Let_def split: prod.splits)

lemma parsed_redircmd: "parsed l c \<Longrightarrow> delimits l f \<Longrightarrow> parsed l (redircmd t f c)"
  by (auto simp: parsed_def redircmd_def)

fun nargs :: "'w cmd \<Rightarrow> nat option" where
  "nargs (EXEC args) = Some (length args)"
| "nargs (REDIR c f m fd) = nargs c"
| "nargs c = None"

lemma nargs_redircmd [simp]: "nargs (redircmd t f c) = nargs c"
  by (simp add: redircmd_def)

lemma nargs_add_arg: "nargs c = Some n \<Longrightarrow> nargs (add_arg a c) = Some (Suc n)"
  by (induction a c rule: add_arg.induct) auto

lemma words_add_arg: "nargs c = Some n \<Longrightarrow> words (add_arg a c) = insert a (words c)"
  by (induction a c rule: add_arg.induct) auto

lemma shape_add_arg: "nargs c = Some n \<Longrightarrow> Suc n < MAXARGS \<Longrightarrow> shape c \<Longrightarrow> shape (add_arg a c)"
  by (induction a c rule: add_arg.induct) auto

text \<open>Every parser is fine on every rest of a line.\<close>

lemma parseredirs_fine:
  assumes "0 \<notin> set l" "suffix s l" "parsed l c"
  shows "fine l s (parseredirs c s) \<and> (\<forall>c' s'. parseredirs c s = Inr (c', s') \<longrightarrow> nargs c' = nargs c)"
  using assms(2,3)
proof (induction "length s" arbitrary: s c rule: less_induct)
  case less
  obtain t q eq s1 where g1: "gettoken s = (t, q, eq, s1)" by (metis prod_cases4)
  obtain t' q' eq' s2 where g2: "gettoken s1 = (t', q', eq', s2)" by (metis prod_cases4)
  have z: "0 \<notin> set s" by (rule suffix_zero [OF less.prems(1) assms(1)])
  have s1: "suffix s1 s" by (rule gettoken_suffix(1) [OF z g1])
  have z1: "0 \<notin> set s1" by (rule suffix_zero [OF s1 z])
  have s2: "suffix s2 s1" by (rule gettoken_suffix(1) [OF z1 g2])
  show ?case
  proof (cases "chr (skip_ws s) \<in> {60, 62} \<and> t' = 97")
    case True
    let ?c = "redircmd t (q', eq') c"
    have l: "length s2 < length s" using gettoken_le(1) [OF g1] gettoken_le(2) [OF g2] True by simp
    have "delimits l (q', eq')"
      using gettoken_suffix(2) [OF z1 g2] True s1 less.prems(1) by (blast intro: suffix_order.trans)
    then have p: "parsed l ?c" by (rule parsed_redircmd [OF less.prems(2)])
    have x: "suffix s2 l" using s1 s2 less.prems(1) by (blast intro: suffix_order.trans)
    have e: "parseredirs c s = parseredirs ?c s2" using True by (subst parseredirs_unfold) (auto simp: g1 g2)
    show ?thesis using less.hyps [OF l x p] fine_weaken s1 s2 by (auto simp: e intro: suffix_order.trans)
  next
    case False
    then show ?thesis using less.prems(2) suffix_skip_ws [of s]
      by (subst (1 2) parseredirs_unfold) (auto simp: g1 g2)
  qed
qed

lemma args_loop_fine:
  assumes "0 \<notin> set l" "suffix s l" "parsed l c" "nargs c = Some argc"
  shows "fine l s (args_loop argc c s)"
  using assms(2-)
proof (induction "MAXARGS - argc" arbitrary: argc c s rule: less_induct)
  case less
  note 1 = less.prems
  obtain t q eq s1 where g: "gettoken s = (t, q, eq, s1)" by (metis prod_cases4)
  have z: "0 \<notin> set s" by (rule suffix_zero [OF 1(1) assms(1)])
  have s1: "suffix s1 s" by (rule gettoken_suffix(1) [OF z g])
  let ?c = "add_arg (q, eq) c"
  have k: "fine l s (bnd (parseredirs ?c s1) (\<lambda>(c, s). args_loop (argc + 1) c s))"
    if "t = 97" "argc + 1 < MAXARGS"
  proof (rule fine_weaken [OF _ s1], rule fine_bnd)
    have x: "suffix s1 l" using s1 1(1) by (blast intro: suffix_order.trans)
    have "delimits l (q, eq)" using gettoken_suffix(2) [OF z g that(1) 1(1)] .
    then have p: "parsed l ?c"
      using 1(2,3) that(2) shape_add_arg by (auto simp: parsed_def words_add_arg)
    note R = parseredirs_fine [OF assms(1) x p]
    then show "fine l s1 (parseredirs ?c s1)" by blast
    fix c' s' assume r: "parseredirs ?c s1 = Inr (c', s')" and "parsed l c'" "suffix s' s1"
    moreover have "nargs c' = Some (argc + 1)" using R r 1(3) by (simp add: nargs_add_arg)
    moreover have "suffix s' l" using x \<open>suffix s' s1\<close> by (blast intro: suffix_order.trans)
    ultimately have "fine l s' (args_loop (argc + 1) c' s')"
      using less.hyps [of "argc + 1" s' c'] that(2) by simp
    then show "fine l s1 (case (c', s') of (c, s) \<Rightarrow> args_loop (argc + 1) c s)"
      using fine_weaken \<open>suffix s' s1\<close> by auto
  qed
  show ?case using 1(2) k s1 suffix_skip_ws [of s]
    by (subst args_loop.simps) (auto simp: peek_eq Let_def g)
qed

lemma parsed_simps [simp]:
  "parsed l (PIPE c d) \<longleftrightarrow> parsed l c \<and> parsed l d" "parsed l (LIST c d) \<longleftrightarrow> parsed l c \<and> parsed l d"
  "parsed l (BACK c) \<longleftrightarrow> parsed l c" "parsed l (EXEC [])"
  by (auto simp: parsed_def MAXARGS_def)

lemma skip_token_fine:
  assumes "0 \<notin> set l" "suffix s l" "chr (skip_ws s) \<noteq> 0"
  shows "suffix (skip_token s) s" "suffix (skip_token s) l" "length (skip_token s) < length s"
proof -
  show s: "suffix (skip_token s) s" using assms suffix_skip_token suffix_zero by blast
  then show "suffix (skip_token s) l" using assms(2) by (blast intro: suffix_order.trans)
  obtain t q eq r where g: "gettoken s = (t, q, eq, r)" by (metis prod_cases4)
  have "t \<noteq> 0" using g assms(3) by (auto simp: gettoken_def Let_def split: if_splits)
  then show "length (skip_token s) < length s" using gettoken_le(2) [OF g] g by (simp add: skip_token_def)
qed

lemma skip_token_skip [simp]: "skip_token (skip_ws s) = skip_token s"
  by (simp add: skip_token_def)

lemma parseexec_fine:
  assumes l: "0 \<notin> set l" and s: "suffix s l"
    and line: "\<And>s'. suffix s' l \<Longrightarrow> length s' < length s \<Longrightarrow> fine l s' (line s')"
  shows "fine l s (parseexec line s)"
proof (cases "chr (skip_ws s) = 40")
  case True
  note K = skip_token_fine [OF l s]
  have k: "fine l (skip_token s) (line (skip_token s))" using K True by (intro line) auto
  have "fine l s (bnd (line (skip_token s)) (\<lambda>(cmd, s). let (close, s) = peek s [41]
              in if \<not> close then panic ''syntax - missing )'' else parseredirs cmd (skip_token s)))"
  proof (rule fine_weaken [OF fine_bnd [OF k]])
    show "suffix (skip_token s) s" using K(1) True by simp
    fix c s' assume c: "parsed l c" and s': "suffix s' (skip_token s)"
    have x: "suffix s' l" using s' K(2) True by (auto intro: suffix_order.trans)
    show "fine l (skip_token s) (case (c, s') of (cmd, s) \<Rightarrow> let (close, s) = peek s [41]
              in if \<not> close then panic ''syntax - missing )'' else parseredirs cmd (skip_token s))"
    proof (cases "chr (skip_ws s') = 41")
      case close: True
      note K' = skip_token_fine [OF l x]
      have "fine l (skip_token s') (parseredirs c (skip_token s'))" using parseredirs_fine [OF l _ c] K' close by simp
      moreover have "suffix (skip_token s') (skip_token s)" using K'(1) s' close by (auto intro: suffix_order.trans)
      ultimately show ?thesis using close fine_weaken by (auto simp: peek_eq)
    qed (simp add: peek_eq Let_def)
  qed
  then show ?thesis using True by (simp add: parseexec_def parseblock_def peek_eq)
next
  case False
  have "fine l s (bnd (parseredirs (EXEC []) s) (\<lambda>(ret, s). args_loop 0 ret s))"
  proof (rule fine_bnd)
    note R = parseredirs_fine [OF l s, of "EXEC []"]
    then show "fine l s (parseredirs (EXEC []) s)" by simp
    fix c s' assume r: "parseredirs (EXEC []) s = Inr (c, s')" "parsed l c" "suffix s' s"
    then have "fine l s' (args_loop 0 c s')" using R s by (intro args_loop_fine [OF l]) (auto intro: suffix_order.trans)
    then show "fine l s (case (c, s') of (ret, s) \<Rightarrow> args_loop 0 ret s)" using r(3) fine_weaken by simp
  qed
  moreover have "parseredirs (EXEC []) (skip_ws s) = parseredirs (EXEC []) s"
    by (subst (1 2) parseredirs_unfold) simp
  ultimately show ?thesis using False by (simp add: parseexec_def peek_eq Let_def)
qed

lemma back_loop_fine:
  assumes l: "0 \<notin> set l" and s: "suffix s l" "parsed l c"
  shows "parsed l (fst (back_loop c s)) \<and> suffix (snd (back_loop c s)) s"
  using s
proof (induction "length s" arbitrary: c s rule: less_induct)
  case less
  show ?case
  proof (cases "chr (skip_ws s) = 38")
    case True
    note K = skip_token_fine [OF l less.prems(1)]
    have "back_loop c s = back_loop (BACK c) (skip_token s)" using True by (subst back_loop.simps) (simp add: peek_eq)
    then show ?thesis using less.hyps [of "skip_token s" "BACK c"] K True less.prems(2) by (auto intro: suffix_order.trans)
  next
    case False
    then show ?thesis using less.prems suffix_skip_ws [of s] by (subst (1 2) back_loop.simps) (auto simp: peek_eq Let_def)
  qed
qed

lemma parsepipe_fine:
  assumes l: "0 \<notin> set l" and s: "suffix s l" "length s < n" "length s \<le> N"
    and line: "\<And>s'. suffix s' l \<Longrightarrow> length s' < N \<Longrightarrow> fine l s' (line s')"
  shows "fine l s (parsepipe line n s)"
  using s
proof (induction n arbitrary: s)
  case (Suc n)
  have "fine l s (parseexec line s)" using Suc.prems by (intro parseexec_fine [OF l] line) auto
  then show ?case unfolding parsepipe.simps
  proof (rule fine_bnd)
    fix c s' assume c: "parsed l c" and s': "suffix s' s"
    have x: "suffix s' l" and len: "length s' \<le> length s" using s' Suc.prems(1)
      by (auto intro: suffix_order.trans suffix_length_le)
    let ?k = "case (c, s') of (cmd, s) \<Rightarrow> let (bar, s) = peek s [124]
       in if bar then bnd (parsepipe line n (skip_token s)) (\<lambda>(right, s). Inr (PIPE cmd right, s)) else Inr (cmd, s)"
    show "fine l s ?k"
    proof (cases "chr (skip_ws s') = 124")
      case True
      note K = skip_token_fine [OF l x]
      have "fine l (skip_token s') (parsepipe line n (skip_token s'))" using K len True Suc.prems by (intro Suc.IH) auto
      then have "fine l (skip_token s') (bnd (parsepipe line n (skip_token s')) (\<lambda>(right, s). Inr (PIPE c right, s)))"
        by (rule fine_bnd) (use c in auto)
      moreover have "suffix (skip_token s') s" using K(1) s' True by (auto intro: suffix_order.trans)
      ultimately show ?thesis using True fine_weaken by (auto simp: peek_eq)
    next
      case False
      then show ?thesis using c s' suffix_skip_ws [of s'] by (auto simp: peek_eq Let_def intro: suffix_order.trans)
    qed
  qed
qed simp

lemma parseline_fine:
  assumes l: "0 \<notin> set l" and s: "suffix s l" "length s < n"
  shows "fine l s (parseline n s)"
  using s
proof (induction n arbitrary: s)
  case (Suc n)
  have "fine l s (parsepipe (parseline n) (Suc n) s)"
    using Suc by (intro parsepipe_fine [OF l, where N = n]) auto
  then show ?case unfolding parseline.simps
  proof (rule fine_bnd)
    fix c s1 assume c: "parsed l c" and s1: "suffix s1 s"
    have x1: "suffix s1 l" using s1 Suc.prems(1) by (auto intro: suffix_order.trans)
    obtain d s2 where b: "back_loop c s1 = (d, s2)" by (cases "back_loop c s1")
    then have d: "parsed l d" and "suffix s2 s1" using back_loop_fine [OF l x1 c] by auto
    then have s2: "suffix s2 s" using s1 by (auto intro: suffix_order.trans)
    have x: "suffix s2 l" and len: "length s2 \<le> length s" using s2 Suc.prems(1)
      by (auto intro: suffix_order.trans suffix_length_le)
    let ?k = "case (c, s1) of (cmd, s) \<Rightarrow> let (cmd, s) = back_loop cmd s; (semi, s) = peek s [59]
       in if semi then bnd (parseline n (skip_token s)) (\<lambda>(right, s). Inr (LIST cmd right, s)) else Inr (cmd, s)"
    show "fine l s ?k"
    proof (cases "chr (skip_ws s2) = 59")
      case True
      note K = skip_token_fine [OF l x]
      have "fine l (skip_token s2) (parseline n (skip_token s2))" using K len True Suc.prems by (intro Suc.IH) auto
      then have "fine l (skip_token s2) (bnd (parseline n (skip_token s2)) (\<lambda>(right, s). Inr (LIST d right, s)))"
        by (rule fine_bnd) (use d in auto)
      moreover have "suffix (skip_token s2) s" using K(1) s2 True by (auto intro: suffix_order.trans)
      ultimately show ?thesis using True fine_weaken by (auto simp: peek_eq b)
    next
      case False
      then show ?thesis using d s2 suffix_skip_ws [of s2] by (auto simp: peek_eq Let_def b intro: suffix_order.trans)
    qed
  qed
qed simp

subsection \<open>Terminating the words\<close>

definition ends :: "nat \<Rightarrow> word_ptrs cmd \<Rightarrow> nat set" where
  "ends n c = (\<lambda>p. n - length (snd p)) ` words c"

lemma length_foldl_cut [simp]: "length (foldl (cut n) b ps) = length b"
  by (induction ps arbitrary: b) (simp_all add: cut_def)

lemma length_nulterminate [simp]: "length (nulterminate n c b) = length b"
  by (induction n c b rule: nulterminate.induct) (simp_all add: cut_def)

lemma nth_foldl_cut:
  "i < length b \<Longrightarrow>
     foldl (cut n) b ps ! i = (if i \<in> (\<lambda>p. n - length (snd p)) ` set ps then 0 else b ! i)"
  by (induction ps arbitrary: b) (auto simp: cut_def nth_list_update)

lemma nth_nulterminate:
  "i < length b \<Longrightarrow> nulterminate n c b ! i = (if i \<in> ends n c then 0 else b ! i)"
proof (induction n c b rule: nulterminate.induct)
  case (1 n args b)
  then show ?case by (simp add: nth_foldl_cut ends_def)
next
  case (2 n c f m fd b)
  then show ?case by (cases "i = n - length (snd f)") (auto simp: ends_def cut_def)
qed (auto simp: ends_def image_Un)

lemma delimitsE:
  assumes "delimits l p"
  obtains u w where "l = u @ w @ snd p" "fst p = w @ snd p" "is_word w" "snd p = [] \<or> \<not> word_char (hd (snd p))"
  using assms by (auto simp: delimits_def suffix_def)

lemma cstr_split: "0 \<in> set b \<Longrightarrow> \<exists>r. b = cstr b @ 0 # r"
  by (induction b) (auto simp: cstr_def)

lemma string_at_nulterminate:
  assumes c: "parsed (cstr b) c" "p \<in> words c" and b: "0 \<in> set b"
  defines "n \<equiv> length (cstr b)"
  shows "string_at n (nulterminate n c b) p = between p \<and> is_word (between p)"
proof -
  obtain r where br: "b = cstr b @ 0 # r" using cstr_split [OF b] ..
  have stop: "\<not> word_char (b ! i)" if "i \<in> ends n c" "i < length b" for i
  proof -
    obtain p' where p': "p' \<in> words c" "i = n - length (snd p')" using \<open>i \<in> ends n c\<close> by (auto simp: ends_def)
    then have "delimits (cstr b) p'" using c(1) by (simp add: parsed_def)
    then obtain u w where d: "cstr b = u @ w @ snd p'" "snd p' = [] \<or> \<not> word_char (hd (snd p'))"
      by (rule delimitsE)
    have "i = length (u @ w)" using p'(2) d(1) by (simp add: n_def)
    moreover have "b = (u @ w) @ snd p' @ 0 # r" using br d(1) by simp
    ultimately have "b ! i = (snd p' @ 0 # r) ! 0" by (metis nth_append_length_plus add.right_neutral)
    then show ?thesis using d(2) by (cases "snd p'") (auto simp: word_char_def)
  qed
  have "delimits (cstr b) p" using c by (simp add: parsed_def)
  then obtain u w where d: "cstr b = u @ w @ snd p" "fst p = w @ snd p" "is_word w" by (rule delimitsE)
  let ?b = "nulterminate n c b"
  have bt: "between p = w" by (simp add: between_def d(2))
  have len: "n - length (fst p) = length u" "n - length (snd p) = length u + length w" by (simp_all add: n_def d)
  have lb: "length u + length w < length b" 
  proof -
    have "length b = length (cstr b) + Suc (length r)" by (subst br) simp
    then show ?thesis by (simp add: d(1))
  qed
  have "take (length w) (drop (length u) ?b) = w"
  proof (rule nth_equalityI)
    show "length (take (length w) (drop (length u) ?b)) = length w" using lb by simp
    fix i assume "i < length (take (length w) (drop (length u) ?b))"
    then have i: "i < length w" by simp
    have e: "b ! (length u + i) = w ! i" using i by (subst br) (simp add: d(1) nth_append)
    have "length u + i \<notin> ends n c" using stop [of "length u + i"] i lb d(3) unfolding e is_word_def by (auto simp: e)
    then show "take (length w) (drop (length u) ?b) ! i = w ! i" using i lb by (simp add: nth_nulterminate e)
  qed
  moreover have "?b ! (length u + length w) = 0" using lb c(2) by (auto simp: nth_nulterminate ends_def len(2) image_iff)
  moreover have "drop (length u) ?b = take (length w) (drop (length u) ?b) @
      ?b ! (length u + length w) # drop (Suc (length u + length w)) ?b"
    using lb id_take_nth_drop [of "length w" "drop (length u) ?b"] by (simp add: add.commute)
  ultimately have "drop (length u) ?b = w @ 0 # drop (Suc (length u + length w)) ?b" by simp
  moreover have "\<forall>c\<in>set w. c \<noteq> 0" using d(3) by (auto simp: is_word_def word_char_def)
  ultimately have "string_at n ?b p = w" unfolding string_at_def len(1) cstr_def by (simp add: takeWhile_append2)
  then show ?thesis using bt d(3) by simp
qed

lemma parsecmd_result:
  assumes b: "0 \<in> set b"
  shows "parsecmd b \<noteq> Inl Spin"
    and "parsecmd b = Inr (c, b') \<Longrightarrow> parsed (cstr b) c \<and> b' = nulterminate (length (cstr b)) c b"
proof -
  have l: "0 \<notin> set (cstr b)" by (auto simp: cstr_def dest: set_takeWhileD)
  note F = parseline_fine [OF l, of "cstr b" "Suc (length (cstr b))"]
  show "parsecmd b \<noteq> Inl Spin" using F
    by (cases "parseline (Suc (length (cstr b))) (cstr b)") (auto simp: parsecmd_def fine_def panic_def peek_eq Let_def simp del: parseline.simps split: if_splits)
  show "parsed (cstr b) c \<and> b' = nulterminate (length (cstr b)) c b" if "parsecmd b = Inr (c, b')"
    using that F by (cases "parseline (Suc (length (cstr b))) (cstr b)") (auto simp: parsecmd_def fine_def panic_def peek_eq Let_def simp del: parseline.simps split: if_splits)
qed

text \<open>
  C10: The shell parses safely.  On every line \<open>parsecmd\<close> ends, within the levels of recursion that
  the model allows.  When it returns a command, the command is well formed: every program has
  fewer than \<open>MAXARGS\<close> arguments, so that the closing null pointer fits the array; every
  redirection opens its file for reading on descriptor 0 or for writing on descriptor 1; and
  every argument and file name, read as a string from the buffer that \<open>nulterminate\<close> has cut up in
  place, is a non-empty word without white space and symbols.
\<close>

theorem parsecmd_types:
  assumes b: "0 \<in> set b"
  shows "case parsecmd b of Inl e \<Rightarrow> e \<noteq> Spin
    | Inr (c, b') \<Rightarrow> length b' = length b \<and> cmd_ok (map_cmd (string_at (length (cstr b)) b') c)"
proof (cases "parsecmd b")
  case (Inl e)
  then show ?thesis using parsecmd_result(1) [OF b] by auto
next
  case (Inr r)
  obtain c b' where r: "r = (c, b')" by (cases r)
  then have "parsed (cstr b) c" "b' = nulterminate (length (cstr b)) c b" using parsecmd_result(2) [OF b] Inr by auto
  then show ?thesis using string_at_nulterminate [OF _ _ b]
    by (auto simp: Inr r cmd_ok_def cmd.set_map parsed_def)
qed

theorem parsecmd_types_witness:
  "case parsecmd (map of_char ''ls -l>out;(a|b)&'' @ [0]) of Inl e \<Rightarrow> False
    | Inr (c, b') \<Rightarrow> map_cmd (string_at 16 b') c =
         LIST (REDIR (EXEC [map of_char ''ls'', map of_char ''-l'']) (map of_char ''out'') 0x201 1)
              (BACK (PIPE (EXEC [map of_char ''a'']) (EXEC [map of_char ''b''])))
     \<and> cmd_ok (map_cmd (string_at 16 b') c)"
proof -
  let ?b = "map of_char ''ls -l>out;(a|b)&'' @ [0] :: u8 list"
  have "case parsecmd ?b of Inl e \<Rightarrow> False
    | Inr (c, b') \<Rightarrow> map_cmd (string_at 16 b') c =
         LIST (REDIR (EXEC [map of_char ''ls'', map of_char ''-l'']) (map of_char ''out'') 0x201 1)
              (BACK (PIPE (EXEC [map of_char ''a'']) (EXEC [map of_char ''b''])))"
    by code_simp
  moreover have "0 \<in> set ?b" by simp
  moreover have "length (cstr ?b) = 16" by code_simp
  ultimately show ?thesis using parsecmd_types [of ?b] by (auto split: sum.splits)
qed

end
