(* ===== verification/ShellPrint.thy ===== *)
theory ShellPrint
  imports ShellProps
begin

text \<open>
  Printing commands, and that the shell's parser reads what is printed.
\<close>

subsection \<open>Printing\<close>

text \<open>
  The tokens of a command where the grammar expects a line (level 0), a pipeline with its
  ampersands (1), a pipeline (2) or a program with its redirections (3); parentheses stand
  around what does not fit.
\<close>

definition paren :: "u8 list list \<Rightarrow> u8 list list" where
  "paren ts = [40] # ts @ [[41]]"

definition redir_toks :: "u8 list \<Rightarrow> i32 \<Rightarrow> u8 list list" where
  "redir_toks f m = [[if m = O_RDONLY then 60 else 62], f]"

primrec toks :: "u8 list cmd \<Rightarrow> nat \<Rightarrow> u8 list list" where
  "toks (EXEC args) k = args"
| "toks (REDIR c f m fd) k = toks c 3 @ redir_toks f m"
| "toks (PIPE l r) k = (let ts = toks l 3 @ [124] # toks r 2 in if k \<le> 2 then ts else paren ts)"
| "toks (LIST l r) k = (let ts = toks l 1 @ [59] # toks r 0 in if k = 0 then ts else paren ts)"
| "toks (BACK c) k = (let ts = toks c 1 @ [[38]] in if k \<le> 1 then ts else paren ts)"

definition render :: "u8 list list \<Rightarrow> u8 list" where
  "render ts = concat (map (\<lambda>t. 32 # t) ts)"

definition print_cmd :: "u8 list cmd \<Rightarrow> u8 list" where
  "print_cmd c = render (toks c 0)"

lemma render_simps [simp]:
  "render [] = []" "render (t # ts) = 32 # t @ render ts" "render (ts @ us) = render ts @ render us"
  by (simp_all add: render_def)

subsection \<open>Reading tokens\<close>

definition sep :: "u8 list \<Rightarrow> bool" where
  "sep x \<longleftrightarrow> x = [] \<or> hd x = 32"

definition followed :: "u8 set \<Rightarrow> u8 list \<Rightarrow> bool" where
  "followed X r \<longleftrightarrow> sep r \<and> (skip_ws r = [] \<or> chr (skip_ws r) \<in> X)"

lemma sep_render [simp]: "sep r \<Longrightarrow> sep (render ts @ r)" "sep (32 # r)" "sep []"
  by (cases ts; simp add: sep_def)+

lemma skip_space: "skip_ws (32 # x) = skip_ws x"
  by (simp add: skip_ws_Cons is_ws_iff)

lemma skip_char: "\<not> is_ws c \<Longrightarrow> skip_ws (c # x) = c # x"
  by (simp add: skip_ws_Cons)

lemma read_word:
  assumes w: "is_word w" and x: "sep x" and s: "skip_ws s = skip_ws (32 # w @ x)"
  shows "gettoken s = (97, w @ x, x, skip_ws x)" "skip_ws s = w @ x" "chr (skip_ws s) = hd w" "word_char (hd w)"
proof -
  obtain c v where v: "w = c # v" using w by (cases w) (auto simp: is_word_def)
  have c: "word_char c" using w v by (simp add: is_word_def)
  have e: "skip_ws s = w @ x" using c by (simp add: s skip_space v skip_char word_char_def)
  let ?P = "\<lambda>c. \<not> is_ws c \<and> \<not> is_sym c"
  have "\<forall>c\<in>set w. ?P c" using w by (auto simp: is_word_def word_char_def)
  moreover have "dropWhile ?P x = x" using x by (cases x) (auto simp: sep_def is_ws_iff)
  ultimately have "dropWhile ?P (w @ x) = x" by (simp add: dropWhile_append2)
  then show "gettoken s = (97, w @ x, x, skip_ws x)" using c
    by (auto simp: gettoken_def e Let_def v word_char_def is_sym_iff)
  show "skip_ws s = w @ x" "chr (skip_ws s) = hd w" "word_char (hd w)" using e c v by simp_all
qed

lemma read_sym:
  assumes c: "c \<in> {124, 40, 41, 59, 38, 60, 62}" and x: "sep x" and s: "skip_ws s = skip_ws (32 # c # x)"
  shows "gettoken s = (c, c # x, x, skip_ws x)" "skip_token s = skip_ws x" "chr (skip_ws s) = c"
    "length (skip_ws x) < length s"
proof -
  have w: "\<not> is_ws c" using c by (auto simp: is_ws_iff)
  then have e: "skip_ws s = c # x" by (simp add: s skip_space skip_char)
  have "chr x \<noteq> 62" using x by (cases x) (auto simp: sep_def)
  then show g: "gettoken s = (c, c # x, x, skip_ws x)" using c by (auto simp: gettoken_def e Let_def)
  then show "skip_token s = skip_ws x" by (simp add: skip_token_def)
  show "chr (skip_ws s) = c" by (simp add: e)
  show "length (skip_ws x) < length s" using gettoken_le(2) [OF g] c by auto
qed

lemma peek_followed: "followed X r \<Longrightarrow> skip_ws s = skip_ws r \<Longrightarrow> set ts \<inter> X = {} \<Longrightarrow> 0 \<notin> set ts \<Longrightarrow> \<not> fst (peek s ts)"
proof -
  have n: "c \<in> set ts" if "strchr ts c = Some y" for c :: u8 and ts y
    using that by (induction ts) (auto split: if_splits)
  assume "followed X r" "skip_ws s = skip_ws r" "set ts \<inter> X = {}" "0 \<notin> set ts"
  then show ?thesis by (auto simp: peek_eq followed_def dest: n)
qed

subsection \<open>Reading redirections\<close>

type_synonym redirection = "u8 list \<times> i32 \<times> i32"

definition wrap :: "u8 list cmd \<Rightarrow> redirection \<Rightarrow> u8 list cmd" where
  "wrap c = (\<lambda>(f, m, fd). REDIR c f m fd)"

definition redirs_toks :: "redirection list \<Rightarrow> u8 list list" where
  "redirs_toks rs = concat (map (\<lambda>(f, m, fd). redir_toks f m) rs)"

definition redir_ok :: "redirection \<Rightarrow> bool" where
  "redir_ok = (\<lambda>(f, m, fd). is_word f \<and> (m = O_RDONLY \<and> fd = 0 \<or> m = O_WRONLY OR O_CREATE \<and> fd = 1))"

lemma redirs_toks_simps [simp]:
  "redirs_toks [] = []" "redirs_toks ((f, m, fd) # rs) = redir_toks f m @ redirs_toks rs"
  by (simp_all add: redirs_toks_def)

lemma between_word [simp]: "between (w @ x, x) = w"
  by (simp add: between_def)

lemma parseredirs_none: "chr (skip_ws s) \<notin> {60, 62} \<Longrightarrow> parseredirs c s = Inr (c, skip_ws s)"
  by (subst parseredirs_unfold) simp

lemma parseredirs_print:
  assumes "\<forall>x\<in>set rs. redir_ok x" "sep r" "chr (skip_ws r) \<notin> {60, 62}"
    "skip_ws s = skip_ws (render (redirs_toks rs) @ r)"
  shows "\<exists>c'. parseredirs c s = Inr (c', skip_ws r) \<and> map_cmd between c' = foldl wrap (map_cmd between c) rs
     \<and> nargs c' = nargs c"
  using assms(1,4)
proof (induction rs arbitrary: c s)
  case Nil
  then show ?case using assms(3) by (subst parseredirs_none) simp_all
next
  case (Cons x rs)
  obtain f m fd where x: "x = (f, m, fd)" by (cases x)
  let ?t = "if m = O_RDONLY then 60 else 62" and ?r = "render (redirs_toks rs) @ r"
  have f: "is_word f" and m: "m = O_RDONLY \<and> fd = 0 \<or> m = O_WRONLY OR O_CREATE \<and> fd = 1"
    using Cons.prems(1) by (auto simp: x redir_ok_def)
  have "skip_ws s = skip_ws (32 # ?t # 32 # f @ ?r)" using Cons.prems(2) by (simp add: x redir_toks_def)
  note S = read_sym [OF _ sep_render(2) this]
  have "skip_ws (skip_ws (32 # f @ ?r)) = skip_ws (32 # f @ ?r)" by simp
  note W = read_word [OF f sep_render(1) [OF assms(2)] this]
  let ?c = "redircmd ?t (f @ ?r, ?r) c"
  have e: "parseredirs c s = parseredirs ?c (skip_ws ?r)"
    using S W(1) by (subst parseredirs_unfold) auto
  have "map_cmd between ?c = wrap (map_cmd between c) x" using m by (auto simp: redircmd_def wrap_def x)
  then show ?case using Cons.IH [of "skip_ws ?r" ?c] Cons.prems(1) unfolding e by auto
qed

subsection \<open>Reading programs\<close>

lemma map_add_arg: "map_cmd f (add_arg a c) = add_arg (f a) (map_cmd f c)"
  by (induction a c rule: add_arg.induct) auto

lemma add_args_EXEC: "foldl (\<lambda>c a. add_arg a c) (EXEC as) bs = EXEC (as @ bs)"
  by (induction bs arbitrary: as) auto

lemma args_loop_end:
  assumes "followed {124, 41, 38, 59} r" "skip_ws s = skip_ws r"
  shows "args_loop argc c s = Inr (c, skip_ws r)"
proof (cases "skip_ws r")
  case Nil
  have "gettoken [] = (0, [], [], [])" by (simp add: gettoken_def)
  then show ?thesis using Nil assms(2) by (subst args_loop.simps) (simp add: peek_eq)
next
  case (Cons x y)
  then show ?thesis using assms by (subst args_loop.simps) (auto simp: peek_eq followed_def)
qed

lemma args_loop_print:
  assumes rs: "\<forall>x\<in>set rs. redir_ok x" and r: "followed {124, 41, 38, 59} r"
    and as: "\<forall>a\<in>set as. is_word a" "argc + length as < MAXARGS" "as = [] \<longrightarrow> rs = []"
    and s: "skip_ws s = skip_ws (render as @ render (redirs_toks rs) @ r)"
  shows "\<exists>c'. args_loop argc c s = Inr (c', skip_ws r) \<and>
      map_cmd between c' = foldl wrap (foldl (\<lambda>c a. add_arg a c) (map_cmd between c) as) rs"
  using as s
proof (induction as arbitrary: argc c s)
  case Nil
  then show ?case using args_loop_end [OF r] by simp
next
  case (Cons a as)
  let ?x = "render as @ render (redirs_toks rs) @ r"
  have sr: "sep r" "chr (skip_ws r) \<notin> {60, 62}" using r by (auto simp: followed_def)
  have a: "is_word a" using Cons.prems(1) by simp
  have sx: "sep ?x" using sr by simp
  have "skip_ws s = skip_ws (32 # a @ ?x)" using Cons.prems(4) by simp
  note W = read_word [OF a sx this]
  let ?c = "add_arg (a @ ?x, ?x) c"
  have m: "map_cmd between ?c = add_arg a (map_cmd between c)" by (simp add: map_add_arg)
  have "chr (skip_ws s) \<notin> {124, 41, 38, 59}" using W(3,4) by (auto simp: word_char_def is_sym_iff)
  then have e: "args_loop argc c s = bnd (parseredirs ?c (skip_ws ?x)) (\<lambda>(c, s). args_loop (argc + 1) c s)"
    using W(1) Cons.prems(2) by (subst args_loop.simps) (simp add: peek_eq Let_def)
  show ?case
  proof (cases as)
    case Nil
    then have "skip_ws (skip_ws ?x) = skip_ws (render (redirs_toks rs) @ r)" by simp
    from parseredirs_print [OF rs sr this, of ?c] obtain c' where
      "parseredirs ?c (skip_ws ?x) = Inr (c', skip_ws r)" "map_cmd between c' = foldl wrap (map_cmd between ?c) rs"
      by blast
    then show ?thesis using args_loop_end [OF r, of "skip_ws r"] Nil m e by simp
  next
    case (Cons b bs)
    have sx': "sep (render bs @ render (redirs_toks rs) @ r)" using sr by simp
    have "is_word b" using Cons.prems(1) Cons by simp
    then have "word_char (chr (skip_ws ?x))" using read_word(3,4) [OF _ sx', of b ?x] Cons by simp
    then have n: "chr (skip_ws (skip_ws ?x)) \<notin> {60, 62}" by (auto simp: word_char_def is_sym_iff)
    have "args_loop argc c s = args_loop (argc + 1) ?c (skip_ws ?x)" unfolding e by (subst parseredirs_none [OF n]) simp
    moreover have "\<exists>c'. args_loop (argc + 1) ?c (skip_ws ?x) = Inr (c', skip_ws r) \<and>
        map_cmd between c' = foldl wrap (foldl (\<lambda>c a. add_arg a c) (map_cmd between ?c) as) rs"
      using Cons.prems Cons by (intro Cons.IH) auto
    ultimately show ?thesis using m by simp
  qed
qed

definition exec_prints :: "u8 list cmd \<Rightarrow> bool" where
  "exec_prints c \<longleftrightarrow> (\<forall>rs r s n. (\<forall>x\<in>set rs. redir_ok x) \<longrightarrow> followed {124, 41, 38, 59} r \<longrightarrow>
     skip_ws s = skip_ws (render (toks c 3 @ redirs_toks rs) @ r) \<longrightarrow> length s \<le> n \<longrightarrow>
     (\<exists>c'. parseexec (parseline n) s = Inr (c', skip_ws r) \<and> map_cmd between c' = foldl wrap c rs))"

definition pipe_prints :: "u8 list cmd \<Rightarrow> bool" where
  "pipe_prints c \<longleftrightarrow> (\<forall>r s n m. followed {41, 38, 59} r \<longrightarrow>
     skip_ws s = skip_ws (render (toks c 2) @ r) \<longrightarrow> length s \<le> n \<longrightarrow> length s < m \<longrightarrow>
     (\<exists>c'. parsepipe (parseline n) m s = Inr (c', skip_ws r) \<and> map_cmd between c' = c))"

definition back_prints :: "u8 list cmd \<Rightarrow> bool" where
  "back_prints c \<longleftrightarrow> (\<forall>k r s n m. followed {41, 59} r \<longrightarrow>
     skip_ws s = skip_ws (render (toks c 1 @ replicate k [38]) @ r) \<longrightarrow> length s \<le> n \<longrightarrow> length s < m \<longrightarrow>
     (\<exists>c1 s1 c'. parsepipe (parseline n) m s = Inr (c1, s1) \<and>
        back_loop c1 s1 = (c', skip_ws r) \<and> map_cmd between c' = (BACK ^^ k) c))"

definition line_prints :: "u8 list cmd \<Rightarrow> bool" where
  "line_prints c \<longleftrightarrow> (\<forall>r s n. followed {41} r \<longrightarrow>
     skip_ws s = skip_ws (render (toks c 0) @ r) \<longrightarrow> length s < n \<longrightarrow>
     (\<exists>c'. parseline n s = Inr (c', skip_ws r) \<and> map_cmd between c' = c))"

lemma exec_prints_EXEC:
  assumes "length as < MAXARGS" "\<forall>a\<in>set as. is_word a"
  shows "exec_prints (EXEC as)"
  unfolding exec_prints_def
proof (intro allI impI)
  fix rs r s n
  assume rs: "\<forall>x\<in>set rs. redir_ok x" and r: "followed {124, 41, 38, 59} r"
    and s: "skip_ws s = skip_ws (render (toks (EXEC as) 3 @ redirs_toks rs) @ r)"
  have sr: "sep r" "chr (skip_ws r) \<notin> {60, 62}" using r by (auto simp: followed_def)
  show "\<exists>c'. parseexec (parseline n) s = Inr (c', skip_ws r) \<and> map_cmd between c' = foldl wrap (EXEC as) rs"
  proof (cases as)
    case Nil
    then have s': "skip_ws s = skip_ws (render (redirs_toks rs) @ r)" using s by simp
    from parseredirs_print [OF rs sr, of "skip_ws s" "EXEC []"] obtain c' where
      c': "parseredirs (EXEC []) (skip_ws s) = Inr (c', skip_ws r)" "map_cmd between c' = foldl wrap (EXEC []) rs"
      using s' by auto
    have "chr (skip_ws s) \<noteq> 40"
    proof (cases rs)
      case Nil
      then show ?thesis using s' r by (auto simp: followed_def)
    next
      case (Cons x rs')
      obtain f m fd where x: "x = (f, m, fd)" by (cases x)
      have "chr (skip_ws s) = (if m = O_RDONLY then 60 else 62)"
        using s' sr(1) by (intro read_sym(3) [where x = "32 # f @ render (redirs_toks rs') @ r"]) (auto simp: Cons x redir_toks_def)
      then show ?thesis by simp
    qed
    then show ?thesis using c' args_loop_end [OF r, of "skip_ws r"] Nil by (simp add: parseexec_def peek_eq)
  next
    case (Cons a bs)
    have "is_word a" "sep (render bs @ render (redirs_toks rs) @ r)" using assms(2) Cons sr by auto
    from read_word(3,4) [OF this, of s] have w: "word_char (chr (skip_ws s))" using s Cons by simp
    then have n: "chr (skip_ws (skip_ws s)) \<notin> {60, 62}" "chr (skip_ws s) \<noteq> 40" by (auto simp: word_char_def is_sym_iff)
    have "parseexec (parseline n) s = args_loop 0 (EXEC []) (skip_ws s)"
      using n(2) by (simp add: parseexec_def peek_eq parseredirs_none [OF n(1)])
    moreover have "\<exists>c'. args_loop 0 (EXEC []) (skip_ws s) = Inr (c', skip_ws r) \<and>
        map_cmd between c' = foldl wrap (foldl (\<lambda>c a. add_arg a c) (map_cmd between (EXEC [])) as) rs"
      using s Cons assms by (intro args_loop_print [OF rs r]) auto
    ultimately show ?thesis by (simp add: add_args_EXEC)
  qed
qed

subsection \<open>Reading pipelines and lines\<close>

lemma exec_pipe:
  assumes c: "exec_prints c" and k: "toks c 2 = toks c 3"
  shows "pipe_prints c"
  unfolding pipe_prints_def
proof (intro allI impI)
  fix r s n m
  assume r: "followed {41, 38, 59} r" and s: "skip_ws s = skip_ws (render (toks c 2) @ r)" and n: "length s \<le> n" and m: "length s < m"
  obtain m' where m': "m = Suc m'" using m by (cases m) auto
  have r': "followed {124, 41, 38, 59} r" using r by (auto simp: followed_def)
  obtain c' where "parseexec (parseline n) s = Inr (c', skip_ws r)" "map_cmd between c' = c"
    using c [unfolded exec_prints_def, rule_format, of "[]" r s n] r' s n k by auto
  moreover have "chr (skip_ws r) \<noteq> 124" using r by (auto simp: followed_def)
  ultimately show "\<exists>c'. parsepipe (parseline n) m s = Inr (c', skip_ws r) \<and> map_cmd between c' = c"
    by (simp add: m' peek_eq)
qed

lemma back_loop_print:
  assumes "followed {41, 59} r" "skip_ws s = skip_ws (render (replicate k [38]) @ r)"
  shows "\<exists>c'. back_loop c s = (c', skip_ws r) \<and> map_cmd between c' = (BACK ^^ k) (map_cmd between c)"
  using assms(2)
proof (induction k arbitrary: c s)
  case 0
  then show ?case using assms(1) by (subst back_loop.simps) (auto simp: peek_eq followed_def)
next
  case (Suc k)
  have sr: "sep r" using assms(1) by (simp add: followed_def)
  have "skip_ws s = skip_ws (32 # 38 # render (replicate k [38]) @ r)" using Suc.prems by simp
  note S = read_sym [OF _ sep_render(1) [OF sr] this]
  have "back_loop c s = back_loop (BACK c) (skip_ws (render (replicate k [38]) @ r))"
    using S by (subst back_loop.simps) (simp add: peek_eq)
  then show ?case using Suc.IH [of "skip_ws (render (replicate k [38]) @ r)" "BACK c"] by (simp add: funpow_swap1)
qed

lemma pipe_back:
  assumes c: "pipe_prints c" and k: "toks c 1 = toks c 2"
  shows "back_prints c"
  unfolding back_prints_def
proof (intro allI impI)
  fix k r s n m
  assume r: "followed {41, 59} r" and s: "skip_ws s = skip_ws (render (toks c 1 @ replicate k [38]) @ r)"
    and n: "length s \<le> n" and m: "length s < m"
  let ?r = "render (replicate k [38]) @ r"
  have sr: "sep r" using r by (simp add: followed_def)
  have "followed {41, 38, 59} ?r"
  proof (cases k)
    case 0
    then show ?thesis using r by (auto simp: followed_def)
  next
    case (Suc k')
    then show ?thesis using sr by (simp add: followed_def skip_space skip_char is_ws_iff)
  qed
  then obtain c1 where c1: "parsepipe (parseline n) m s = Inr (c1, skip_ws ?r)" "map_cmd between c1 = c"
    using c [unfolded pipe_prints_def, rule_format, of ?r s n m] s n m assms(2) by auto
  obtain c' where "back_loop c1 (skip_ws ?r) = (c', skip_ws r)" "map_cmd between c' = (BACK ^^ k) c"
    using back_loop_print [OF r, of "skip_ws ?r" k c1] c1(2) by auto
  then show "\<exists>c1 s1 c'. parsepipe (parseline n) m s = Inr (c1, s1) \<and>
        back_loop c1 s1 = (c', skip_ws r) \<and> map_cmd between c' = (BACK ^^ k) c"
    using c1(1) by blast
qed

lemma skip_append_le: "length (skip_ws r) \<le> length (skip_ws (x @ r))"
  by (induction x) (auto simp: skip_ws_Cons intro: le_SucI le_trans [OF skip_ws_le])

lemma back_line:
  assumes c: "back_prints c" and k: "toks c 0 = toks c 1"
  shows "line_prints c"
  unfolding line_prints_def
proof (intro allI impI)
  fix r s n
  assume r: "followed {41} r" and s: "skip_ws s = skip_ws (render (toks c 0) @ r)" and n: "length s < n"
  obtain n' where n': "n = Suc n'" using n by (cases n) auto
  have r': "followed {41, 59} r" using r by (auto simp: followed_def)
  obtain c1 s1 c' where "parsepipe (parseline n') n s = Inr (c1, s1)" "back_loop c1 s1 = (c', skip_ws r)"
    "map_cmd between c' = c"
    using c [unfolded back_prints_def, rule_format, of r s 0 n' n] r' s n n' k by auto
  moreover have "chr (skip_ws r) \<noteq> 59" using r by (auto simp: followed_def)
  ultimately show "\<exists>c'. parseline n s = Inr (c', skip_ws r) \<and> map_cmd between c' = c"
    by (simp add: n' peek_eq del: parsepipe.simps)
qed

lemma list_line:
  assumes c: "back_prints c" and d: "line_prints d"
  shows "line_prints (LIST c d)"
  unfolding line_prints_def
proof (intro allI impI)
  fix r s n
  assume r: "followed {41} r" and s: "skip_ws s = skip_ws (render (toks (LIST c d) 0) @ r)" and n: "length s < n"
  obtain n' where n': "n = Suc n'" using n by (cases n) auto
  let ?d = "render (toks d 0) @ r"
  let ?r = "32 # 59 # ?d"
  have sd: "sep ?d" using r by (simp add: followed_def)
  have s': "skip_ws s = skip_ws (render (toks c 1) @ ?r)" using s by simp
  have r': "followed {41, 59} ?r" by (simp add: followed_def skip_space skip_char is_ws_iff)
  obtain c1 s1 c' where c': "parsepipe (parseline n') n s = Inr (c1, s1)" "back_loop c1 s1 = (c', skip_ws ?r)"
    "map_cmd between c' = c"
    using c [unfolded back_prints_def, rule_format, of ?r s 0 n' n] r' s' n n' by auto
  note S = read_sym [OF _ sd, of 59 "skip_ws ?r"]
  have "length (skip_ws ?r) \<le> length s"
    using skip_append_le [of ?r "render (toks c 1)"] skip_ws_le [of s] s' by simp
  then have l: "length (skip_ws ?d) < n'" using S(4) n n' by simp
  obtain d' where d': "parseline n' (skip_ws ?d) = Inr (d', skip_ws r)" "map_cmd between d' = d"
    using d [unfolded line_prints_def, rule_format, of r "skip_ws ?d" n'] r l by auto
  have "parseline n s = Inr (LIST c' d', skip_ws r)"
    using c' d' S by (simp add: n' peek_eq del: parsepipe.simps)
  then show "\<exists>x. parseline n s = Inr (x, skip_ws r) \<and> map_cmd between x = LIST c d" using c'(3) d'(2) by simp
qed

lemma back_back:
  assumes c: "back_prints c"
  shows "back_prints (BACK c)"
  unfolding back_prints_def
proof (intro allI impI)
  fix k r s n m
  assume "followed {41, 59} r" "skip_ws s = skip_ws (render (toks (BACK c) 1 @ replicate k [38]) @ r)"
    "length s \<le> n" "length s < m"
  then show "\<exists>c1 s1 c'. parsepipe (parseline n) m s = Inr (c1, s1) \<and>
        back_loop c1 s1 = (c', skip_ws r) \<and> map_cmd between c' = (BACK ^^ k) (BACK c)"
    using c [unfolded back_prints_def, rule_format, of r s "Suc k" n m] by (simp add: funpow_swap1 del: parsepipe.simps)
qed

lemma pipe_pipe:
  assumes c: "exec_prints c" and d: "pipe_prints d"
  shows "pipe_prints (PIPE c d)"
  unfolding pipe_prints_def
proof (intro allI impI)
  fix r s n m
  assume r: "followed {41, 38, 59} r" and s: "skip_ws s = skip_ws (render (toks (PIPE c d) 2) @ r)"
    and n: "length s \<le> n" and m: "length s < m"
  obtain m' where m': "m = Suc m'" using m by (cases m) auto
  let ?d = "render (toks d 2) @ r"
  let ?r = "32 # 124 # ?d"
  have sd: "sep ?d" using r by (simp add: followed_def)
  have s': "skip_ws s = skip_ws (render (toks c 3) @ ?r)" using s by simp
  have r': "followed {124, 41, 38, 59} ?r" by (simp add: followed_def skip_space skip_char is_ws_iff)
  obtain c' where c': "parseexec (parseline n) s = Inr (c', skip_ws ?r)" "map_cmd between c' = c"
    using c [unfolded exec_prints_def, rule_format, of "[]" ?r s n] r' s' n by auto
  note S = read_sym [OF _ sd, of 124 "skip_ws ?r"]
  have "length (skip_ws ?r) \<le> length s"
    using skip_append_le [of ?r "render (toks c 3)"] skip_ws_le [of s] s' by simp
  then have l: "length (skip_ws ?d) < m'" "length (skip_ws ?d) \<le> n" using S(4) n m m' by simp_all
  obtain d' where d': "parsepipe (parseline n) m' (skip_ws ?d) = Inr (d', skip_ws r)" "map_cmd between d' = d"
    using d [unfolded pipe_prints_def, rule_format, of r "skip_ws ?d" n m'] r l by auto
  have "parsepipe (parseline n) m s = Inr (PIPE c' d', skip_ws r)" using c' d' S by (simp add: m' peek_eq)
  then show "\<exists>x. parsepipe (parseline n) m s = Inr (x, skip_ws r) \<and> map_cmd between x = PIPE c d"
    using c'(2) d'(2) by simp
qed

lemma exec_redir:
  assumes c: "exec_prints c" and f: "redir_ok (f, m, fd)"
  shows "exec_prints (REDIR c f m fd)"
  unfolding exec_prints_def
proof (intro allI impI)
  fix rs r s n
  assume "\<forall>x\<in>set rs. redir_ok x" "followed {124, 41, 38, 59} r"
    "skip_ws s = skip_ws (render (toks (REDIR c f m fd) 3 @ redirs_toks rs) @ r)" "length s \<le> n"
  then show "\<exists>c'. parseexec (parseline n) s = Inr (c', skip_ws r) \<and> map_cmd between c' = foldl wrap (REDIR c f m fd) rs"
    using c [unfolded exec_prints_def, rule_format, of "(f, m, fd) # rs" r s n] f by (auto simp: wrap_def)
qed

lemma exec_paren:
  assumes c: "line_prints c" and k: "toks c 3 = paren (toks c 0)"
  shows "exec_prints c"
  unfolding exec_prints_def
proof (intro allI impI)
  fix rs r s n
  assume rs: "\<forall>x\<in>set rs. redir_ok x" and r: "followed {124, 41, 38, 59} r"
    and s: "skip_ws s = skip_ws (render (toks c 3 @ redirs_toks rs) @ r)" and n: "length s \<le> n"
  let ?e = "render (redirs_toks rs) @ r"
  let ?r = "32 # 41 # ?e"
  let ?d = "render (toks c 0) @ ?r"
  have sr: "sep r" "chr (skip_ws r) \<notin> {60, 62}" using r by (auto simp: followed_def)
  have "skip_ws s = skip_ws (32 # 40 # ?d)" using s k by (simp add: paren_def)
  note S = read_sym [OF _ sep_render(1) [OF sep_render(2)] this]
  have r': "followed {41} ?r" by (simp add: followed_def skip_space skip_char is_ws_iff)
  have "length (skip_ws ?d) < n" using S(4) n by simp
  then obtain c' where c': "parseline n (skip_ws ?d) = Inr (c', skip_ws ?r)" "map_cmd between c' = c"
    using c [unfolded line_prints_def, rule_format, of ?r "skip_ws ?d" n] r' by auto
  note S' = read_sym [OF _ sep_render(1) [OF sr(1)], of 41 "skip_ws ?r" "redirs_toks rs"]
  obtain d where d: "parseredirs c' (skip_ws ?e) = Inr (d, skip_ws r)" "map_cmd between d = foldl wrap c rs"
    using parseredirs_print [OF rs sr, of "skip_ws ?e" c'] c'(2) by auto
  have "parseexec (parseline n) s = Inr (d, skip_ws r)"
    using S S' c' d by (simp add: parseexec_def parseblock_def peek_eq)
  then show "\<exists>x. parseexec (parseline n) s = Inr (x, skip_ws r) \<and> map_cmd between x = foldl wrap c rs"
    using d(2) by simp
qed

lemma all_print:
  "cmd_ok c \<Longrightarrow> exec_prints c \<and> pipe_prints c \<and> back_prints c \<and> line_prints c"
proof (induction c)
  case (EXEC as)
  then have "exec_prints (EXEC as)" by (intro exec_prints_EXEC) (auto simp: cmd_ok_def)
  then show ?case using exec_pipe pipe_back back_line by simp
next
  case (REDIR c f m fd)
  then have "exec_prints (REDIR c f m fd)" by (intro exec_redir) (auto simp: cmd_ok_def redir_ok_def)
  then show ?case using exec_pipe pipe_back back_line by simp
next
  case (PIPE c d)
  then have "pipe_prints (PIPE c d)" by (intro pipe_pipe) (auto simp: cmd_ok_def)
  then have "back_prints (PIPE c d)" "line_prints (PIPE c d)" using pipe_back back_line by simp_all
  then show ?case using exec_paren \<open>pipe_prints (PIPE c d)\<close> by simp
next
  case (LIST c d)
  then have "line_prints (LIST c d)" by (intro list_line) (auto simp: cmd_ok_def)
  then have "exec_prints (LIST c d)" using exec_paren by simp
  then show ?case using exec_pipe pipe_back \<open>line_prints (LIST c d)\<close> by simp
next
  case (BACK c)
  then have "back_prints (BACK c)" by (intro back_back) (auto simp: cmd_ok_def)
  then have "line_prints (BACK c)" using back_line by simp
  then have "exec_prints (BACK c)" using exec_paren by simp
  then show ?case using exec_pipe \<open>line_prints (BACK c)\<close> \<open>back_prints (BACK c)\<close> by simp
qed

text \<open>
  C9: The shell reads back every command.  A well-formed command printed as a line, with
  parentheses where the grammar needs them, is parsed into the same command: the tree that
  \<open>parsecmd\<close> returns has the same programs, redirections, pipes, lists and background marks, and
  its pointers, into the buffer with the words cut apart, point to the same strings.
\<close>

theorem parsecmd_print:
  assumes c: "cmd_ok c"
  shows "\<exists>c' b'. parsecmd (print_cmd c @ [0]) = Inr (c', b') \<and>
     map_cmd (string_at (length (print_cmd c)) b') c' = c"
proof -
  let ?l = "print_cmd c" and ?b = "print_cmd c @ [0]"
  have "0 \<notin> set (render ts)" if "\<forall>t\<in>set ts. 0 \<notin> set t" for ts using that by (induction ts) auto
  moreover have "\<forall>t\<in>set (toks c k). 0 \<notin> set t" for k using c
    by (induction c arbitrary: k)
      (fastforce simp: cmd_ok_def is_word_def word_char_def paren_def redir_toks_def Let_def split: if_splits)+
  ultimately have z: "0 \<notin> set ?l" by (simp add: print_cmd_def)
  then have l: "cstr ?b = ?l" unfolding cstr_def by (subst takeWhile_append2) auto
  have "line_prints c" using all_print [OF c] by simp
  from this [unfolded line_prints_def, rule_format, of "[]" ?l "Suc (length ?l)"] obtain c' where
    c': "parseline (Suc (length ?l)) ?l = Inr (c', [])" "map_cmd between c' = c"
    by (auto simp: followed_def print_cmd_def simp del: parseline.simps)
  let ?b' = "nulterminate (length ?l) c' ?b"
  have p: "parsecmd ?b = Inr (c', ?b')" using c' by (simp add: parsecmd_def l peek_eq Let_def del: parseline.simps)
  have "parsed (cstr ?b) c'" using parsecmd_result(2) [OF _ p] by simp
  from string_at_nulterminate [OF this] have "map_cmd (string_at (length ?l) ?b') c' = map_cmd between c'"
    by (intro cmd.map_cong0) (simp add: l)
  then show ?thesis using p c'(2) by blast
qed

theorem parsecmd_print_witness:
  "\<exists>c' b'. parsecmd (map of_char '' ( a & ; ) > f | b'' @ [0]) = Inr (c', b') \<and>
     map_cmd (string_at 18 b') c' =
       PIPE (REDIR (LIST (BACK (EXEC [[97]])) (EXEC [])) [102] 0x201 1) (EXEC [[98]])"
proof -
  let ?c = "PIPE (REDIR (LIST (BACK (EXEC [[97]])) (EXEC [])) [102] 0x201 1) (EXEC [[98]]) :: u8 list cmd"
  have "cmd_ok ?c" by (simp add: cmd_ok_def is_word_def word_char_def is_ws_iff is_sym_iff MAXARGS_def)
  moreover have "print_cmd ?c = map of_char '' ( a & ; ) > f | b''"
    by (simp add: print_cmd_def paren_def redir_toks_def Let_def)
  ultimately show ?thesis using parsecmd_print [of ?c] by (simp add: eval_nat_numeral)
qed

end
