(* ===== verification/VmMap.thy ===== *)
theory VmMap
  imports ProcLife
begin

text \<open>
  What the page-table routines do to the mapping that a page directory describes.

  A directory is well formed when it and its page tables are different allocatable pages that
  are not on the free list.  \<open>pte_at\<close> reads the entry of an address, 0 when there is no page
  table for it.
\<close>

subsection \<open>Pages and offsets\<close>

lemma low_bits: "(v :: u32) mod 4096 = 0 \<Longrightarrow> bit v i \<Longrightarrow> 12 \<le> i"
proof (rule ccontr)
  assume v: "v mod 4096 = 0" "bit v i" and "\<not> 12 \<le> i"
  then have "bit (take_bit 12 v) i" by (simp add: bit_take_bit_iff)
  moreover have "take_bit 12 v = 0" using v(1) by (simp only: take_bit_eq_mod) simp
  ultimately show False by simp
qed

lemma high_bits: "(v :: u32) < 4096 \<Longrightarrow> bit v i \<Longrightarrow> i < 12"
proof -
  assume v: "v < 4096" and i: "bit v i"
  then have "take_bit 12 v = v" by (simp add: take_bit_eq_mod word_unat_eq_iff unat_mod word_less_nat_alt)
  then show ?thesis using i by (metis bit_take_bit_iff)
qed

lemma not_mask12: "NOT 0xFFF = (NOT (mask 12) :: u32)"
  by (simp add: mask_eq_exp_minus_1)

lemma PTE_ADDR_or:
  assumes "pa mod 4096 = 0" "x < 4096"
  shows "PTE_ADDR (pa OR x) = pa"
proof (rule bit_word_eqI)
  fix n assume "n < LENGTH(32)"
  moreover have "bit pa n \<Longrightarrow> 12 \<le> n" "bit x n \<Longrightarrow> n < 12" by (fact low_bits [OF assms(1)], fact high_bits [OF assms(2)])
  ultimately show "bit (PTE_ADDR (pa OR x)) n = bit pa n"
    unfolding PTE_ADDR_def not_mask12 bit_and_iff bit_or_iff bit_not_iff bit_mask_iff by auto
qed

lemma or_less_4096: "x < 4096 \<Longrightarrow> y < 4096 \<Longrightarrow> x OR y < (4096 :: u32)"
proof -
  assume "x < 4096" "y < 4096"
  then have e: "take_bit 12 (x OR y) = x OR y"
    using high_bits [of x] high_bits [of y] by (intro bit_word_eqI) (auto simp: bit_simps)
  have "unat (take_bit 12 (x OR y)) < 2 ^ 12"
    by (simp only: unsigned_take_bit_eq take_bit_nat_less_exp)
  then show ?thesis unfolding e by (simp add: word_less_nat_alt)
qed

lemma unat_page_off:
  assumes "(p :: u32) mod 4096 = 0" "off < 4096"
  shows "unat (p + off) = unat p + unat off" "unat (p + off) div 4096 = unat p div 4096"
    "unat p = 4096 * (unat p div 4096)"
proof -
  have m: "unat p mod 4096 = 0" using assms(1) word_mod_4096 [of p] by simp
  then show p: "unat p = 4096 * (unat p div 4096)" using mult_div_mod_eq [of 4096 "unat p"] by simp
  have o: "unat off < 4096" using assms(2) by (simp add: word_less_nat_alt)
  have "unat p < 4096 * 1048576" using unat_u32_less [of p] by simp
  then have "unat p div 4096 < 1048576" by (simp add: less_mult_imp_div_less mult.commute)
  then have "unat p + unat off < 4294967296" using p o by linarith
  then show e: "unat (p + off) = unat p + unat off" by (simp add: unat_u32_add)
  show "unat (p + off) div 4096 = unat p div 4096" unfolding e using m o by (simp add: div_add1_eq)
qed

lemma page_off_eq:
  assumes "p mod 4096 = 0" "q mod 4096 = 0" "x < 4096" "y < 4096"
  shows "(p :: u32) + x = q + y \<longleftrightarrow> p = q \<and> x = y"
proof
  assume e: "p + x = q + y"
  then have "unat p div 4096 = unat q div 4096" using unat_page_off(2) [of p x] unat_page_off(2) [of q y] assms by simp
  then have "unat p = unat q" using unat_page_off(3) [of p x] unat_page_off(3) [of q y] assms by simp
  then have "p = q" by (simp add: word_unat_eq_iff)
  then show "p = q \<and> x = y" using e by simp
qed simp

lemma unat_div_exp: "unat (drop_bit n v AND 0x3FF) = unat (v :: u32) div 2 ^ n mod 1024"
proof -
  have "(0x3FF :: u32) = mask 10" by (simp add: mask_eq_exp_minus_1)
  then have e: "drop_bit n v AND 0x3FF = take_bit 10 (drop_bit n v)" by (simp only: take_bit_eq_mask)
  have "unat (take_bit 10 (drop_bit n v)) = take_bit 10 (drop_bit n (take_bit 32 (unat v)))"
    by (simp only: unsigned_take_bit_eq unsigned_drop_bit_eq) simp
  also have "take_bit 32 (unat v) = unat v" using unat_u32_less [of v] by (simp add: take_bit_nat_eq_self)
  finally show ?thesis unfolding e by (simp add: take_bit_eq_mod drop_bit_eq_div)
qed

lemma unat_PDX: "unat (PDX va) = unat va div 4194304"
  unfolding PDX_def unat_div_exp using unat_u32_less [of va] by simp

lemma unat_PTX: "unat (PTX va) = unat va div 4096 mod 1024"
  unfolding PTX_def unat_div_exp by simp

lemma PDX_less: "PDX va < 1024" "4 * PDX va < 4096" and PTX_less: "PTX va < 1024" "4 * PTX va < 4096"
proof -
  have d: "unat (PDX va) < 1024" using unat_PDX [of va] unat_u32_less [of va] by (simp add: less_mult_imp_div_less)
  have t: "unat (PTX va) < 1024" by (simp add: unat_PTX)
  show "PDX va < 1024" "PTX va < 1024" using d t by (simp_all add: word_less_nat_alt)
  have u: "unat (4 * x) = 4 * unat x" if "unat x < 1024" for x :: u32
    using that by (subst unat_mult_lem [THEN iffD1]) simp_all
  show "4 * PDX va < 4096" "4 * PTX va < 4096" using d t by (simp_all add: word_less_nat_alt u)
qed

lemma times_4_eq: "(x :: u32) < 1024 \<Longrightarrow> y < 1024 \<Longrightarrow> 4 * x = 4 * y \<longleftrightarrow> x = y"
proof -
  assume "x < 1024" "y < 1024"
  moreover have u: "unat (4 * x) = 4 * unat x" if "unat x < 1024" for x :: u32
    using that by (subst unat_mult_lem [THEN iffD1]) simp_all
  ultimately show ?thesis by (auto simp: word_unat_eq_iff word_less_nat_alt u)
qed

subsection \<open>The mapping of a page directory\<close>

definition present :: "(u32 \<Rightarrow> u32) \<Rightarrow> u32 \<Rightarrow> u32 \<Rightarrow> bool" where
  "present m pd i \<longleftrightarrow> m (pd + 4 * i) AND PTE_P \<noteq> 0"

definition table :: "(u32 \<Rightarrow> u32) \<Rightarrow> u32 \<Rightarrow> u32 \<Rightarrow> u32" where
  "table m pd i = P2V (PTE_ADDR (m (pd + 4 * i)))"

definition pte_at :: "(u32 \<Rightarrow> u32) \<Rightarrow> u32 \<Rightarrow> u32 \<Rightarrow> u32" where
  "pte_at m pd va = (if present m pd (PDX va) then m (table m pd (PDX va) + 4 * PTX va) else 0)"

definition vm_inv :: "'z kst_scheme \<Rightarrow> u32 list \<Rightarrow> u32 \<Rightarrow> bool" where
  "vm_inv s fl pd \<longleftrightarrow> kmem_inv s fl \<and> page_ok s pd \<and> pd \<notin> set fl \<and>
     (\<forall>i<1024. present (mem s) pd i \<longrightarrow>
        page_ok s (table (mem s) pd i) \<and> table (mem s) pd i \<notin> set fl \<and> table (mem s) pd i \<noteq> pd) \<and>
     (\<forall>i<1024. \<forall>j<1024. present (mem s) pd i \<longrightarrow> present (mem s) pd j \<longrightarrow>
        table (mem s) pd i = table (mem s) pd j \<longrightarrow> i = j)"

definition same_page :: "u32 \<Rightarrow> u32 \<Rightarrow> bool" where
  "same_page a b \<longleftrightarrow> unat a div 4096 = unat b div 4096"

lemma same_page_iff: "same_page a b \<longleftrightarrow> PDX a = PDX b \<and> PTX a = PTX b"
proof -
  have d: "unat a div 4194304 = unat a div 4096 div 1024" for a :: u32 by (simp add: div_mult2_eq [symmetric])
  show ?thesis
    unfolding same_page_def word_unat_eq_iff unat_PDX unat_PTX d by (metis div_mult_mod_eq)
qed

lemma page_ok_aligned: "page_ok s p \<Longrightarrow> p mod 4096 = 0"
  by (simp add: page_ok_def)

lemma vm_invD:
  assumes "vm_inv s fl pd"
  shows "kmem_inv s fl" "pd mod 4096 = 0" "pd \<notin> set fl" "page_ok s pd"
    "\<And>i. i < 1024 \<Longrightarrow> present (mem s) pd i \<Longrightarrow> table (mem s) pd i mod 4096 = 0"
    "\<And>i. i < 1024 \<Longrightarrow> present (mem s) pd i \<Longrightarrow> page_ok s (table (mem s) pd i)"
    "\<And>i. i < 1024 \<Longrightarrow> present (mem s) pd i \<Longrightarrow> table (mem s) pd i \<notin> set fl"
    "\<And>i. i < 1024 \<Longrightarrow> present (mem s) pd i \<Longrightarrow> table (mem s) pd i \<noteq> pd"
    "\<And>i j. i < 1024 \<Longrightarrow> j < 1024 \<Longrightarrow> present (mem s) pd i \<Longrightarrow> present (mem s) pd j \<Longrightarrow>
       table (mem s) pd i = table (mem s) pd j \<Longrightarrow> i = j"
  using assms unfolding vm_inv_def by (blast intro: page_ok_aligned)+

lemma xlate_pte:
  "xlate m pd va = (if pte_at m pd va AND PTE_P = 0 then None
     else Some (P2V (PTE_ADDR (pte_at m pd va)) + (va AND 0xFFF)))"
  by (simp add: xlate_def pte_at_def present_def table_def Let_def)

subsection \<open>Changing one entry\<close>

lemma kmem_inv_mem:
  "kmem_inv s fl \<Longrightarrow> (\<And>v. v \<in> set fl \<Longrightarrow> m v = mem s v) \<Longrightarrow> kmem_inv (s\<lparr>mem := m\<rparr>) fl"
  using free_path_frame [of fl m "mem s" "freelist s"] by (simp add: kmem_inv_def page_ok_def)

lemma page_ok_upd [simp]:
  "page_ok (s\<lparr>mem := m\<rparr>) v = page_ok s v" "page_ok (s\<lparr>mcpu := c\<rparr>) v = page_ok s v"
  "page_ok (s\<lparr>freelist := p\<rparr>) v = page_ok s v"
  by (simp_all add: page_ok_def)

text \<open>Entries of different tables, and of a table and the directory, are different words.\<close>

lemma entry_ne:
  fixes p q :: u32
  assumes p: "p mod 4096 = 0" and q: "q mod 4096 = 0" and pq: "p \<noteq> q" and ij: "i < 1024" "j < 1024"
  shows "p + 4 * i \<noteq> q + 4 * j"
proof -
  have u: "4 * x < 4096" if "x < 1024" for x :: u32
  proof -
    have "unat (4 * x) = 4 * unat x" using that by (subst unat_mult_lem [THEN iffD1]) (simp_all add: word_less_nat_alt)
    then show ?thesis using that by (simp add: word_less_nat_alt)
  qed
  show ?thesis using page_off_eq [OF p q u [OF ij(1)] u [OF ij(2)]] pq by simp
qed

lemma vm_inv_dir:
  assumes inv: "vm_inv s fl pd" and kmem: "kmem_inv s' fl" and k: "kend s' = kend s"
    and dir: "\<And>i. i < 1024 \<Longrightarrow> mem s' (pd + 4 * i) = mem s (pd + 4 * i)"
  shows "vm_inv s' fl pd"
    and "pte_at (mem s') pd va =
      (if present (mem s) pd (PDX va) then mem s' (table (mem s) pd (PDX va) + 4 * PTX va) else 0)"
proof -
  have e: "present (mem s') pd i = present (mem s) pd i" "table (mem s') pd i = table (mem s) pd i" if "i < 1024" for i
    using dir [OF that] by (simp_all add: present_def table_def)
  show "vm_inv s' fl pd" using inv kmem k unfolding vm_inv_def page_ok_def by (simp add: e cong: conj_cong)
  show "pte_at (mem s') pd va =
      (if present (mem s) pd (PDX va) then mem s' (table (mem s) pd (PDX va) + 4 * PTX va) else 0)"
    using e [OF PDX_less(1)] by (simp add: pte_at_def)
qed

lemma set_pte:
  fixes x :: u32
  assumes inv: "vm_inv s fl pd" and pr: "present (mem s) pd (PDX va)"
  defines "s' \<equiv> setmem (\<lambda>m. m(table (mem s) pd (PDX va) + 4 * PTX va := x)) s"
  shows "vm_inv s' fl pd" "pte_at (mem s') pd va' = (if same_page va' va then x else pte_at (mem s) pd va')"
proof -
  let ?t = "table (mem s) pd (PDX va)"
  let ?a = "?t + 4 * PTX va"
  note V = vm_invD [OF inv]
  have t: "?t mod 4096 = 0" "?t \<notin> set fl" "?t \<noteq> pd" using V(5,7,8) [OF PDX_less(1) pr] by auto
  have m: "mem s' = (mem s)(?a := x)" by (simp add: s'_def setmem_def)
  have fl: "mem s' v = mem s v" if "v \<in> set fl" for v
  proof -
    have "v mod 4096 = 0" using V(1) that by (simp add: kmem_inv_def page_ok_def)
    moreover have "v \<noteq> ?t" using that t(2) by auto
    ultimately show ?thesis using entry_ne [of v ?t 0 "PTX va"] t(1) PTX_less(1) by (simp add: m)
  qed
  have k: "kmem_inv s' fl" unfolding s'_def setmem_def using kmem_inv_mem [OF V(1)] fl by (simp add: m)
  have d: "mem s' (pd + 4 * i) = mem s (pd + 4 * i)" if "i < 1024" for i
    using entry_ne [OF V(2) t(1) _ that PTX_less(1)] t(3) by (simp add: m)
  have ke: "kend s' = kend s" by (simp add: s'_def setmem_def)
  show "vm_inv s' fl pd" by (rule vm_inv_dir(1) [OF inv k ke d])
  have a: "table (mem s) pd (PDX va') + 4 * PTX va' = ?a \<longleftrightarrow> same_page va' va" if p: "present (mem s) pd (PDX va')"
  proof (cases "PDX va' = PDX va")
    case True
    then show ?thesis using times_4_eq [OF PTX_less(1) PTX_less(1)] by (simp add: same_page_iff)
  next
    case False
    then have "table (mem s) pd (PDX va') \<noteq> ?t" using V(9) [OF PDX_less(1) PDX_less(1) p pr] by auto
    then show ?thesis using entry_ne [OF V(5) [OF PDX_less(1) p] t(1) _ PTX_less(1) PTX_less(1)] False
      by (simp add: same_page_iff)
  qed
  have e: "pte_at (mem s') pd va' = (if present (mem s) pd (PDX va')
      then mem s' (table (mem s) pd (PDX va') + 4 * PTX va') else 0)"
    by (rule vm_inv_dir(2) [OF inv k ke d])
  have p: "present (mem s) pd (PDX va')" if "same_page va' va" using that pr by (simp add: same_page_iff)
  show "pte_at (mem s') pd va' = (if same_page va' va then x else pte_at (mem s) pd va')"
  proof (cases "present (mem s) pd (PDX va')")
    case True
    then show ?thesis using a [OF True] unfolding e unfolding pte_at_def m by simp
  next
    case False
    then show ?thesis using p unfolding e unfolding pte_at_def by auto
  qed
qed

subsection \<open>Adding a page table\<close>

lemma memset_page_other:
  assumes "p mod 4096 = 0" "w mod 4096 = 0" "p \<noteq> w" "x < 4096"
  shows "memset_words m w c PGSIZE (p + x) = m (p + x)"
proof -
  have "\<not> p + x - w < 4096"
  proof
    assume "p + x - w < 4096"
    then show False using page_off_eq [of p w x "p + x - w"] assms by simp
  qed
  then show ?thesis by (simp add: memset_words_def stosl_def Let_def)
qed

lemma P2V_V2P [simp]: "P2V (V2P v) = v" "V2P (P2V v) = v"
  by (simp_all add: P2V_def V2P_def)

lemma V2P_aligned: "v mod 4096 = 0 \<Longrightarrow> V2P v mod 4096 = 0" "v mod 4096 = 0 \<Longrightarrow> P2V v mod 4096 = 0"
proof -
  have "(v + 0x80000000) mod 4096 = 0" if "v mod 4096 = 0" for v :: u32
  proof -
    have "unat (v + 0x80000000) mod 4096 = (unat v + 0x80000000) mod 4294967296 mod 4096"
      by (simp add: unat_word_ariths)
    also have "\<dots> = (unat v mod 4096 + 0x80000000) mod 4096" by (simp add: mod_mod_cancel mod_simps)
    also have "unat v mod 4096 = 0" using that word_mod_4096 [of v] by simp
    finally show ?thesis using word_mod_4096 [of "v + 0x80000000"] by (simp add: unat_eq_zero)
  qed
  moreover have "v - 0x80000000 = v + 0x80000000" for v :: u32 by simp
  ultimately show "v mod 4096 = 0 \<Longrightarrow> V2P v mod 4096 = 0" "v mod 4096 = 0 \<Longrightarrow> P2V v mod 4096 = 0"
    unfolding V2P_def P2V_def KERNBASE_def by metis+
qed

definition add_table :: "u32 \<Rightarrow> u32 \<Rightarrow> u32 \<Rightarrow> (u32 \<Rightarrow> u32) \<Rightarrow> u32 \<Rightarrow> u32" where
  "add_table pd i v m = (memset_words m v 0 PGSIZE)(pd + 4 * i := V2P v OR PTE_P OR PTE_W OR PTE_U)"

lemma add_table_ok:
  assumes inv: "vm_inv s (v # ps) pd" and k: "kmem_inv s1 ps" and s1: "mem s1 = mem s" "kend s1 = kend s"
    and ab: "\<not> present (mem s) pd (PDX va)"
  defines "s' \<equiv> s1\<lparr>mem := add_table pd (PDX va) v (mem s)\<rparr>"
  shows "vm_inv s' ps pd" "present (mem s') pd (PDX va)" "table (mem s') pd (PDX va) = v"
    "pte_at (mem s') pd va' = pte_at (mem s) pd va'"
proof -
  note V = vm_invD [OF inv]
  let ?e = "V2P v OR PTE_P OR PTE_W OR PTE_U"
  have v: "page_ok s v" "v \<notin> set ps" using V(1) by (auto simp: kmem_inv_def)
  have va: "v mod 4096 = 0" "v \<noteq> pd" using v V(3) page_ok_aligned by auto
  have m: "mem s' = add_table pd (PDX va) v (mem s)" by (simp add: s'_def)
  have po: "page_ok s' p = page_ok s p" for p by (simp add: s'_def page_ok_def s1)
  have far: "mem s' (p + 4 * i) = mem s (p + 4 * i)"
    if "p mod 4096 = 0" "p \<noteq> v" "i < 1024" "p + 4 * i \<noteq> pd + 4 * PDX va" for p i
  proof -
    have "unat (4 * i) = 4 * unat i" using that(3) by (subst unat_mult_lem [THEN iffD1]) (simp_all add: word_less_nat_alt)
    then have "4 * i < 4096" using that(3) by (simp add: word_less_nat_alt)
    then show ?thesis using that memset_page_other [OF that(1) va(1) that(2)] by (simp add: m add_table_def)
  qed
  have dir: "mem s' (pd + 4 * i) = (if i = PDX va then ?e else mem s (pd + 4 * i))" if "i < 1024" for i
  proof (cases "i = PDX va")
    case True
    then show ?thesis by (simp add: m add_table_def)
  next
    case False
    then have "pd + 4 * i \<noteq> pd + 4 * PDX va" using times_4_eq [OF that PDX_less(1)] by simp
    then show ?thesis using far [OF V(2) _ that] va(2) False by simp
  qed
  have "PTE_ADDR (V2P v OR 7) = V2P v" by (rule PTE_ADDR_or [OF V2P_aligned(1) [OF va(1)]]) simp
  moreover have "?e = V2P v OR 7" by (simp add: or.assoc)
  ultimately have pe: "PTE_ADDR ?e = V2P v" by simp
  have "bit ?e 0" by (simp add: bit_simps)
  then have bp: "?e AND PTE_P \<noteq> 0" by (metis PTE_P_def and_one_eq odd_iff_mod_2_eq_one bit_0 zero_neq_one)
  have new: "present (mem s') pd (PDX va)" "table (mem s') pd (PDX va) = v"
    using dir [OF PDX_less(1), of va] bp pe by (simp_all add: present_def table_def)
  then show "present (mem s') pd (PDX va)" "table (mem s') pd (PDX va) = v" .
  have old: "present (mem s') pd i = present (mem s) pd i" "table (mem s') pd i = table (mem s) pd i"
    if "i < 1024" "i \<noteq> PDX va" for i
    using dir [OF that(1)] that(2) by (simp_all add: present_def table_def)
  have nv: "table (mem s) pd i \<noteq> v" if "i < 1024" "present (mem s) pd i" for i using V(7) [OF that] by auto
  have fl: "mem s' w = mem s w" if "w \<in> set ps" for w
  proof -
    have w: "w mod 4096 = 0" "w \<noteq> v" "w \<noteq> pd" using that V(1,3) v(2) page_ok_aligned by (auto simp: kmem_inv_def)
    show ?thesis using far [OF w(1,2), of 0] entry_ne [OF w(1) V(2) w(3), of 0 "PDX va"] PDX_less(1) by simp
  qed
  have k': "kmem_inv s' ps" unfolding s'_def using kmem_inv_mem [OF k] fl s1(1) by (simp add: m [symmetric])
  show "vm_inv s' ps pd" unfolding vm_inv_def po
  proof (intro conjI allI impI)
    show "kmem_inv s' ps" "page_ok s pd" "pd \<notin> set ps" using k' V(3,4) by simp_all
    fix i :: u32 assume i: "i < 1024" "present (mem s') pd i"
    show "page_ok s (table (mem s') pd i)" "table (mem s') pd i \<notin> set ps" "table (mem s') pd i \<noteq> pd"
      by (cases "i = PDX va"; use i new v va V(6-8) old in auto)+
    fix j assume j: "j < 1024" "present (mem s') pd j" "table (mem s') pd i = table (mem s') pd j"
    show "i = j"
      by (cases "i = PDX va"; cases "j = PDX va"; use i j new nv old V(9) [of i j] in auto)
  qed
  show "pte_at (mem s') pd va' = pte_at (mem s) pd va'"
  proof (cases "PDX va' = PDX va")
    case True
    have "v + 4 * PTX va' \<noteq> pd + 4 * PDX va" using entry_ne [OF va(1) V(2) va(2) PTX_less(1) PDX_less(1)] .
    moreover have "memset_words (mem s) v 0 PGSIZE (v + 4 * PTX va') = 0"
      using PTX_less(2) [of va'] by (intro memset_words_zero) simp
    ultimately have "mem s' (v + 4 * PTX va') = 0" by (simp add: m add_table_def)
    then show ?thesis using True new ab by (simp add: pte_at_def)
  next
    case False
    have "mem s' (table (mem s) pd (PDX va') + 4 * PTX va') = mem s (table (mem s) pd (PDX va') + 4 * PTX va')"
      if "present (mem s) pd (PDX va')"
      using far V(5,8) nv entry_ne [OF _ V(2) _ PTX_less(1) PDX_less(1)] that PDX_less(1) PTX_less(1) by metis
    then show ?thesis using old [OF PDX_less(1) False] by (simp add: pte_at_def)
  qed
qed

text \<open>The three cases of \<open>walkpgdir\<close>.\<close>

lemma walk_present:
  "present (mem s) pd (PDX va) \<Longrightarrow> walkpgdir pd va al s = Inr (table (mem s) pd (PDX va) + 4 * PTX va, s)"
  by (simp add: walkpgdir_def present_def table_def Let_def)

lemma walk_adds:
  assumes inv: "vm_inv s (v # ps) pd" and ab: "\<not> present (mem s) pd (PDX va)"
  shows "\<exists>s'. walkpgdir pd va True s = Inr (v + 4 * PTX va, s') \<and> vm_inv s' ps pd \<and>
     present (mem s') pd (PDX va) \<and> table (mem s') pd (PDX va) = v \<and>
     (\<forall>va'. pte_at (mem s') pd va' = pte_at (mem s) pd va')"
proof -
  let ?s1 = "s\<lparr>mcpu := if use_lock s then settle (mcpu s) else mcpu s, freelist := mem s v\<rparr>"
  note V = vm_invD [OF inv]
  have k: "kalloc s = Inr (v, ?s1)" by (rule kalloc_page [OF V(1)])
  have v0: "v \<noteq> 0" using V(1) page_ok_nonzero by (auto simp: kmem_inv_def)
  have k1: "kmem_inv ?s1 ps" using kalloc_inv [OF V(1) k] by simp
  let ?s' = "?s1\<lparr>mem := add_table pd (PDX va) v (mem s)\<rparr>"
  have "walkpgdir pd va True s = Inr (v + 4 * PTX va, ?s')"
    using ab v0 by (simp add: walkpgdir_def present_def k Let_def setmem_def add_table_def)
  then show ?thesis using add_table_ok [OF inv k1 _ _ ab] by auto
qed

lemma walk_fails:
  assumes inv: "vm_inv s [] pd" and ab: "\<not> present (mem s) pd (PDX va)"
  shows "\<exists>s'. walkpgdir pd va True s = Inr (0, s') \<and> vm_inv s' [] pd \<and> mem s' = mem s"
proof -
  let ?s1 = "s\<lparr>mcpu := if use_lock s then settle (mcpu s) else mcpu s\<rparr>"
  note V = vm_invD [OF inv]
  have k: "kalloc s = Inr (0, ?s1)" by (rule kalloc_empty [OF V(1)])
  have "kmem_inv ?s1 []" using V(1) by (simp add: kmem_inv_def cpu_ok_settle)
  then have "vm_inv ?s1 [] pd" using vm_inv_dir(1) [OF inv, of ?s1] by simp
  then show ?thesis using ab by (simp add: walkpgdir_def present_def k Let_def)
qed

subsection \<open>Mapping a range\<close>

lemma entry_nonzero: "p mod 4096 = 0 \<Longrightarrow> p \<noteq> 0 \<Longrightarrow> (p :: u32) + 4 * PTX va \<noteq> 0"
  using entry_ne [of p 0 "PTX va" 0] PTX_less(1) by simp

lemma map_one:
  assumes inv: "vm_inv s fl pd" and free: "pte_at (mem s) pd a AND PTE_P = 0"
  shows "(\<exists>s'. mappages_loop n pd a pa prm s = Inr (-1, s') \<and> vm_inv s' [] pd \<and> mem s' = mem s \<and> fl = []) \<or>
    (\<exists>s1 fl1. mappages_loop n pd a pa prm s =
        (case n of 0 \<Rightarrow> Inr (0, s1) | Suc k \<Rightarrow> mappages_loop k pd (a + PGSIZE) (pa + PGSIZE) prm s1) \<and>
      vm_inv s1 fl1 pd \<and> length fl \<le> Suc (length fl1) \<and>
      (\<forall>va. pte_at (mem s1) pd va = (if same_page va a then pa OR prm OR PTE_P else pte_at (mem s) pd va)))"
proof -
  have store: "\<exists>s1. mappages_loop n pd a pa prm s =
        (case n of 0 \<Rightarrow> Inr (0, s1) | Suc k \<Rightarrow> mappages_loop k pd (a + PGSIZE) (pa + PGSIZE) prm s1) \<and>
      vm_inv s1 fl1 pd \<and>
      (\<forall>va. pte_at (mem s1) pd va = (if same_page va a then pa OR prm OR PTE_P else pte_at (mem s) pd va))"
    if w: "walkpgdir pd a True s = Inr (table (mem t) pd (PDX a) + 4 * PTX a, t)" and i: "vm_inv t fl1 pd"
      and pr: "present (mem t) pd (PDX a)" and old: "\<forall>va. pte_at (mem t) pd va = pte_at (mem s) pd va" for t fl1
  proof -
    let ?p = "table (mem t) pd (PDX a) + 4 * PTX a"
    have "?p \<noteq> 0" using vm_invD(5,6) [OF i PDX_less(1) pr] page_ok_nonzero by (intro entry_nonzero) auto
    moreover have "mem t ?p = pte_at (mem s) pd a" using old pr by (simp add: pte_at_def [of "mem t"] flip: old)
    then have "mem t ?p AND PTE_P = 0" using free by simp
    ultimately have "mappages_loop n pd a pa prm s =
        (case n of 0 \<Rightarrow> Inr (0, setmem (\<lambda>m. m(?p := pa OR prm OR PTE_P)) t)
         | Suc k \<Rightarrow> mappages_loop k pd (a + PGSIZE) (pa + PGSIZE) prm (setmem (\<lambda>m. m(?p := pa OR prm OR PTE_P)) t))"
      by (subst mappages_loop.simps) (simp add: w Let_def split: nat.split)
    then show ?thesis using set_pte [OF i pr, of "pa OR prm OR PTE_P"] old by auto
  qed
  show ?thesis
  proof (cases "present (mem s) pd (PDX a)")
    case True
    then obtain s1 where "mappages_loop n pd a pa prm s =
        (case n of 0 \<Rightarrow> Inr (0, s1) | Suc k \<Rightarrow> mappages_loop k pd (a + PGSIZE) (pa + PGSIZE) prm s1)"
      "vm_inv s1 fl pd"
      "\<forall>va. pte_at (mem s1) pd va = (if same_page va a then pa OR prm OR PTE_P else pte_at (mem s) pd va)"
      using store [OF walk_present [OF True] inv True] by blast
    then show ?thesis by (intro disjI2 exI [of _ s1] exI [of _ fl]) simp
  next
    case False
    show ?thesis
    proof (cases fl)
      case Nil
      then obtain s' where "walkpgdir pd a True s = Inr (0, s')" "vm_inv s' [] pd" "mem s' = mem s"
        using walk_fails [of s pd a] inv False by auto
      then show ?thesis using Nil by (subst mappages_loop.simps) simp
    next
      case (Cons v ps)
      then obtain t where t: "walkpgdir pd a True s = Inr (v + 4 * PTX a, t)" "vm_inv t ps pd"
        "present (mem t) pd (PDX a)" "table (mem t) pd (PDX a) = v" "\<forall>va. pte_at (mem t) pd va = pte_at (mem s) pd va"
        using walk_adds [of s v ps pd a] inv False by auto
      then obtain s1 where "mappages_loop n pd a pa prm s =
          (case n of 0 \<Rightarrow> Inr (0, s1) | Suc k \<Rightarrow> mappages_loop k pd (a + PGSIZE) (pa + PGSIZE) prm s1)"
        "vm_inv s1 ps pd"
        "\<forall>va. pte_at (mem s1) pd va = (if same_page va a then pa OR prm OR PTE_P else pte_at (mem s) pd va)"
        using store [of t ps] by metis
      then show ?thesis using Cons by (intro disjI2 exI [of _ s1] exI [of _ ps]) simp
    qed
  qed
qed

lemma map_remap:
  assumes inv: "vm_inv s fl pd" and used: "pte_at (mem s) pd a AND PTE_P \<noteq> 0"
  shows "mappages_loop n pd a pa prm s = panic ''remap''"
proof -
  have pr: "present (mem s) pd (PDX a)" using used by (simp add: pte_at_def split: if_splits)
  have "table (mem s) pd (PDX a) + 4 * PTX a \<noteq> 0"
    using vm_invD(5,6) [OF inv PDX_less(1) pr] page_ok_nonzero by (intro entry_nonzero) auto
  then show ?thesis using used pr
    by (subst mappages_loop.simps) (simp add: walk_present [OF pr] pte_at_def)
qed

definition pn :: "u32 \<Rightarrow> nat" where
  "pn va = unat va div 4096"

definition run_pte :: "u32 \<Rightarrow> u32 \<Rightarrow> u32 \<Rightarrow> u32 \<Rightarrow> u32" where
  "run_pte a pa prm va = (pa + 4096 * of_nat (pn va - pn a)) OR prm OR PTE_P"

lemma pn_step:
  assumes "unat a + 4096 < 4294967296"
  shows "pn (a + 4096) = Suc (pn a)" "unat (a + 4096) = unat a + 4096"
proof -
  show u: "unat (a + 4096) = unat a + 4096" using assms by (simp add: unat_u32_add)
  show "pn (a + 4096) = Suc (pn a)" by (simp add: pn_def u)
qed

lemma mappages_loop_ok:
  assumes "vm_inv s fl pd" "unat a + 4096 * n < 4294967296"
    "\<And>va. pn a \<le> pn va \<Longrightarrow> pn va \<le> pn a + n \<Longrightarrow> pte_at (mem s) pd va AND PTE_P = 0"
  shows "\<exists>r s' fl' k. mappages_loop n pd a pa prm s = Inr (r, s') \<and> vm_inv s' fl' pd \<and>
    (r = 0 \<and> k = Suc n \<or> r = -1 \<and> k \<le> n \<and> fl' = [] \<and> length fl \<le> n) \<and>
    (\<forall>va. pte_at (mem s') pd va =
       (if pn a \<le> pn va \<and> pn va < pn a + k then run_pte a pa prm va else pte_at (mem s) pd va))"
  using assms
proof (induction n arbitrary: s fl a pa)
  case 0
  have "pte_at (mem s) pd a AND PTE_P = 0" using 0(3) by simp
  from map_one [OF 0(1) this, of 0 pa prm] show ?case
  proof (elim disjE exE conjE)
    fix s' assume "mappages_loop 0 pd a pa prm s = Inr (- 1, s')" "vm_inv s' [] pd" "mem s' = mem s" "fl = []"
    then show ?case by (intro exI [of _ "-1"] exI [of _ s'] exI [of _ "[]"] exI [of _ 0]) auto
  next
    fix s1 fl1 assume e: "mappages_loop 0 pd a pa prm s =
        (case 0 of 0 \<Rightarrow> Inr (0, s1) | Suc k \<Rightarrow> mappages_loop k pd (a + PGSIZE) (pa + PGSIZE) prm s1)"
      and "vm_inv s1 fl1 pd" "length fl \<le> Suc (length fl1)"
      and p: "\<forall>va. pte_at (mem s1) pd va = (if same_page va a then pa OR prm OR PTE_P else pte_at (mem s) pd va)"
    moreover have "same_page va a \<longleftrightarrow> pn a \<le> pn va \<and> pn va < pn a + Suc 0" for va by (auto simp: same_page_def pn_def)
    ultimately show ?case
      by (intro exI [of _ 0] exI [of _ s1] exI [of _ fl1] exI [of _ "Suc 0"]) (auto simp: run_pte_def)
  qed
next
  case (Suc n)
  have st: "pn (a + 4096) = Suc (pn a)" "unat (a + 4096) = unat a + 4096" using pn_step [of a] Suc.prems(2) by simp_all
  have "pte_at (mem s) pd a AND PTE_P = 0" using Suc.prems(3) by simp
  from map_one [OF Suc.prems(1) this, of "Suc n" pa prm] show ?case
  proof (elim disjE exE conjE)
    fix s' assume "mappages_loop (Suc n) pd a pa prm s = Inr (- 1, s')" "vm_inv s' [] pd" "mem s' = mem s" "fl = []"
    then show ?case by (intro exI [of _ "-1"] exI [of _ s'] exI [of _ "[]"] exI [of _ 0]) auto
  next
    fix s1 fl1 assume e: "mappages_loop (Suc n) pd a pa prm s =
        (case Suc n of 0 \<Rightarrow> Inr (0, s1) | Suc k \<Rightarrow> mappages_loop k pd (a + PGSIZE) (pa + PGSIZE) prm s1)"
      and i: "vm_inv s1 fl1 pd" and len: "length fl \<le> Suc (length fl1)"
      and p: "\<forall>va. pte_at (mem s1) pd va = (if same_page va a then pa OR prm OR PTE_P else pte_at (mem s) pd va)"
    have sp: "same_page va a \<longleftrightarrow> pn va = pn a" for va by (simp add: same_page_def pn_def)
    have "\<exists>r s' fl' k. mappages_loop n pd (a + 4096) (pa + 4096) prm s1 = Inr (r, s') \<and> vm_inv s' fl' pd \<and>
      (r = 0 \<and> k = Suc n \<or> r = -1 \<and> k \<le> n \<and> fl' = [] \<and> length fl1 \<le> n) \<and>
      (\<forall>va. pte_at (mem s') pd va =
       (if pn (a + 4096) \<le> pn va \<and> pn va < pn (a + 4096) + k then run_pte (a + 4096) (pa + 4096) prm va
        else pte_at (mem s1) pd va))"
      using Suc.prems(2,3) p by (intro Suc.IH [OF i]) (auto simp: st sp)
    then obtain r s' fl' k where R: "mappages_loop n pd (a + 4096) (pa + 4096) prm s1 = Inr (r, s')" "vm_inv s' fl' pd"
      "r = 0 \<and> k = Suc n \<or> r = -1 \<and> k \<le> n \<and> fl' = [] \<and> length fl1 \<le> n"
      "\<forall>va. pte_at (mem s') pd va =
       (if pn (a + 4096) \<le> pn va \<and> pn va < pn (a + 4096) + k then run_pte (a + 4096) (pa + 4096) prm va
        else pte_at (mem s1) pd va)" by blast
    have q: "run_pte (a + 4096) (pa + 4096) prm va = run_pte a pa prm va" if v: "Suc (pn a) \<le> pn va" for va
    proof -
      have d: "pn va - pn a = Suc (pn va - Suc (pn a))" using v by simp
      show ?thesis unfolding run_pte_def st d by (simp add: algebra_simps)
    qed
    have "\<forall>va. pte_at (mem s') pd va =
       (if pn a \<le> pn va \<and> pn va < pn a + Suc k then run_pte a pa prm va else pte_at (mem s) pd va)"
    proof
      fix va
      show "pte_at (mem s') pd va =
       (if pn a \<le> pn va \<and> pn va < pn a + Suc k then run_pte a pa prm va else pte_at (mem s) pd va)"
      proof (cases "pn va = pn a")
        case True
        then show ?thesis using R(4) p by (simp add: st sp run_pte_def)
      next
        case False
        then show ?thesis using R(4) p q by (auto simp: st sp)
      qed
    qed
    then show ?case using e R(1-3) len
      by (intro exI [of _ r] exI [of _ s'] exI [of _ fl'] exI [of _ "Suc k"]) auto
  qed
qed

lemma aligned_run: "pa mod 4096 = 0 \<Longrightarrow> (pa + 4096 * of_nat k :: u32) mod 4096 = 0"
proof (induction k)
  case (Suc k)
  let ?x = "pa + 4096 * of_nat k :: u32"
  have "unat (?x + 4096) mod 4096 = (unat ?x + 4096) mod 4294967296 mod 4096" by (simp add: unat_word_ariths)
  also have "\<dots> = (unat ?x mod 4096 + 4096) mod 4096" by (simp add: mod_mod_cancel mod_simps)
  also have "unat ?x mod 4096 = 0" using Suc word_mod_4096 [of ?x] by simp
  finally have "(?x + 4096) mod 4096 = 0" using word_mod_4096 [of "?x + 4096"] by (simp add: unat_eq_zero)
  then show ?case by (simp add: algebra_simps)
qed simp

lemma unat_PGROUNDDOWN: "unat (PGROUNDDOWN va) = 4096 * pn va"
proof -
  have "unat (va AND 0xFFF) = unat va mod 4096"
  proof -
    have "va AND 0xFFF = take_bit 12 va" by (simp add: take_bit_eq_mask mask_eq_exp_minus_1)
    also have "unat \<dots> = unat va mod 4096" by (simp only: unsigned_take_bit_eq) (simp add: take_bit_eq_mod)
    finally show ?thesis .
  qed
  moreover have "va AND 0xFFF \<le> va" by (rule word_and_le2)
  moreover have "PGROUNDDOWN va = va - (va AND 0xFFF)" using mod_page [of va] by (simp add: algebra_simps)
  ultimately have "unat (PGROUNDDOWN va) = unat va - unat va mod 4096" by (simp add: unat_u32_sub word_le_nat_alt)
  then show ?thesis by (simp add: pn_def minus_mod_eq_mult_div)
qed

lemma pn_PGROUNDDOWN [simp]: "pn (PGROUNDDOWN va) = pn va"
  by (simp add: pn_def unat_PGROUNDDOWN)

lemma run_pte_PGROUNDDOWN [simp]: "run_pte (PGROUNDDOWN va) pa prm x = run_pte va pa prm x"
  by (simp add: run_pte_def)

text \<open>Where \<open>mappages\<close> maps: every page that the \<open>len\<close> bytes from \<open>va\<close> touch.\<close>

definition in_range :: "u32 \<Rightarrow> u32 \<Rightarrow> u32 \<Rightarrow> bool" where
  "in_range va len x \<longleftrightarrow> pn va \<le> pn x \<and> pn x \<le> pn (va + len - 1)"

lemma range_le:
  assumes len: "0 < len" "unat va + unat len \<le> 4294967296"
  shows "pn va \<le> pn (va + len - 1)"
proof -
  have l: "0 < unat len" using len(1) by (simp add: word_less_nat_alt)
  have u: "unat (va + len - 1) = unat va + (unat len - 1)"
  proof -
    have e: "va + len - 1 = va + (len - 1)" by simp
    have "unat (len - 1) = unat len - 1" using l by (simp add: unat_u32_sub)
    then show ?thesis unfolding e using len(2) l unat_add_lem [of va "len - 1"] by auto
  qed
  show ?thesis unfolding pn_def u by (rule div_le_mono) simp
qed

lemma mappages_ok:
  assumes inv: "vm_inv s fl pd" and len: "0 < len" "unat va + unat len \<le> 4294967296"
    and free: "\<And>x. in_range va len x \<Longrightarrow> pte_at (mem s) pd x AND PTE_P = 0"
  shows "\<exists>r s' fl' k. mappages pd va len pa prm s = Inr (r, s') \<and> vm_inv s' fl' pd \<and>
    (r = 0 \<and> k = Suc (pn (va + len - 1) - pn va) \<or>
     r = -1 \<and> k \<le> pn (va + len - 1) - pn va \<and> fl' = [] \<and> length fl \<le> pn (va + len - 1) - pn va) \<and>
    (\<forall>x. pte_at (mem s') pd x =
       (if pn va \<le> pn x \<and> pn x < pn va + k then run_pte va pa prm x else pte_at (mem s) pd x))"
proof -
  let ?n = "pn (va + len - 1) - pn va"
  have le: "pn va \<le> pn (va + len - 1)" by (rule range_le [OF len])
  have d: "unat ((PGROUNDDOWN (va + len - 1) - PGROUNDDOWN va) div PGSIZE) = ?n"
  proof -
    have "unat (PGROUNDDOWN (va + len - 1) - PGROUNDDOWN va) = 4096 * pn (va + len - 1) - 4096 * pn va"
      using le by (simp add: unat_u32_sub unat_PGROUNDDOWN)
    then have "unat (PGROUNDDOWN (va + len - 1) - PGROUNDDOWN va) = 4096 * ?n" by (simp add: diff_mult_distrib2)
    then show ?thesis by (simp add: unat_div)
  qed
  have e: "mappages pd va len pa prm s = mappages_loop ?n pd (PGROUNDDOWN va) pa prm s"
    by (simp only: mappages_def Let_def d)
  have "4096 * pn (va + len - 1) \<le> unat (va + len - 1)" by (simp add: pn_def)
  then have "unat (PGROUNDDOWN va) + 4096 * ?n < 4294967296"
    using unat_u32_less [of "va + len - 1"] le by (simp add: unat_PGROUNDDOWN diff_mult_distrib2)
  then show ?thesis
    using mappages_loop_ok [OF inv, of "PGROUNDDOWN va" ?n pa prm] free le
    by (simp only: e in_range_def pn_PGROUNDDOWN run_pte_PGROUNDDOWN le_add_diff_inverse)
qed

end
