(* ===== verification/VmProps.thy ===== *)
theory VmProps
  imports VmMap BootState
begin

text \<open>
  The mapping after \<open>mappages\<close>.
\<close>

lemma run_pte_flags:
  assumes "pa mod 4096 = 0" "prm < 4096"
  shows "run_pte va pa prm x AND PTE_P \<noteq> 0" "PTE_ADDR (run_pte va pa prm x) = pa + 4096 * of_nat (pn x - pn va)"
    "PTE_FLAGS (run_pte va pa prm x) = prm OR PTE_P"
proof -
  let ?a = "pa + 4096 * of_nat (pn x - pn va) :: u32"
  have a: "?a mod 4096 = 0" by (rule aligned_run [OF assms(1)])
  have f: "prm OR 1 < 4096" using or_less_4096 [OF assms(2), of 1] by simp
  have e: "run_pte va pa prm x = ?a OR (prm OR 1)" by (simp add: run_pte_def or.assoc)
  show "PTE_ADDR (run_pte va pa prm x) = ?a" unfolding e by (rule PTE_ADDR_or [OF a f])
  have m: "(0xFFF :: u32) = mask 12" by (simp add: mask_eq_exp_minus_1)
  show "PTE_FLAGS (run_pte va pa prm x) = prm OR PTE_P"
  proof (rule bit_word_eqI)
    fix n assume "n < LENGTH(32)"
    moreover have "bit ?a n \<Longrightarrow> 12 \<le> n" "bit (prm OR 1) n \<Longrightarrow> n < 12" by (fact low_bits [OF a], fact high_bits [OF f])
    ultimately show "bit (PTE_FLAGS (run_pte va pa prm x)) n = bit (prm OR PTE_P) n"
      unfolding PTE_FLAGS_def e m bit_and_iff bit_or_iff [of ?a] bit_mask_iff by auto
  qed
  have "bit (run_pte va pa prm x) 0" by (simp add: run_pte_def bit_simps)
  then show "run_pte va pa prm x AND PTE_P \<noteq> 0"
    by (metis PTE_P_def and_one_eq odd_iff_mod_2_eq_one bit_0 zero_neq_one)
qed

lemma range_offset:
  assumes "pn va \<le> pn x"
  shows "4096 * of_nat (pn x - pn va) + (x AND 0xFFF) = x - PGROUNDDOWN va"
proof -
  obtain k where k: "pn x = pn va + k" using assms le_Suc_ex by blast
  have "of_nat (unat (PGROUNDDOWN y)) = (of_nat (4096 * pn y) :: u32)" for y by (simp only: unat_PGROUNDDOWN)
  then have g: "PGROUNDDOWN y = 4096 * of_nat (pn y)" for y by simp
  have "x AND 0xFFF = x - PGROUNDDOWN x" by (rule mod_page [symmetric])
  also have "\<dots> = x - PGROUNDDOWN va - 4096 * of_nat k" by (simp add: g k algebra_simps)
  finally show ?thesis by (simp add: k)
qed

text \<open>
  C6: Mapping pages.  On a well-formed page directory in which the pages of the range are not
  mapped yet, \<open>mappages\<close> ends without a panic.  When it returns 0, the hardware translates every
  address of the range to the memory at the same distance from \<open>pa\<close>, with the given permissions;
  every other address is translated as before, and the directory is well formed still: no page
  table is shared, and none is on the free list.  It returns -1 only when memory has run out,
  and then no translation outside of the range has changed either.  If a page of the range's
  start is mapped already, it panics.
\<close>

theorem mappages_maps:
  assumes inv: "vm_inv s fl pd" and len: "0 < len" "unat va + unat len \<le> 4294967296"
    and pa: "pa mod 4096 = 0" and prm: "prm < 4096"
  shows "(pte_at (mem s) pd va AND PTE_P \<noteq> 0 \<longrightarrow> mappages pd va len pa prm s = panic ''remap'') \<and>
    ((\<forall>x. in_range va len x \<longrightarrow> pte_at (mem s) pd x AND PTE_P = 0) \<longrightarrow>
      (\<exists>r s' fl'. mappages pd va len pa prm s = Inr (r, s') \<and> vm_inv s' fl' pd \<and>
        (\<forall>x. \<not> in_range va len x \<longrightarrow> xlate (mem s') pd x = xlate (mem s) pd x) \<and>
        (r = 0 \<and> (\<forall>x. in_range va len x \<longrightarrow> xlate (mem s') pd x = Some (P2V (pa + (x - PGROUNDDOWN va))) \<and>
            PTE_FLAGS (pte_at (mem s') pd x) = prm OR PTE_P) \<or>
         r = -1 \<and> fl' = [] \<and> length fl \<le> pn (va + len - 1) - pn va)))"
proof (intro conjI impI)
  assume "pte_at (mem s) pd va AND PTE_P \<noteq> 0"
  moreover have "same_page (PGROUNDDOWN va) va" using pn_PGROUNDDOWN [of va] by (simp add: same_page_def pn_def)
  then have "pte_at (mem s) pd (PGROUNDDOWN va) = pte_at (mem s) pd va" by (simp add: pte_at_def same_page_iff)
  ultimately have "pte_at (mem s) pd (PGROUNDDOWN va) AND PTE_P \<noteq> 0" by simp
  then show "mappages pd va len pa prm s = panic ''remap''" using map_remap [OF inv] by (simp add: mappages_def Let_def)
next
  assume free: "\<forall>x. in_range va len x \<longrightarrow> pte_at (mem s) pd x AND PTE_P = 0"
  obtain r s' fl' k where M: "mappages pd va len pa prm s = Inr (r, s')" "vm_inv s' fl' pd"
    "r = 0 \<and> k = Suc (pn (va + len - 1) - pn va) \<or>
     r = -1 \<and> k \<le> pn (va + len - 1) - pn va \<and> fl' = [] \<and> length fl \<le> pn (va + len - 1) - pn va"
    and P': "\<forall>x. pte_at (mem s') pd x =
       (if pn va \<le> pn x \<and> pn x < pn va + k then run_pte va pa prm x else pte_at (mem s) pd x)"
    using mappages_ok [OF inv len spec [OF free, THEN mp], of pa prm] by blast
  note P = P' [rule_format]
  have "xlate (mem s') pd x = xlate (mem s) pd x" if "\<not> in_range va len x" for x
  proof -
    have "pte_at (mem s') pd x = pte_at (mem s) pd x" using that P [of x] M(3) range_le [OF len] by (auto simp: in_range_def)
    then show ?thesis by (simp add: xlate_pte)
  qed
  moreover have "xlate (mem s') pd x = Some (P2V (pa + (x - PGROUNDDOWN va))) \<and>
      PTE_FLAGS (pte_at (mem s') pd x) = prm OR PTE_P" if "r = 0" "in_range va len x" for x
  proof -
    have "pte_at (mem s') pd x = run_pte va pa prm x" using that M(3) P [of x] by (auto simp: in_range_def)
    moreover have "P2V (pa + 4096 * of_nat (pn x - pn va)) + (x AND 0xFFF) = P2V (pa + (x - PGROUNDDOWN va))"
      using range_offset [of va x] that(2) by (simp add: P2V_def in_range_def algebra_simps)
    ultimately show ?thesis using run_pte_flags [OF pa prm, of va x] by (simp add: xlate_pte)
  qed
  ultimately show "\<exists>r s' fl'. mappages pd va len pa prm s = Inr (r, s') \<and> vm_inv s' fl' pd \<and>
        (\<forall>x. \<not> in_range va len x \<longrightarrow> xlate (mem s') pd x = xlate (mem s) pd x) \<and>
        (r = 0 \<and> (\<forall>x. in_range va len x \<longrightarrow> xlate (mem s') pd x = Some (P2V (pa + (x - PGROUNDDOWN va))) \<and>
            PTE_FLAGS (pte_at (mem s') pd x) = prm OR PTE_P) \<or>
         r = -1 \<and> fl' = [] \<and> length fl \<le> pn (va + len - 1) - pn va)"
    using M by blast
qed

theorem mappages_maps_witness:
  "\<exists>s'. mappages 0x80400000 0x1000 4096 0x600000 6 one_page = Inr (0, s') \<and>
     xlate (mem s') 0x80400000 0x1234 = Some 0x80600234 \<and> xlate (mem s') 0x80400000 0x2234 = None"
proof -
  have m: "mem one_page = (\<lambda>_. 0)" by (simp add: one_page_def idle_pst_def)
  have "page_ok one_page 0x80400000" by (simp add: page_ok_def one_page_def idle_pst_def V2P_def)
  then have i: "vm_inv one_page [0x80500000] 0x80400000" using one_page_free
    by (simp add: vm_inv_def m present_def)
  have p: "\<forall>x. in_range 0x1000 4096 x \<longrightarrow> pte_at (mem one_page) 0x80400000 x AND PTE_P = 0"
    by (simp add: pte_at_def m present_def)
  have r: "in_range 0x1000 4096 0x1234" "\<not> in_range 0x1000 4096 0x2234" by (simp_all add: in_range_def pn_def)
  have n: "xlate (mem one_page) 0x80400000 0x2234 = None" by (simp add: xlate_def m)
  have g: "P2V (0x600000 + (0x1234 - PGROUNDDOWN 0x1000)) = 0x80600234" by (simp add: PGROUNDDOWN_def P2V_def)
  have k: "pn (0x1000 + 4096 - 1) - pn 0x1000 = 0" by (simp add: pn_def)
  have "\<exists>r s' fl'. mappages 0x80400000 0x1000 4096 0x600000 6 one_page = Inr (r, s') \<and> vm_inv s' fl' 0x80400000 \<and>
        (\<forall>x. \<not> in_range 0x1000 4096 x \<longrightarrow> xlate (mem s') 0x80400000 x = xlate (mem one_page) 0x80400000 x) \<and>
        (r = 0 \<and> (\<forall>x. in_range 0x1000 4096 x \<longrightarrow>
            xlate (mem s') 0x80400000 x = Some (P2V (0x600000 + (x - PGROUNDDOWN 0x1000))) \<and>
            PTE_FLAGS (pte_at (mem s') 0x80400000 x) = 6 OR PTE_P) \<or>
         r = -1 \<and> fl' = [] \<and> length [0x80500000 :: u32] \<le> pn (0x1000 + 4096 - 1) - pn 0x1000)"
    by (rule mappages_maps [OF i, of 4096 "0x1000" "0x600000" 6, THEN conjunct2, THEN mp, OF _ _ _ _ p]) simp_all
  then obtain r s' where s': "mappages 0x80400000 0x1000 4096 0x600000 6 one_page = Inr (r, s')" "r = 0"
    "xlate (mem s') 0x80400000 0x2234 = xlate (mem one_page) 0x80400000 0x2234"
    "xlate (mem s') 0x80400000 0x1234 = Some (P2V (0x600000 + (0x1234 - PGROUNDDOWN 0x1000)))"
    using r k by auto
  then show ?thesis unfolding g n by blast
qed

end
