(* ===== verification/SyscallProps.thy ===== *)
theory SyscallProps
  imports Syscall BootSys
begin

text \<open>
  The kernel's checks on the arguments of system calls.
\<close>

lemma cur_eq:
  "cpu_ok (mcpu s) \<Longrightarrow> cpu_proc (mcpu s) = Some c \<Longrightarrow> cur s = Inr (c, s\<lparr>mcpu := settle (mcpu s)\<rparr>)"
  by (simp add: cur_def myproc_eq)

lemma uget_mcpu [simp]: "uget (s\<lparr>mcpu := m\<rparr>) va = uget s va"
  by (simp add: uget_def cong: option.case_cong)

lemma uget_bytes_mcpu: "uget_bytes n (s\<lparr>mcpu := m\<rparr>) va = uget_bytes n s va"
  by (induction n arbitrary: va) simp_all

lemma uget32_mcpu [simp]: "uget32 (s\<lparr>mcpu := m\<rparr>) va = uget32 s va"
  by (simp add: uget32_def uget_bytes_mcpu)

text \<open>The unsigned tests of the code, read as tests on numbers without wrap-around.\<close>

lemma inside_iff:
  assumes "S \<le> (0x80000000 :: u32)" "unat len < 2147483648"
  shows "\<not> (S \<le> a \<or> S < a + len) \<longleftrightarrow> unat a < unat S \<and> unat a + unat len \<le> unat S"
proof (cases "a < S")
  case True
  then have "unat a < 2147483648" using assms(1) by (simp add: word_less_nat_alt word_le_nat_alt)
  then have "unat (a + len) = unat a + unat len" using assms(2) by (simp add: unat_u32_add)
  then show ?thesis using True by (simp add: word_less_nat_alt word_le_nat_alt not_le not_less)
next
  case False
  then show ?thesis by (simp add: word_less_nat_alt word_le_nat_alt)
qed

lemma sint_nonneg: "0 \<le> sint (v :: i32) \<Longrightarrow> unat v < 2147483648"
proof -
  assume a: "0 \<le> sint v"
  have "sint v < 2147483648" using sint_less [of v] by simp
  moreover have "uint v = sint v mod 4294967296" by (simp add: uint_sint take_bit_eq_mod)
  ultimately have "uint v < 2147483648" using a by simp
  then show ?thesis by (simp only: uint_nat of_nat_less_numeral_iff)
qed

text \<open>
  C8: Pointers from user programs.  For a process whose memory ends below the kernel's,
  \<open>argptr\<close> returns the \<open>n\<close>-th word above the user's stack pointer, and accepts it only when this
  word itself and the whole buffer of \<open>len\<close> bytes that it points to lie inside the memory of the
  process, with no wrap-around of the sums; otherwise, and for a negative length, the call is
  refused.  So no system call can be made to read or write the kernel's memory.
\<close>

theorem argptr_inside:
  fixes s :: "'z pst_scheme"
  assumes cpu: "cpu_ok (mcpu s)" "cpu_proc (mcpu s) = Some c" and S: "sz (procs s ! c) \<le> KERNBASE"
    and rd: "unat (mem s (tf (procs s ! c) + tf_esp) + 4 + 4 * n) + 4 \<le> unat (sz (procs s ! c)) \<Longrightarrow>
      uget32 s (mem s (tf (procs s ! c) + tf_esp) + 4 + 4 * n) = Inr p"
  shows "argptr n len s =
    Inr (if unat (mem s (tf (procs s ! c) + tf_esp) + 4 + 4 * n) + 4 \<le> unat (sz (procs s ! c)) \<and> 0 \<le> sint len \<and>
            unat p < unat (sz (procs s ! c)) \<and> unat p + unat len \<le> unat (sz (procs s ! c))
         then Some p else None, s\<lparr>mcpu := settle (mcpu s)\<rparr>)"
proof -
  let ?S = "sz (procs s ! c)" and ?ip = "mem s (tf (procs s ! c) + tf_esp) + 4 + 4 * n"
  let ?s = "s\<lparr>mcpu := settle (mcpu s)\<rparr>"
  have S': "?S \<le> 0x80000000" using S by simp
  have ip: "\<not> (?S \<le> ?ip \<or> ?S < ?ip + 4) \<longleftrightarrow> unat ?ip + 4 \<le> unat ?S" using inside_iff [OF S', of 4 ?ip] by auto
  have f: "argint n ?s = Inr (if unat ?ip + 4 \<le> unat ?S then Some p else None, ?s)"
    using cpu ip rd unfolding argint_def fetchint_def by (simp add: cur_eq del: tf_esp_def)
  have l: "\<not> (sint len < 0 \<or> ?S \<le> p \<or> ?S < p + len) \<longleftrightarrow>
      0 \<le> sint len \<and> unat p < unat ?S \<and> unat p + unat len \<le> unat ?S"
    using inside_iff [OF S', of len p] sint_nonneg [of len] by (auto simp: not_less)
  show ?thesis using cpu l unfolding argptr_def by (auto simp: cur_eq f)
qed

text \<open>A process with one page, whose stack holds the argument 0x200.\<close>

definition arg_tst :: tst where
  "arg_tst = boot_tst\<lparr>cr3 := 0,
     mem := (\<lambda>_. 0)(0x80000000 := 0x1007, 0x80001000 := 0x2007, 0x80003044 := 0x100, 0x80002104 := 0x200),
     procs := (procs boot_tst)[0 := (procs boot_tst ! 0)\<lparr>sz := 0x1000, tf := 0x80003000\<rparr>]\<rparr>"

theorem argptr_inside_witness:
  "argptr 0 0xE00 arg_tst = Inr (Some 0x200, arg_tst\<lparr>mcpu := settle (mcpu arg_tst)\<rparr>)
   \<and> argptr 0 0xE01 arg_tst = Inr (None, arg_tst\<lparr>mcpu := settle (mcpu arg_tst)\<rparr>)"
proof -
  have k: "kok 0 boot_tst" by (rule boot_tst_kok)
  have len: "0 < length (procs boot_tst)" using k by (auto simp: kok_def pt_ok_def pt_shape_def)
  have cpu: "cpu_ok (mcpu arg_tst)" "cpu_proc (mcpu arg_tst) = Some 0"
    using kok_cpu [OF k] kok_proc [OF k] by (simp_all add: arg_tst_def)
  have p: "sz (procs arg_tst ! 0) = 0x1000" "tf (procs arg_tst ! 0) = 0x80003000" using len by (simp_all add: arg_tst_def)
  have m: "mem arg_tst 0x80003044 = 0x100" by (simp add: arg_tst_def)
  have x: "xlate (mem arg_tst) (P2V (cr3 arg_tst)) (0x104 + i) = Some (0x80002104 + i)" if "i \<in> {0, 1, 2, 3}" for i
    using that by (auto simp: xlate_def arg_tst_def P2V_def PDX_def PTX_def PTE_ADDR_def)
  have g: "mget (mem arg_tst) 0x80002104 = 0" "mget (mem arg_tst) 0x80002105 = 2"
    "mget (mem arg_tst) 0x80002106 = 0" "mget (mem arg_tst) 0x80002107 = 0"
    by (simp_all add: arg_tst_def mget_def)
  have "uget_bytes (Suc (Suc (Suc (Suc 0)))) arg_tst 0x104 = Inr [0, 2, 0, 0]"
    using x [of 0] x [of 1] x [of 2] x [of 3] g by (simp add: uget_def)
  moreover have "(4 :: nat) = Suc (Suc (Suc (Suc 0)))" by simp
  moreover have "le32 [0, 2, 0, 0] 0 = 0x200" by (simp add: le32_def)
  ultimately have "uget32 arg_tst 0x104 = Inr 0x200" by (simp only: uget32_def bnd_Inr)
  then show ?thesis
    using argptr_inside [OF cpu, of 0 "0x200" "0xE00"] argptr_inside [OF cpu, of 0 "0x200" "0xE01"]
    by (simp add: p m)
qed

end
