(* ===== verification/Umalloc.thy ===== *)
theory Umalloc
  imports Prelude
begin

text \<open>
  The memory allocator of the user programs (\<^verbatim>\<open>umalloc.c\<close>).

  The memory is a map from addresses to words; a header is two words, the pointer to the next
  free block at its address and the size, in units of 8 bytes, 4 bytes above.  Pointers step by
  8.  The loops over the circular list are partial: \<open>None\<close> stands for a loop that never ends.
  What \<open>sbrk\<close> answers is a parameter \<open>ok\<close>: whether the kernel lets the break \<open>b\<close> grow by \<open>n\<close>
  bytes.
\<close>

record ust =
  umem :: "u32 \<Rightarrow> u32"
  freep :: u32
  base :: u32
  brk :: u32

definition sbrk :: "(u32 \<Rightarrow> u32 \<Rightarrow> bool) \<Rightarrow> u32 \<Rightarrow> ust \<Rightarrow> u32 \<times> ust" where
  "sbrk ok n s = (if ok (brk s) n then (brk s, s\<lparr>brk := brk s + n\<rparr>) else (-1, s))"

text \<open>The loop of \<open>free\<close> that looks for the free block before \<open>bp\<close>.\<close>

partial_function (option) find_slot :: "(u32 \<Rightarrow> u32) \<Rightarrow> u32 \<Rightarrow> u32 \<Rightarrow> u32 option" where
  "find_slot m bp p =
     (if bp > p \<and> bp < m p then Some p
      else if p \<ge> m p \<and> (bp > p \<or> bp < m p) then Some p
      else find_slot m bp (m p))"

text \<open>
  The block \<open>bp\<close> is linked before the successor of \<open>p\<close>, or joined with it when it ends where the
  successor begins; then it is linked behind \<open>p\<close>, or joined with \<open>p\<close>.
\<close>

definition join_next :: "u32 \<Rightarrow> u32 \<Rightarrow> (u32 \<Rightarrow> u32) \<Rightarrow> u32 \<Rightarrow> u32" where
  "join_next bp p m =
     (if bp + 8 * m (bp + 4) = m p
      then let m = m(bp + 4 := m (bp + 4) + m (m p + 4)) in m(bp := m (m p))
      else m(bp := m p))"

definition join_prev :: "u32 \<Rightarrow> u32 \<Rightarrow> (u32 \<Rightarrow> u32) \<Rightarrow> u32 \<Rightarrow> u32" where
  "join_prev bp p m =
     (if p + 8 * m (p + 4) = bp
      then let m = m(p + 4 := m (p + 4) + m (bp + 4)) in m(p := m bp)
      else m(p := bp))"

definition free :: "u32 \<Rightarrow> ust \<Rightarrow> ust option" where
  "free ap s =
     (let bp = ap - 8
      in case find_slot (umem s) bp (freep s) of None \<Rightarrow> None
         | Some p \<Rightarrow> Some (s\<lparr>umem := join_prev bp p (join_next bp p (umem s)), freep := p\<rparr>))"

definition morecore :: "(u32 \<Rightarrow> u32 \<Rightarrow> bool) \<Rightarrow> u32 \<Rightarrow> ust \<Rightarrow> (u32 \<times> ust) option" where
  "morecore ok nu s =
     (let nu = (if nu < 4096 then 4096 else nu);
          (p, s) = sbrk ok (nu * 8) s
      in if p = -1 then Some (0, s)
         else let s = s\<lparr>umem := (umem s)(p + 4 := nu)\<rparr>
              in case free (p + 8) s of None \<Rightarrow> None | Some s \<Rightarrow> Some (freep s, s))"

text \<open>The block \<open>p\<close> behind \<open>prevp\<close> is taken, whole or its end.\<close>

definition take_block :: "u32 \<Rightarrow> u32 \<Rightarrow> u32 \<Rightarrow> ust \<Rightarrow> u32 \<times> ust" where
  "take_block nunits prevp p s =
     (let m = umem s
      in if m (p + 4) = nunits
         then (p + 8, s\<lparr>umem := m(prevp := m p), freep := prevp\<rparr>)
         else let m = m(p + 4 := m (p + 4) - nunits);
                  p = p + 8 * m (p + 4);
                  m = m(p + 4 := nunits)
              in (p + 8, s\<lparr>umem := m, freep := prevp\<rparr>))"

partial_function (option) malloc_loop ::
  "(u32 \<Rightarrow> u32 \<Rightarrow> bool) \<Rightarrow> u32 \<Rightarrow> u32 \<Rightarrow> u32 \<Rightarrow> ust \<Rightarrow> (u32 \<times> ust) option" where
  "malloc_loop ok nunits prevp p s =
     (if umem s (p + 4) \<ge> nunits then Some (take_block nunits prevp p s)
      else if p = freep s
      then (case morecore ok nunits s of None \<Rightarrow> None
            | Some (q, s) \<Rightarrow> if q = 0 then Some (0, s) else malloc_loop ok nunits q (umem s q) s)
      else malloc_loop ok nunits p (umem s p) s)"

definition malloc :: "(u32 \<Rightarrow> u32 \<Rightarrow> bool) \<Rightarrow> u32 \<Rightarrow> ust \<Rightarrow> (u32 \<times> ust) option" where
  "malloc ok nbytes s =
     (let nunits = (nbytes + 8 - 1) div 8 + 1;
          s = (if freep s = 0
               then s\<lparr>umem := (umem s)(base s := base s, base s + 4 := 0), freep := base s\<rparr>
               else s)
      in malloc_loop ok nunits (freep s) (umem s (freep s)) s)"

end
