(* ===== verification/UmallocInv.thy ===== *)
theory UmallocInv
  imports Umalloc
begin

text \<open>
  The invariant of the user allocator.  A layout lists the blocks of the heap in the order of
  their addresses: the address, the size in units, and whether the block is free.  The blocks do
  not overlap, every header holds its block's size, and the free blocks form the circular list
  that starts at \<open>base\<close>.
\<close>

type_synonym layout = "(u32 \<times> nat \<times> bool) list"

fun tiles :: "nat \<Rightarrow> layout \<Rightarrow> nat \<Rightarrow> bool" where
  "tiles lo [] hi \<longleftrightarrow> lo \<le> hi"
| "tiles lo ((a, n, f) # L) hi \<longleftrightarrow> lo \<le> unat a \<and> 0 < n \<and> tiles (unat a + 8 * n) L hi"

definition frees :: "layout \<Rightarrow> u32 list" where
  "frees L = map fst (filter (\<lambda>(a, n, f). f) L)"

definition allocs :: "layout \<Rightarrow> (u32 \<times> nat) list" where
  "allocs L = map (\<lambda>(a, n, f). (a, n)) (filter (\<lambda>(a, n, f). \<not> f) L)"

definition units :: "layout \<Rightarrow> nat" where
  "units L = sum_list (map (\<lambda>(a, n, f). n) L)"

fun chain :: "(u32 \<Rightarrow> u32) \<Rightarrow> u32 list \<Rightarrow> u32 \<Rightarrow> bool" where
  "chain m [] e \<longleftrightarrow> True"
| "chain m (x # xs) e \<longleftrightarrow> m x = hd (xs @ [e]) \<and> chain m xs e"

definition sizes :: "(u32 \<Rightarrow> u32) \<Rightarrow> layout \<Rightarrow> bool" where
  "sizes m L \<longleftrightarrow> (\<forall>(a, n, f)\<in>set L. unat (m (a + 4)) = n)"

definition uinv :: "(u32 \<Rightarrow> u32) \<Rightarrow> u32 \<Rightarrow> u32 \<Rightarrow> layout \<Rightarrow> nat \<Rightarrow> bool" where
  "uinv m b fp L hi \<longleftrightarrow> b \<noteq> 0 \<and> hi < 4294967296 \<and> tiles (unat b + 8) L hi \<and>
     sizes m L \<and> m (b + 4) = 0 \<and> chain m (b # frees L) b \<and> fp \<in> set (b # frees L)"

subsection \<open>Layouts and chains\<close>

lemma frees_simps [simp]:
  "frees [] = []" "frees ((a, n, f) # L) = (if f then a # frees L else frees L)"
  "frees (L @ L') = frees L @ frees L'"
  by (simp_all add: frees_def)

lemma allocs_simps [simp]:
  "allocs [] = []" "allocs ((a, n, f) # L) = (if f then allocs L else (a, n) # allocs L)"
  "allocs (L @ L') = allocs L @ allocs L'"
  by (simp_all add: allocs_def)

lemma units_simps [simp]:
  "units [] = 0" "units ((a, n, f) # L) = n + units L" "units (L @ L') = units L + units L'"
  by (simp_all add: units_def)

lemma in_frees: "p \<in> set (frees L) \<longleftrightarrow> (\<exists>n. (p, n, True) \<in> set L)"
  by (force simp: frees_def)

lemma in_allocs: "(a, n) \<in> set (allocs L) \<longleftrightarrow> (a, n, False) \<in> set L"
  by (force simp: allocs_def)

lemma tiles_le: "tiles lo L hi \<Longrightarrow> lo \<le> hi"
  by (induction lo L hi rule: tiles.induct) auto

lemma tiles_weaken: "tiles lo L hi \<Longrightarrow> lo' \<le> lo \<Longrightarrow> hi \<le> hi' \<Longrightarrow> tiles lo' L hi'"
  by (induction lo L hi arbitrary: lo' rule: tiles.induct) auto

lemma tiles_append: "tiles lo (L @ L') hi \<longleftrightarrow> (\<exists>k. tiles lo L k \<and> tiles k L' hi)"
proof (induction L arbitrary: lo)
  case Nil
  then show ?case using tiles_weaken [of _ L' hi lo hi] by auto
next
  case (Cons x L)
  then show ?case by (cases x) auto
qed

lemma tiles_block: "tiles lo L hi \<Longrightarrow> (a, n, f) \<in> set L \<Longrightarrow> lo \<le> unat a \<and> unat a + 8 * n \<le> hi \<and> 0 < n"
  by (induction lo L hi rule: tiles.induct) (auto dest: tiles_le)

text \<open>Two blocks of a layout are the same entry or do not overlap.\<close>

lemma tiles_apart:
  "tiles lo L hi \<Longrightarrow> (a, n, f) \<in> set L \<Longrightarrow> (c, k, g) \<in> set L \<Longrightarrow>
     (a, n, f) = (c, k, g) \<or> unat a + 8 * n \<le> unat c \<or> unat c + 8 * k \<le> unat a"
proof (induction lo L hi rule: tiles.induct)
  case (2 lo d j h L hi)
  have t: "tiles (unat d + 8 * j) L hi" using "2.prems"(1) by simp
  consider "(a, n, f) \<in> set L" "(c, k, g) \<in> set L" | "(a, n, f) = (d, j, h)" "(c, k, g) \<in> set L"
    | "(a, n, f) \<in> set L" "(c, k, g) = (d, j, h)" | "(a, n, f) = (c, k, g)"
    using "2.prems"(2,3) by auto
  then show ?case
  proof cases
    case 1
    then show ?thesis using "2.IH" t by blast
  next
    case 2
    then show ?thesis using tiles_block [OF t, of c k g] by simp
  next
    case 3
    then show ?thesis using tiles_block [OF t, of a n f] by simp
  qed simp
qed simp

lemma tiles_frees: "tiles lo L hi \<Longrightarrow> sorted_wrt (<) (frees L) \<and> (\<forall>p\<in>set (frees L). lo \<le> unat p)"
proof (induction lo L hi rule: tiles.induct)
  case (2 lo a n f L hi)
  then have s: "sorted_wrt (<) (frees L)" "\<forall>p\<in>set (frees L). unat a + 8 * n \<le> unat p" and n: "0 < n" "lo \<le> unat a"
    by simp_all
  have "\<forall>p\<in>set (frees L). lo \<le> unat p \<and> a < p"
  proof
    fix p assume "p \<in> set (frees L)"
    then have "unat a + 8 * n \<le> unat p" using s(2) by blast
    then show "lo \<le> unat p \<and> a < p" using n by (simp add: word_less_nat_alt)
  qed
  then show ?case using s(1) n(2) by simp
qed simp

lemma tiles_sorted:
  assumes t: "tiles (unat b + 8) L hi"
  shows "sorted_wrt (<) (b # frees L)"
proof -
  have "b < p" if "p \<in> set (frees L)" for p
  proof -
    have "unat b + 8 \<le> unat p" using tiles_frees [OF t] that by blast
    then show ?thesis by (simp add: word_less_nat_alt)
  qed
  then show ?thesis using tiles_frees [OF t] by simp
qed

lemma chain_append: "chain m (xs @ p # ys) e = (chain m xs p \<and> chain m (p # ys) e)"
proof (induction xs)
  case Nil
  show ?case by (simp only: append_Nil chain.simps(1) simp_thms)
next
  case (Cons x xs)
  have h: "hd ((xs @ p # ys) @ [e]) = hd (xs @ [p])" by (cases xs) simp_all
  have "chain m ((x # xs) @ p # ys) e = (m x = hd (xs @ [p]) \<and> chain m (xs @ p # ys) e)"
    by (simp only: append_Cons chain.simps(2) h)
  also have "\<dots> = (chain m (x # xs) p \<and> chain m (p # ys) e)" by (simp only: Cons.IH chain.simps(2) conj_assoc)
  finally show ?case .
qed

lemma chain_frame: "(\<And>x. x \<in> set xs \<Longrightarrow> m' x = m x) \<Longrightarrow> chain m' xs e = chain m xs e"
  by (induction xs) auto

subsection \<open>Finding the place of a block\<close>

lemma find_up:
  assumes "chain m (p # ys @ zs) b" "sorted_wrt (<) (p # ys @ zs)" "\<forall>y\<in>set (p # ys). y < bp"
    "\<forall>z\<in>set zs. bp < z" "b \<le> p"
  shows "find_slot m bp p = Some (last (p # ys))"
  using assms
proof (induction ys arbitrary: p)
  case Nil
  then show ?case by (subst find_slot.simps) (cases zs; auto)
next
  case (Cons y ys)
  have "find_slot m bp p = find_slot m bp y" using Cons.prems by (subst find_slot.simps) auto
  then show ?case using Cons by auto
qed

lemma find_down:
  assumes "chain m (p # zs) b" "sorted_wrt (<) (p # zs)" "\<forall>z\<in>set (p # zs). bp < z" "b < bp"
  shows "find_slot m bp p = find_slot m bp b"
  using assms
proof (induction zs arbitrary: p)
  case Nil
  then show ?case by (subst find_slot.simps) auto
next
  case (Cons z zs)
  have "find_slot m bp p = find_slot m bp z" using Cons.prems by (subst find_slot.simps) auto
  then show ?case using Cons by auto
qed

lemma find_slot_ok:
  assumes c: "chain m (b # xs @ zs) b" and so: "sorted_wrt (<) (b # xs @ zs)"
    and x: "\<forall>y\<in>set (b # xs). y < bp" and z: "\<forall>z\<in>set zs. bp < z" and fp: "fp \<in> set (b # xs @ zs)"
  shows "find_slot m bp fp = Some (last (b # xs))"
proof -
  have low: "find_slot m bp q = Some (last (b # xs))" if q: "q \<in> set (b # xs)" for q
  proof -
    obtain us vs where e: "b # xs = us @ q # vs" using split_list [OF q] by blast
    then have e': "b # xs @ zs = us @ q # vs @ zs" by (metis append_Cons append_assoc)
    have "chain m (q # vs @ zs) b" "sorted_wrt (<) (q # vs @ zs)"
      using c so unfolding e' by (auto simp: chain_append sorted_wrt_append)
    moreover have "b \<le> q" using so q by (auto intro: less_imp_le)
    moreover have "\<forall>y\<in>set (q # vs). y < bp" using x unfolding e by auto
    ultimately have "find_slot m bp q = Some (last (q # vs))" using find_up z by blast
    then show ?thesis by (simp add: e)
  qed
  show ?thesis
  proof (cases "fp \<in> set (b # xs)")
    case False
    then have f: "fp \<in> set zs" using fp by simp
    then obtain us vs where e: "zs = us @ fp # vs" using split_list by fast
    have "chain m (fp # vs) b" "sorted_wrt (<) (fp # vs)"
      using c so unfolding e by (auto simp: chain_append [of m "b # xs @ us", simplified] sorted_wrt_append)
    moreover have "\<forall>z\<in>set (fp # vs). bp < z" using z unfolding e by auto
    moreover have "b < bp" using x by simp
    ultimately have "find_slot m bp fp = find_slot m bp b" by (rule find_down)
    then show ?thesis using low by simp
  qed (rule low)
qed

subsection \<open>Joining blocks\<close>

definition hdrs :: "u32 \<Rightarrow> layout \<Rightarrow> u32 set" where
  "hdrs b L = insert b (fst ` set L)"

lemma hdr_end: "tiles (unat b + 8) L hi \<Longrightarrow> x \<in> hdrs b L \<Longrightarrow> unat x + 8 \<le> hi"
  using tiles_block [of "unat b + 8" L hi] tiles_le [of "unat b + 8" L hi] by (fastforce simp: hdrs_def)

lemma hdr_apart:
  assumes t: "tiles (unat b + 8) L hi" and x: "x \<in> hdrs b L" and y: "y \<in> hdrs b L" and ne: "x \<noteq> y"
  shows "unat x + 8 \<le> unat y \<or> unat y + 8 \<le> unat x"
proof -
  have B: "unat b + 8 \<le> unat a \<and> 0 < n" if "(a, n, f) \<in> set L" for a n f using tiles_block [OF t that] by simp
  consider "x = b" | "y = b" | n f k g where "(x, n, f) \<in> set L" "(y, k, g) \<in> set L"
    using x y by (auto simp: hdrs_def)
  then show ?thesis
  proof cases
    case 1
    then show ?thesis using y ne B by (auto simp: hdrs_def)
  next
    case 2
    then show ?thesis using x ne B by (auto simp: hdrs_def)
  next
    case 3
    then show ?thesis using tiles_apart [OF t 3] ne B [OF 3(1)] B [OF 3(2)] by auto
  qed
qed

lemma hdr_ne:
  assumes t: "tiles (unat b + 8) L hi" and hi: "hi < 4294967296" and x: "x \<in> hdrs b L" and y: "y \<in> hdrs b L"
  shows "x + 4 \<noteq> y"
proof
  assume e: "x + 4 = y"
  have "unat x + 8 < 4294967296" using hdr_end [OF t x] hi by simp
  then have u: "unat (x + 4) = unat x + 4" by (simp add: unat_u32_add)
  show False
  proof (cases "x = y")
    case True
    then show False using u e by simp
  next
    case False
    then show False using hdr_apart [OF t x y False] u e by auto
  qed
qed

lemma upper_adjacent:
  assumes "tiles k L hi" "frees L = q # qs" "unat q \<le> k"
  obtains n L' where "L = (q, n, True) # L'" "frees L' = qs"
proof (cases L)
  case (Cons x L')
  obtain c j f where x: "x = (c, j, f)" by (cases x)
  have c: "k \<le> unat c" "0 < j" "tiles (unat c + 8 * j) L' hi" using assms(1) by (simp_all add: Cons x)
  have f
  proof (rule ccontr)
    assume "\<not> f"
    then have "q \<in> set (frees L')" using assms(2) by (simp add: Cons x)
    then have "unat c + 8 * j \<le> unat q" using tiles_frees [OF c(3)] by blast
    then show False using c(1,2) assms(3) by simp
  qed
  then show ?thesis using assms(2) that by (simp add: Cons x)
qed (use assms(2) in simp)

lemma lower_adjacent:
  assumes t: "tiles lo L k" and fr: "frees L = ps @ [p]" and p: "(p, n, True) \<in> set L" and e: "k \<le> unat p + 8 * n"
  obtains L' where "L = L' @ [(p, n, True)]" "frees L' = ps"
proof (cases L rule: rev_cases)
  case (snoc L' x)
  obtain c j f where x: "x = (c, j, f)" by (cases x)
  obtain k' where c: "tiles lo L' k'" "k' \<le> unat c" "0 < j" "unat c + 8 * j \<le> k"
    using t by (auto simp: snoc x tiles_append)
  have old: "unat p + 8 * n \<le> k'" if "(p, n, True) \<in> set L'" using tiles_block [OF c(1) that] by simp
  have x': "x = (p, n, True)"
  proof (rule ccontr)
    assume "x \<noteq> (p, n, True)"
    then have "(p, n, True) \<in> set L'" using p by (auto simp: snoc)
    then show False using old c(2-4) e by simp
  qed
  then show ?thesis using fr that by (simp add: snoc)
qed (use fr in simp)

lemma tiles_distinct:
  assumes t: "tiles (unat b + 8) L hi"
  shows "distinct (b # map fst L)"
proof -
  have "distinct (map fst L)" if "tiles lo L hi" for lo L using that
  proof (induction lo L hi rule: tiles.induct)
    case (2 lo a n f L hi)
    have "unat a < unat c" if "(c, k, g) \<in> set L" for c k g
      using tiles_block [of "unat a + 8 * n" L hi c k g] that "2.prems" by simp
    then have "a \<notin> fst ` set L" by force
    then show ?case using 2 by simp
  qed simp
  moreover have "b \<notin> fst ` set L" using tiles_block [OF t] by fastforce
  ultimately show ?thesis using t by simp
qed

lemma frees_hdrs: "set (frees L) \<subseteq> fst ` set L"
  by (auto simp: frees_def)

lemma sizes_append [simp]:
  "sizes m (L @ L') \<longleftrightarrow> sizes m L \<and> sizes m L'" "sizes m ((a, n, f) # L) \<longleftrightarrow> unat (m (a + 4)) = n \<and> sizes m L" "sizes m []"
  by (simp_all add: sizes_def ball_Un)

lemma sizesD: "sizes m L \<Longrightarrow> (a, n, f) \<in> set L \<Longrightarrow> unat (m (a + 4)) = n"
  by (auto simp: sizes_def)

lemma sizes_frame: "sizes m L \<Longrightarrow> (\<And>x. x \<in> fst ` set L \<Longrightarrow> m' (x + 4) = m (x + 4)) \<Longrightarrow> sizes m' L"
  by (force simp: sizes_def)

lemma unat_end:
  fixes m :: "u32 \<Rightarrow> u32"
  assumes "unat (m (a + 4)) = n" "unat a + 8 * n \<le> hi" "hi < 4294967296"
  shows "unat (a + 8 * m (a + 4)) = unat a + 8 * n"
proof -
  have "unat (8 * m (a + 4)) = 8 * n" using assms by (subst unat_mult_lem [THEN iffD1]) simp_all
  then show ?thesis using assms by (simp add: unat_u32_add)
qed

lemma join_next_ok:
  assumes t: "tiles (unat b + 8) (L1 @ (a, n, False) # L2) hi" and hi: "hi < 4294967296"
    and s: "sizes m (L1 @ (a, n, False) # L2)" and c: "chain m (p # frees L2) b" and p: "p \<in> set (b # frees L1)"
  obtains n' L' where "tiles (unat b + 8) (L1 @ (a, n', True) # L') hi" "sizes (join_next a p m) (L1 @ (a, n', True) # L')"
    "allocs L' = allocs L2" "chain (join_next a p m) (a # frees L') b"
    "\<And>x. x \<noteq> a \<Longrightarrow> x \<noteq> a + 4 \<Longrightarrow> join_next a p m x = m x" "n \<le> n'"
    "n' + units L' = n + units L2"
proof -
  let ?L = "L1 @ (a, n, False) # L2" and ?m = "join_next a p m"
  have d: "distinct (b # map fst ?L)" by (rule tiles_distinct [OF t])
  have H: "hdrs b ?L = insert b (insert a (fst ` set L1 \<union> fst ` set L2))" by (auto simp: hdrs_def)
  have ne: "x + 4 \<noteq> y" if "x \<in> hdrs b ?L" "y \<in> hdrs b ?L" for x y by (rule hdr_ne [OF t hi that])
  obtain k where t1: "tiles (unat b + 8) L1 k" and k: "k \<le> unat a" "0 < n" and t2: "tiles (unat a + 8 * n) L2 hi"
    using t by (auto simp: tiles_append)
  have pH: "p \<in> hdrs b ?L" using p frees_hdrs [of L1] by (auto simp: H)
  have n: "unat (m (a + 4)) = n" using s by simp
  have ae: "unat (a + 8 * m (a + 4)) = unat a + 8 * n" using unat_end [of m a n hi] n hi tiles_le [OF t2] by simp
  have ba: "unat b + 8 \<le> unat a" using tiles_le [OF t1] k(1) by simp
  show thesis
  proof (cases "a + 8 * m (a + 4) = m p")
    case True
    have "m p \<noteq> b" using True ae ba by auto
    then obtain q qs where q: "frees L2 = q # qs" "m p = q" using c by (cases "frees L2") auto
    have "unat q = unat a + 8 * n" using True q(2) ae by simp
    then obtain k2 L' where L2: "L2 = (q, k2, True) # L'" and qs: "frees L' = qs"
      using upper_adjacent [OF t2 q(1)] by auto
    have t3: "tiles (unat q + 8 * k2) L' hi" using t2 by (simp add: L2)
    have qH: "q \<in> hdrs b ?L" "a \<in> hdrs b ?L" by (auto simp: hdrs_def L2)
    have me: "?m = m(a + 4 := m (a + 4) + m (q + 4), a := m q)"
      using True q(2) ne [OF qH(2,1)] ne [OF qH(2) pH] by (auto simp: join_next_def)
    have fr: "?m x = m x" if "x \<noteq> a" "x \<noteq> a + 4" for x using that by (simp add: me)
    have k2: "unat (m (q + 4)) = k2" using s by (simp add: L2)
    have "unat q + 8 * k2 \<le> hi" using tiles_le [OF t3] .
    then have sum: "unat (m (a + 4) + m (q + 4)) = n + k2"
      using n k2 \<open>unat q = unat a + 8 * n\<close> hi by (subst unat_add_lem [THEN iffD1]) simp_all
    have fr4: "?m (x + 4) = m (x + 4)" if "x \<in> fst ` set L1 \<union> fst ` set L'" for x
    proof -
      have "x \<noteq> a" "x \<in> hdrs b ?L" using that d by (auto simp: hdrs_def L2)
      then show ?thesis using ne [of x a] qH(2) fr by simp
    qed
    have "tiles (unat b + 8) (L1 @ (a, n + k2, True) # L') hi"
      using t1 t3 k \<open>unat q = unat a + 8 * n\<close> by (auto simp: tiles_append algebra_simps)
    moreover have "sizes ?m (L1 @ (a, n + k2, True) # L')"
    proof -
      have "?m (a + 4) = m (a + 4) + m (q + 4)" by (simp add: me)
      moreover have "sizes ?m L1" "sizes ?m L'" using s sizes_frame [of m] fr4 by (auto simp: L2)
      ultimately show ?thesis using sum by simp
    qed
    moreover have "chain ?m (a # frees L') b"
    proof -
      have "chain m (frees L') b" "m q = hd (frees L' @ [b])" using c by (simp_all add: q qs)
      moreover have "chain ?m (frees L') b = chain m (frees L') b"
      proof (rule chain_frame)
        fix x assume "x \<in> set (frees L')"
        then have x: "x \<in> fst ` set L'" using frees_hdrs by blast
        then have "x \<noteq> a" "x \<in> hdrs b ?L" using d by (auto simp: hdrs_def L2)
        then show "?m x = m x" using fr ne [OF qH(2), of x] by auto
      qed
      ultimately show ?thesis by (simp add: me)
    qed
    ultimately show thesis using that [of "n + k2" L'] fr by (simp add: L2)
  next
    case False
    have me: "?m = m(a := m p)" using False by (simp add: join_next_def)
    have aH: "a \<in> hdrs b ?L" by (simp add: H)
    have "sizes ?m (L1 @ (a, n, True) # L2)"
    proof -
      have "?m (x + 4) = m (x + 4)" if "x \<in> fst ` set ?L" for x using ne [of x a] that aH by (simp add: me hdrs_def)
      then show ?thesis using sizes_frame [OF s, of ?m] by simp
    qed
    moreover have "tiles (unat b + 8) (L1 @ (a, n, True) # L2) hi" using t1 t2 k by (auto simp: tiles_append)
    moreover have "chain ?m (a # frees L2) b"
    proof -
      have "chain ?m (frees L2) b = chain m (frees L2) b"
      proof (rule chain_frame)
        fix x assume "x \<in> set (frees L2)"
        then have "x \<in> fst ` set L2" using frees_hdrs by blast
        then show "?m x = m x" using d by (auto simp: me)
      qed
      then show ?thesis using c by (simp add: me)
    qed
    moreover have "?m x = m x" if "x \<noteq> a" for x using that by (simp add: me)
    ultimately show thesis by (intro that [of n L2]) simp_all
  qed
qed

lemma join_prev_ok:
  assumes t: "tiles (unat b + 8) (L1 @ (a, n, True) # L2) hi" and hi: "hi < 4294967296"
    and s: "sizes m (L1 @ (a, n, True) # L2)" and b: "b \<noteq> 0" "m (b + 4) = 0"
    and xs: "xs @ [p] = b # frees L1" and c1: "chain m xs p" and c2: "chain m (a # frees L2) b"
  obtains L' where "uinv (join_prev a p m) b p L' hi" "allocs L' = allocs L1 @ allocs L2"
    "\<And>x. x \<noteq> p \<Longrightarrow> x \<noteq> p + 4 \<Longrightarrow> join_prev a p m x = m x" "\<exists>c k. (c, k, True) \<in> set L' \<and> n \<le> k"
    "units L' = units L1 + n + units L2"
proof -
  let ?L = "L1 @ (a, n, True) # L2" and ?m = "join_prev a p m"
  have d: "distinct (b # map fst ?L)" by (rule tiles_distinct [OF t])
  have H: "hdrs b ?L = insert b (insert a (fst ` set L1 \<union> fst ` set L2))" by (auto simp: hdrs_def)
  have ne: "x + 4 \<noteq> y" if "x \<in> hdrs b ?L" "y \<in> hdrs b ?L" for x y by (rule hdr_ne [OF t hi that])
  obtain k where t1: "tiles (unat b + 8) L1 k" and k: "k \<le> unat a" "0 < n" and t2: "tiles (unat a + 8 * n) L2 hi"
    using t by (auto simp: tiles_append)
  have sx: "set xs \<union> {p} = insert b (set (frees L1))" using arg_cong [OF xs, of set] by auto
  have pin: "p \<in> insert b (set (frees L1))" using sx by auto
  then have pH: "p \<in> hdrs b ?L" "p \<noteq> a" using d frees_hdrs [of L1] by (auto simp: H)
  have dx: "distinct (xs @ [p])"
  proof -
    have "distinct (frees L1)" using d unfolding frees_def by (auto intro: distinct_map_filter)
    moreover have "b \<notin> set (frees L1)" using d frees_hdrs [of L1] by auto
    ultimately show ?thesis unfolding xs by simp
  qed
  have xsH: "x \<in> hdrs b ?L \<and> x \<noteq> p" if "x \<in> set xs" for x
    using that sx dx frees_hdrs [of L1] by (auto simp: H)
  have l2H: "x \<in> hdrs b ?L \<and> x \<noteq> p" if "x \<in> set (frees L2)" for x
  proof -
    have "x \<in> fst ` set L2" using that frees_hdrs by blast
    moreover have "p \<in> insert b (fst ` set L1)" using pin frees_hdrs [of L1] by blast
    ultimately show ?thesis using d by (auto simp: H)
  qed
  have far: "?m x = m x" if "x \<noteq> p" "x \<noteq> p + 4" for x using that by (simp add: join_prev_def Let_def)
  have keep: "?m x = m x" if "x \<in> hdrs b ?L" "x \<noteq> p" for x using far that ne [OF pH(1) that(1)] by auto
  have keep4: "?m (x + 4) = m (x + 4)" if "x \<in> hdrs b ?L" "x \<noteq> p" for x
    using far [of "x + 4"] that ne [OF that(1) pH(1)] by auto
  have "chain ?m xs p = chain m xs p" by (rule chain_frame) (use keep xsH in blast)
  then have c1': "chain ?m xs p" using c1 by simp
  have "chain ?m (frees L2) b = chain m (frees L2) b" by (rule chain_frame) (use keep l2H in blast)
  then have c2': "chain ?m (frees L2) b" using c2 by simp
  show thesis
  proof (cases "p + 8 * m (p + 4) = a")
    case True
    have "p \<noteq> b" using True b(2) d by auto
    then obtain ps where ps: "xs = b # ps" "frees L1 = ps @ [p]" using xs by (cases xs) auto
    then obtain j where j: "(p, j, True) \<in> set L1" using in_frees [of p L1] by auto
    have mj: "unat (m (p + 4)) = j" using sizesD [OF _ j] s by simp
    have "unat p + 8 * j \<le> k" using tiles_block [OF t1 j] by simp
    then have pe: "unat a = unat p + 8 * j"
      using unat_end [of m p j hi] mj hi True k t2 tiles_le [OF t2] by simp
    then obtain L' where L1: "L1 = L' @ [(p, j, True)]" and L': "frees L' = ps"
      using lower_adjacent [OF t1 ps(2) j] k(1) by auto
    have me: "?m = m(p + 4 := m (p + 4) + m (a + 4), p := m a)"
      using True ne [OF pH(1), of a] by (auto simp: join_prev_def H)
    have na: "unat (m (a + 4)) = n" using s by simp
    have sum: "unat (m (p + 4) + m (a + 4)) = j + n"
      using mj na pe tiles_le [OF t2] hi by (subst unat_add_lem [THEN iffD1]) simp_all
    let ?L' = "L' @ (p, j + n, True) # L2"
    have "tiles (unat b + 8) ?L' hi" using t1 t2 k pe by (auto simp: L1 tiles_append algebra_simps)
    moreover have "sizes ?m ?L'"
    proof -
      have "sizes m L'" "sizes m L2" using s by (simp_all add: L1)
      moreover have "x \<in> hdrs b ?L \<and> x \<noteq> p" if "x \<in> fst ` set L' \<union> fst ` set L2" for x
        using that d by (auto simp: hdrs_def L1)
      ultimately have "sizes ?m L'" "sizes ?m L2" using sizes_frame [of m _ ?m] keep4 by auto
      moreover have "?m (p + 4) = m (p + 4) + m (a + 4)" by (simp add: me)
      ultimately show ?thesis using sum by simp
    qed
    moreover have "?m (b + 4) = 0" using keep4 [of b] \<open>p \<noteq> b\<close> b by (simp add: H)
    moreover have "chain ?m (b # frees ?L') b"
    proof -
      have "?m p = hd (frees L2 @ [b])" using c2 by (simp add: me)
      then have "chain ?m (p # frees L2) b" using c2' by simp
      then have "chain ?m (xs @ p # frees L2) b" using c1' by (simp only: chain_append simp_thms)
      then show ?thesis by (simp add: ps L')
    qed
    ultimately have "uinv ?m b p ?L' hi" using b(1) hi by (simp add: uinv_def)
    moreover have "(p, j + n, True) \<in> set ?L'" "n \<le> j + n" by simp_all
    then have "\<exists>c k. (c, k, True) \<in> set ?L' \<and> n \<le> k" by blast
    ultimately show thesis using far by (intro that [of ?L']) (simp_all add: L1)
  next
    case False
    have me: "?m = m(p := a)" using False by (simp add: join_prev_def)
    have "?m (x + 4) = m (x + 4)" if "x \<in> hdrs b ?L" for x using ne [OF that pH(1)] by (simp add: me)
    then have "sizes ?m ?L" "?m (b + 4) = 0" using sizes_frame [OF s, of ?m] b(2) by (auto simp: hdrs_def)
    moreover have "chain ?m (b # frees ?L) b"
    proof -
      have "?m a = m a" using pH(2) by (simp add: me)
      then have "chain ?m (a # frees L2) b" using c2 c2' by simp
      moreover have "?m p = a" by (simp add: me)
      ultimately have "chain ?m (p # a # frees L2) b" by simp
      then have "chain ?m (xs @ p # a # frees L2) b" using c1' by (simp only: chain_append simp_thms)
      moreover have "xs @ p # a # frees L2 = (xs @ [p]) @ a # frees L2" by simp
      then have "xs @ p # a # frees L2 = b # frees ?L" unfolding xs by simp
      ultimately show ?thesis by (simp only:)
    qed
    ultimately have "uinv ?m b p ?L hi" using b(1) hi t pin by (auto simp: uinv_def)
    moreover have "(a, n, True) \<in> set ?L" by simp
    then have "\<exists>c k. (c, k, True) \<in> set ?L \<and> n \<le> k" by blast
    ultimately show thesis using far by (intro that [of ?L]) simp_all
  qed
qed

subsection \<open>The operations\<close>

text \<open>The memory of a block.\<close>

definition in_block :: "u32 \<Rightarrow> nat \<Rightarrow> u32 \<Rightarrow> bool" where
  "in_block a n x \<longleftrightarrow> unat a \<le> unat x \<and> unat x < unat a + 8 * n"

lemma block_hdr:
  assumes t: "tiles (unat b + 8) L hi" and hi: "hi < 4294967296" and c: "(c, k, f) \<in> set L"
    and h: "h \<in> hdrs b L" "h \<noteq> c" and x: "in_block c k x"
  shows "x \<noteq> h \<and> x \<noteq> h + 4"
proof -
  have "unat h + 8 < 4294967296" using hdr_end [OF t h(1)] hi by simp
  then have u: "unat (h + 4) = unat h + 4" by (simp add: unat_u32_add)
  have "unat h + 8 \<le> unat c \<or> unat c + 8 * k \<le> unat h"
  proof (cases "h = b")
    case True
    then show ?thesis using tiles_block [OF t c] by simp
  next
    case False
    then obtain n g where n: "(h, n, g) \<in> set L" using h(1) by (auto simp: hdrs_def)
    then show ?thesis using tiles_apart [OF t n c] tiles_block [OF t n] h(2) by auto
  qed
  then show ?thesis using x u by (auto simp: in_block_def)
qed

lemma alloc_ring:
  assumes t: "tiles (unat b + 8) L hi" and c: "(c, k, False) \<in> set L" and p: "p \<in> set (b # frees L)"
  shows "c \<noteq> p"
proof
  assume cp: "c = p"
  consider "p = b" | j where "(p, j, True) \<in> set L" using p in_frees [of p L] by auto
  then show False
  proof cases
    case 1
    then show False using tiles_block [OF t c] cp by simp
  next
    case 2
    then show False using tiles_apart [OF t c 2] tiles_block [OF t c] tiles_block [OF t 2] cp by simp
  qed
qed

lemma free_ok:
  assumes inv: "uinv (umem s) (base s) (freep s) (L1 @ (a, n, False) # L2) hi"
  obtains s' L' where "free (a + 8) s = Some s'" "uinv (umem s') (base s) (freep s') L' hi"
    "base s' = base s" "brk s' = brk s" "allocs L' = allocs L1 @ allocs L2"
    "\<And>c k x. (c, k) \<in> set (allocs L') \<Longrightarrow> in_block c k x \<Longrightarrow> umem s' x = umem s x"
    "\<exists>c k. (c, k, True) \<in> set L' \<and> n \<le> k" "units L' = units L1 + n + units L2"
proof -
  let ?L = "L1 @ (a, n, False) # L2" and ?b = "base s" and ?m = "umem s"
  have U: "?b \<noteq> 0" "hi < 4294967296" "tiles (unat ?b + 8) ?L hi" "sizes ?m ?L" "?m (?b + 4) = 0"
    "chain ?m (?b # frees ?L) ?b" "freep s \<in> set (?b # frees ?L)"
    using inv unfolding uinv_def by blast+
  obtain k where t1: "tiles (unat ?b + 8) L1 k" and k: "k \<le> unat a" "0 < n" and t2: "tiles (unat a + 8 * n) L2 hi"
    using U(3) by (auto simp: tiles_append)
  define xs p where "xs = butlast (?b # frees L1)" and "p = last (?b # frees L1)"
  then have xs: "xs @ [p] = ?b # frees L1" and p: "last (?b # frees L1) = p" by simp_all
  have sx: "set xs \<subseteq> set (?b # frees L1)" and pin: "p \<in> set (?b # frees L1)" unfolding xs [symmetric] by auto
  have fr: "chain ?m (?b # frees L1 @ frees L2) ?b" using U(6) by simp
  have so: "sorted_wrt (<) (?b # frees L1 @ frees L2)"
    using tiles_sorted [OF U(3)] by simp
  have lo: "\<forall>y\<in>set (?b # frees L1). y < a"
  proof
    fix y assume "y \<in> set (?b # frees L1)"
    then consider "y = ?b" | j where "(y, j, True) \<in> set L1" using in_frees by auto
    then show "y < a"
    proof cases
      case 1
      then show ?thesis using tiles_le [OF t1] k(1) by (simp add: word_less_nat_alt)
    next
      case 2
      then show ?thesis using tiles_block [OF t1 2] k(1) by (simp add: word_less_nat_alt)
    qed
  qed
  have up: "\<forall>z\<in>set (frees L2). a < z"
  proof
    fix z assume "z \<in> set (frees L2)"
    then have "unat a + 8 * n \<le> unat z" using tiles_frees [OF t2] by blast
    then show "a < z" using k(2) by (simp add: word_less_nat_alt)
  qed
  have f: "find_slot ?m a (freep s) = Some p"
    using find_slot_ok [OF fr so lo up] U(7) p by simp
  have e: "?b # frees L1 @ frees L2 = xs @ p # frees L2" using arg_cong [OF xs, of "\<lambda>l. l @ frees L2"] by simp
  have c1: "chain ?m xs p" and c2: "chain ?m (p # frees L2) ?b" using fr unfolding e chain_append by simp_all
  let ?m1 = "join_next a p ?m"
  obtain n' L2' where N: "tiles (unat ?b + 8) (L1 @ (a, n', True) # L2') hi" "sizes ?m1 (L1 @ (a, n', True) # L2')"
    "allocs L2' = allocs L2" "chain ?m1 (a # frees L2') ?b" "\<And>x. x \<noteq> a \<Longrightarrow> x \<noteq> a + 4 \<Longrightarrow> ?m1 x = ?m x" "n \<le> n'"
    "n' + units L2' = n + units L2"
    by (rule join_next_ok [OF U(3,2,4) c2 pin]) (rule that)
  have ab: "a \<in> hdrs ?b ?L" "?b \<in> hdrs ?b ?L" by (auto simp: hdrs_def)
  have ba: "?b \<noteq> a" using lo by auto
  have xsH: "x \<in> hdrs ?b ?L \<and> x \<noteq> a" if "x \<in> set xs" for x
  proof -
    have x: "x \<in> set (?b # frees L1)" using that sx by blast
    then have "x \<in> insert ?b (fst ` set L1)" using frees_hdrs [of L1] by auto
    then show ?thesis using lo x by (auto simp: hdrs_def)
  qed
  have "chain ?m1 xs p = chain ?m xs p"
  proof (rule chain_frame)
    fix x assume "x \<in> set xs"
    then have "x \<in> hdrs ?b ?L" "x \<noteq> a" using xsH by blast+
    then show "?m1 x = ?m x" using N(5) [of x] hdr_ne [OF U(3,2) ab(1), of x] by blast
  qed
  then have c1': "chain ?m1 xs p" using c1 by simp
  have b4: "?m1 (?b + 4) = 0" using N(5) [of "?b + 4"] U(5) hdr_ne [OF U(3,2) ab(2,1)] ba by simp
  obtain L' where P: "uinv (join_prev a p ?m1) ?b p L' hi" "allocs L' = allocs L1 @ allocs L2'"
    "\<And>x. x \<noteq> p \<Longrightarrow> x \<noteq> p + 4 \<Longrightarrow> join_prev a p ?m1 x = ?m1 x" "\<exists>c k. (c, k, True) \<in> set L' \<and> n' \<le> k"
    "units L' = units L1 + n' + units L2'"
    by (rule join_prev_ok [OF N(1) U(2) N(2) U(1) b4 xs c1' N(4)]) (rule that)
  let ?s' = "s\<lparr>umem := join_prev a p ?m1, freep := p\<rparr>"
  have "free (a + 8) s = Some ?s'" by (simp add: free_def f)
  moreover have "umem ?s' x = umem s x" if c: "(c, k) \<in> set (allocs L')" and x: "in_block c k x" for c k x
  proof -
    have cL: "(c, k, False) \<in> set L1 \<union> set L2" using c P(2) N(3) in_allocs by auto
    then have cL': "(c, k, False) \<in> set ?L" by auto
    have d: "distinct (?b # map fst ?L)" by (rule tiles_distinct [OF U(3)])
    have "c \<in> fst ` (set L1 \<union> set L2)" using cL by (rule image_eqI [rotated]) simp
    moreover have "a \<notin> fst ` (set L1 \<union> set L2)" using d by auto
    ultimately have "c \<noteq> a" by blast
    moreover have "c \<noteq> p" using alloc_ring [OF U(3) cL'] pin by auto
    moreover have "p \<in> hdrs ?b ?L" using pin frees_hdrs [of L1] by (auto simp: hdrs_def)
    ultimately have "x \<noteq> a \<and> x \<noteq> a + 4" "x \<noteq> p \<and> x \<noteq> p + 4"
      using block_hdr [OF U(3,2) cL' ab(1) _ x] block_hdr [OF U(3,2) cL' _ _ x, of p] by blast+
    then show ?thesis using P(3) [of x] N(5) [of x] by simp
  qed
  moreover have "\<exists>c k. (c, k, True) \<in> set L' \<and> n \<le> k" using P(4) le_trans [OF N(6)] by blast
  ultimately show thesis using P(1,2,5) N(3,7) by (intro that [of ?s' L']) simp_all
qed

end
