(* ===== verification/UmallocProps.thy ===== *)
theory UmallocProps
  imports UmallocInv
begin

text \<open>
  The allocator of the user programs keeps its invariant: a block that \<open>malloc\<close> returns is
  disjoint from every other block in use, \<open>free\<close> gives it back, and neither changes the memory
  of the blocks in use.
\<close>

subsection \<open>Taking a block\<close>

lemma take_whole:
  assumes inv: "uinv m b fp (L1 @ (w, n, True) # L2) hi" and xs: "xs @ [x] = b # frees L1"
  shows "uinv (m(x := m w)) b x (L1 @ (w, n, False) # L2) hi" "x \<in> hdrs b (L1 @ (w, n, True) # L2)" "x \<noteq> w"
    "\<And>c k. (c, k) \<in> set (allocs (L1 @ L2)) \<Longrightarrow> c \<noteq> x"
proof -
  let ?L = "L1 @ (w, n, True) # L2" and ?L' = "L1 @ (w, n, False) # L2" and ?m = "m(x := m w)"
  have U: "b \<noteq> 0" "hi < 4294967296" "tiles (unat b + 8) ?L hi" "sizes m ?L" "m (b + 4) = 0" "chain m (b # frees ?L) b"
    using inv unfolding uinv_def by blast+
  have d: "distinct (b # map fst ?L)" by (rule tiles_distinct [OF U(3)])
  have so: "sorted_wrt (<) (b # frees ?L)" by (rule tiles_sorted [OF U(3)])
  have e: "b # frees ?L = xs @ x # w # frees L2" using arg_cong [OF xs, of "\<lambda>l. l @ w # frees L2"] by simp
  have dd: "distinct (xs @ x # w # frees L2)" using so unfolding e strict_sorted_iff by simp
  have xin: "x \<in> set (b # frees L1)" unfolding xs [symmetric] by simp
  show xH: "x \<in> hdrs b ?L" using xin frees_hdrs [of L1] by (auto simp: hdrs_def)
  show xw: "x \<noteq> w" using dd by simp
  have t: "tiles (unat b + 8) ?L' hi" using U(3) by (simp add: tiles_append)
  have m4: "?m (y + 4) = m (y + 4)" if "y \<in> hdrs b ?L" for y using hdr_ne [OF U(3,2) that xH] by simp
  have "sizes m ?L'" using U(4) by simp
  moreover have "y \<in> hdrs b ?L" if "y \<in> fst ` set ?L'" for y using that by (auto simp: hdrs_def)
  ultimately have s: "sizes ?m ?L'" using sizes_frame [of m ?L' ?m] m4 by blast
  have b4: "?m (b + 4) = 0" using m4 [of b] U(5) by (simp add: hdrs_def)
  have "chain m xs x" "chain m (x # w # frees L2) b" using U(6) unfolding e chain_append by blast+
  moreover have "chain ?m xs x = chain m xs x" by (rule chain_frame) (use dd in auto)
  moreover have "chain ?m (frees L2) b = chain m (frees L2) b" by (rule chain_frame) (use dd in auto)
  ultimately have "chain ?m xs x" "chain ?m (x # frees L2) b" by simp_all
  then have "chain ?m (xs @ x # frees L2) b" by (simp only: chain_append simp_thms)
  moreover have e': "xs @ x # frees L2 = b # frees ?L'" using arg_cong [OF xs, of "\<lambda>l. l @ frees L2"] by simp
  ultimately have c: "chain ?m (b # frees ?L') b" by (simp only:)
  have "x \<in> set (b # frees ?L')" using xin by auto
  then show "uinv ?m b x ?L' hi" using U(1,2) t s b4 c by (simp only: uinv_def simp_thms)
  show "c \<noteq> x" if "(c, k) \<in> set (allocs (L1 @ L2))" for c k
  proof -
    have "(c, k, False) \<in> set ?L" using that unfolding in_allocs by auto
    then show ?thesis using alloc_ring [OF U(3)] xin by auto
  qed
qed

lemma unat_split:
  fixes w :: u32
  assumes "unat w + 8 * n \<le> hi" "hi < 4294967296" "unat v = n" "unat k \<le> n"
  shows "unat (v - k) = n - unat k" "unat (w + 8 * (v - k)) = unat w + 8 * (n - unat k)"
proof -
  show d: "unat (v - k) = n - unat k" using assms by (simp add: unat_u32_sub word_le_nat_alt)
  have "unat (8 * (v - k)) = 8 * (n - unat k)" using assms d by (subst unat_mult_lem [THEN iffD1]) simp_all
  moreover have "8 * (n - unat k) \<le> 8 * n" by simp
  then have "unat w + 8 * (n - unat k) < 4294967296" using assms(1,2) by linarith
  ultimately show "unat (w + 8 * (v - k)) = unat w + 8 * (n - unat k)"
    using unat_u32_add [of w "8 * (v - k)"] by (simp only: if_True)
qed

lemma take_end:
  assumes inv: "uinv m b fp (L1 @ (w, n, True) # L2) hi" and x: "x \<in> set (b # frees L1)"
    and k: "0 < k" "unat k < n" and d: "d = m (w + 4) - k" and q: "q = w + 8 * d"
    and L': "L' = L1 @ (w, unat d, True) # (q, unat k, False) # L2"
  shows "uinv (m(w + 4 := d, q + 4 := k)) b x L' hi"
proof -
  let ?L = "L1 @ (w, n, True) # L2" and ?m = "m(w + 4 := d, q + 4 := k)"
  have U: "b \<noteq> 0" "hi < 4294967296" "tiles (unat b + 8) ?L hi" "sizes m ?L" "m (b + 4) = 0" "chain m (b # frees ?L) b"
    using inv unfolding uinv_def by blast+
  have w: "(w, n, True) \<in> set ?L" by simp
  have n: "unat (m (w + 4)) = n" by (rule sizesD [OF U(4) w])
  have fin: "unat w + 8 * n \<le> hi" using tiles_block [OF U(3) w] by simp
  have ud: "unat d = n - unat k" "unat q = unat w + 8 * (n - unat k)"
    using unat_split [OF fin U(2) n, of k] k unfolding d q by simp_all
  have e: "unat q + 8 * unat k = unat w + 8 * n" "unat q = unat w + 8 * unat d" "0 < unat k" "0 < unat d"
    using ud k by (simp_all add: word_less_nat_alt)
  obtain j where j: "tiles (unat b + 8) L1 j" "j \<le> unat w" and t2: "tiles (unat w + 8 * n) L2 hi"
    using U(3) by (auto simp: tiles_append)
  have "tiles (unat q + 8 * unat k) L2 hi" using t2 e(1) by (simp only:)
  then have "tiles j ((w, unat d, True) # (q, unat k, False) # L2) hi" using j(2) e by simp
  then have t: "tiles (unat b + 8) L' hi" using j(1) unfolding L' tiles_append by blast
  have H: "hdrs b L' = insert q (hdrs b ?L)" by (auto simp: hdrs_def L')
  have ne: "y + 4 \<noteq> z" if "y \<in> hdrs b L'" "z \<in> hdrs b L'" for y z by (rule hdr_ne [OF t U(2) that])
  have wH: "w \<in> hdrs b L'" "q \<in> hdrs b L'" by (auto simp: hdrs_def L')
  have fr: "frees L' = frees ?L" by (simp add: L')
  have "chain ?m (b # frees ?L) b = chain m (b # frees ?L) b"
  proof (rule chain_frame)
    fix y assume "y \<in> set (b # frees ?L)"
    then have "y \<in> hdrs b L'" using frees_hdrs [of ?L] unfolding H by (auto simp: hdrs_def)
    then show "?m y = m y" using ne [OF wH(1)] ne [OF wH(2)] by auto
  qed
  then have c: "chain ?m (b # frees L') b" using U(6) unfolding fr by blast
  have dist: "distinct (b # map fst L')" by (rule tiles_distinct [OF t])
  have far: "?m (y + 4) = m (y + 4)" if "y \<noteq> w" "y \<noteq> q" for y using that by simp
  have S: "sizes ?m K" if "sizes m K" "w \<notin> fst ` set K" "q \<notin> fst ` set K" for K
  proof (rule sizes_frame [OF that(1)])
    fix y assume "y \<in> fst ` set K"
    then have "y \<noteq> w" "y \<noteq> q" using that(2,3) by blast+
    then show "?m (y + 4) = m (y + 4)" by (rule far)
  qed
  have "sizes ?m L1" by (rule S) (use U(4) dist in \<open>auto simp: L'\<close>)
  moreover have "sizes ?m L2" by (rule S) (use U(4) dist in \<open>auto simp: L'\<close>)
  moreover have "w \<noteq> q" using dist by (simp add: L')
  ultimately have s: "sizes ?m L'" unfolding L' by simp
  have b4: "?m (b + 4) = 0" using far [of b] dist U(5) by (simp add: L')
  have "x \<in> set (b # frees L')" using x by (auto simp: L')
  then show ?thesis using U(1,2) t s b4 c by (simp only: uinv_def simp_thms)
qed

text \<open>The successor of a node of the ring is the block of the layout that the node precedes.\<close>

lemma ring_split:
  assumes inv: "uinv m b fp L hi" and x: "x \<in> set (b # frees L)" and w: "m x \<noteq> b"
  obtains xs L1 n L2 where "L = L1 @ (m x, n, True) # L2" "xs @ [x] = b # frees L1"
proof -
  have U: "tiles (unat b + 8) L hi" "chain m (b # frees L) b" using inv unfolding uinv_def by blast+
  obtain xs ys where xy: "b # frees L = xs @ x # ys" using split_list [OF x] by blast
  have "chain m (x # ys) b" using U(2) unfolding xy chain_append by blast
  then obtain zs where ys: "ys = m x # zs" using w by (cases ys) auto
  have "m x \<in> set (b # frees L)" unfolding xy ys by simp
  then have "m x \<in> set (frees L)" using w by simp
  then obtain n where "(m x, n, True) \<in> set L" unfolding in_frees by blast
  then obtain L1 L2 where L: "L = L1 @ (m x, n, True) # L2" using split_list by metis
  have "distinct (b # frees L)" using tiles_sorted [OF U(1)] unfolding strict_sorted_iff by simp
  moreover have e: "(b # frees L1) @ m x # frees L2 = (xs @ [x]) @ m x # zs" using xy unfolding L ys by simp
  moreover have "b # frees L = (b # frees L1) @ m x # frees L2" unfolding L by simp
  ultimately have "m x \<notin> set (b # frees L1)" "m x \<notin> set (frees L2)" by auto
  then have "b # frees L1 = xs @ [x]" using e append_Cons_eq_iff by metis
  then show thesis using that L by metis
qed

lemma take_block_ok:
  assumes inv: "uinv (umem s) (base s) (freep s) L hi" and x: "x \<in> set (base s # frees L)"
    and w: "w = umem s x" and k: "0 < k" "k \<le> umem s (w + 4)"
  obtains r s' L' A B where "take_block k x w s = (r + 8, s')" "uinv (umem s') (base s) (freep s') L' hi"
    "base s' = base s" "brk s' = brk s" "allocs L = A @ B" "allocs L' = A @ (r, unat k) # B"
    "\<And>c j y. (c, j) \<in> set (allocs L) \<Longrightarrow> in_block c j y \<Longrightarrow> umem s' y = umem s y" "units L' = units L"
proof -
  let ?m = "umem s" and ?b = "base s"
  have U: "hi < 4294967296" "tiles (unat ?b + 8) L hi" "sizes ?m L" "?m (?b + 4) = 0"
    using inv unfolding uinv_def by blast+
  have "w \<noteq> ?b" using k U(4) by auto
  then obtain xs L1 n L2 where L: "L = L1 @ (w, n, True) # L2" and xs: "xs @ [x] = ?b # frees L1"
    using ring_split [OF inv x] w by metis
  have wr: "w \<in> set (?b # frees L)" "w \<in> hdrs ?b L" by (simp_all add: L hdrs_def)
  have al: "(c, j, False) \<in> set L" if "(c, j) \<in> set (allocs L)" for c j using that in_allocs by blast
  have n: "unat (?m (w + 4)) = n" by (rule sizesD [OF U(3), of _ _ True]) (simp add: L)
  show thesis
  proof (cases "?m (w + 4) = k")
    case True
    let ?s = "s\<lparr>umem := ?m(x := ?m w), freep := x\<rparr>"
    note T = take_whole [OF inv [unfolded L] xs]
    have "?m y = umem ?s y" if c: "(c, j) \<in> set (allocs L)" "in_block c j y" for c j y
      using block_hdr [OF U(2,1) al [OF c(1)] _ _ c(2), of x] T(2) T(4) [of c j] c(1) by (simp add: L)
    moreover have "take_block k x w s = (w + 8, ?s)" using True by (simp add: take_block_def Let_def)
    ultimately show thesis using T(1) n True
      by (intro that [of w ?s "L1 @ (w, n, False) # L2" "allocs L1" "allocs L2"]) (simp_all add: L)
  next
    case False
    define d q where "d = ?m (w + 4) - k" and "q = w + 8 * d"
    let ?L = "L1 @ (w, unat d, True) # (q, unat k, False) # L2"
    let ?s = "s\<lparr>umem := ?m(w + 4 := d, q + 4 := k), freep := x\<rparr>"
    have "k < ?m (w + 4)" using k(2) False by (auto simp: order_less_le)
    then have kn: "unat k < n" using n by (simp add: word_less_nat_alt)
    have du: "unat d + unat k = n" using unat_u32_sub [of "?m (w + 4)" k] kn n by (simp add: d_def)
    moreover have "x \<in> set (?b # frees L1)" unfolding xs [symmetric] by simp
    ultimately have V: "uinv (umem ?s) ?b x ?L hi"
      using take_end [OF inv [unfolded L] _ k(1) kn d_def q_def refl] by simp
    then have t: "tiles (unat ?b + 8) ?L hi" unfolding uinv_def by blast
    have "?m y = umem ?s y" if c: "(c, j) \<in> set (allocs L)" "in_block c j y" for c j y
    proof -
      have "(c, j, False) \<in> set L1 \<union> set L2" using al [OF c(1)] by (auto simp: L)
      then have cL: "(c, j, False) \<in> set ?L" and "c \<in> fst ` (set L1 \<union> set L2)" by (auto intro: image_eqI [rotated])
      then have "c \<noteq> q" using tiles_distinct [OF t] by auto
      then have "y \<noteq> q + 4" using block_hdr [OF t U(1) cL _ _ c(2), of q] by (simp add: hdrs_def)
      moreover have "c \<noteq> w" using alloc_ring [OF U(2) al [OF c(1)] wr(1)] .
      then have "y \<noteq> w + 4" using block_hdr [OF U(2,1) al [OF c(1)] wr(2) _ c(2)] by simp
      ultimately show ?thesis by simp
    qed
    moreover have "take_block k x w s = (q + 8, ?s)" using False by (simp add: take_block_def Let_def d_def q_def)
    ultimately show thesis using V du
      by (intro that [of q ?s ?L "allocs L1" "allocs L2"]) (simp_all add: L)
  qed
qed

subsection \<open>The walk around the ring\<close>

text \<open>
  The walk either finds a block that is large enough, or passes every block of the ring and asks
  for more memory.
\<close>

definition fits :: "u32 \<Rightarrow> ust \<Rightarrow> u32 \<Rightarrow> bool" where
  "fits k s p \<longleftrightarrow> k \<le> umem s (p + 4)"

lemma walk:
  assumes "chain (umem s) (p # ys) e" "freep s \<notin> set ys"
  shows "(\<exists>x\<in>set (p # ys). umem s x \<in> set ys \<and> fits k s (umem s x) \<and>
            malloc_loop ok k p (umem s p) s = Some (take_block k x (umem s x) s)) \<or>
         (\<forall>y\<in>set ys. \<not> fits k s y) \<and>
            malloc_loop ok k p (umem s p) s = malloc_loop ok k (last (p # ys)) e s"
  using assms
proof (induction ys arbitrary: p)
  case (Cons y ys)
  have y: "umem s p = y" using Cons.prems(1) by simp
  show ?case
  proof (cases "fits k s y")
    case True
    then have "malloc_loop ok k p y s = Some (take_block k p y s)"
      by (subst malloc_loop.simps) (simp add: fits_def)
    then show ?thesis using True y by auto
  next
    case False
    then have "malloc_loop ok k p y s = malloc_loop ok k y (umem s y) s"
      using Cons.prems(2) by (subst malloc_loop.simps) (auto simp: fits_def)
    then show ?thesis using Cons.IH [of y] Cons.prems False y by auto
  qed
qed simp

lemma chain_last: "chain m (p # ys) e \<Longrightarrow> m (last (p # ys)) = e"
  by (induction ys arbitrary: p) auto

definition grow :: "(u32 \<Rightarrow> u32 \<Rightarrow> bool) \<Rightarrow> u32 \<Rightarrow> ust \<Rightarrow> (u32 \<times> ust) option" where
  "grow ok k s =
     (case morecore ok k s of None \<Rightarrow> None
      | Some (q, s) \<Rightarrow> if q = 0 then Some (0, s) else malloc_loop ok k q (umem s q) s)"

lemma walk_end:
  "malloc_loop ok k z (freep s) s =
     (if fits k s (freep s) then Some (take_block k z (freep s) s) else grow ok k s)"
  by (subst malloc_loop.simps) (simp add: fits_def grow_def)

lemma walk_ring:
  assumes inv: "uinv (umem s) (base s) (freep s) L hi" and k: "0 < k"
  shows "(\<exists>x\<in>set (base s # frees L). fits k s (umem s x) \<and>
            malloc_loop ok k (freep s) (umem s (freep s)) s = Some (take_block k x (umem s x) s)) \<or>
         (\<forall>y\<in>set (base s # frees L). \<not> fits k s y) \<and>
            malloc_loop ok k (freep s) (umem s (freep s)) s = grow ok k s"
    (is "?fit (set (base s # frees L)) \<or> ?none (set (base s # frees L))")
proof -
  let ?b = "base s" and ?f = "freep s" and ?m = "umem s"
  let ?R = "?b # frees L"
  have U: "tiles (unat ?b + 8) L hi" "chain ?m ?R ?b" "?f \<in> set ?R" "?m (?b + 4) = 0"
    using inv unfolding uinv_def by blast+
  have d: "distinct ?R" using tiles_sorted [OF U(1)] unfolding strict_sorted_iff by simp
  obtain xs ys where R: "?R = xs @ ?f # ys" using split_list [OF U(3)] by blast
  have c: "chain ?m xs ?f" "chain ?m (?f # ys) ?b" using U(2) unfolding R chain_append by blast+
  have f: "?f \<notin> set xs" "?f \<notin> set ys" using d unfolding R by auto
  have b: "\<not> fits k s ?b" using U(4) k by (simp add: fits_def)
  consider "?fit (set (?f # ys))" | "\<forall>y\<in>set ys. \<not> fits k s y"
      "malloc_loop ok k ?f (?m ?f) s = malloc_loop ok k (last (?f # ys)) ?b s"
    using walk [OF c(2) f(2), of k ok] by blast
  then show ?thesis
  proof cases
    case 1
    then show ?thesis unfolding R by auto
  next
    case 2
    show ?thesis
    proof (cases xs)
      case Nil
      then have fb: "?f = ?b" using R by simp
      then have "malloc_loop ok k ?f (?m ?f) s = grow ok k s"
        using 2(2) walk_end [of ok k "last (?f # ys)" s] b by simp
      then show ?thesis using 2(1) b fb unfolding R Nil by simp
    next
      case (Cons x xs')
      then have x: "x = ?b" using R by simp
      have "?f \<noteq> ?b" using f(1) x Cons by auto
      then have s: "malloc_loop ok k (last (?f # ys)) ?b s = malloc_loop ok k ?b (?m ?b) s"
        using b by (subst malloc_loop.simps) (auto simp: fits_def)
      have c': "chain ?m (?b # xs') ?f" "?f \<notin> set xs'" using c(1) f(1) x Cons by simp_all
      have l: "?m (last (?b # xs')) = ?f" by (rule chain_last [OF c'(1)])
      consider "?fit (set (?b # xs'))" | "\<forall>y\<in>set xs'. \<not> fits k s y"
          "malloc_loop ok k ?f (?m ?f) s = malloc_loop ok k (last (?b # xs')) ?f s"
        using walk [OF c', of k ok] 2(2) s by auto
      then show ?thesis
      proof cases
        case 1
        then show ?thesis unfolding R Cons x by auto
      next
        case n: 2
        show ?thesis
        proof (cases "fits k s ?f")
          case True
          then have "?fit {last (?b # xs')}" using n(2) l walk_end [of ok k "last (?b # xs')" s] by simp
          moreover have "last (?b # xs') \<in> set ?R" unfolding R Cons x by auto
          ultimately show ?thesis by blast
        next
          case False
          then have "malloc_loop ok k ?f (?m ?f) s = grow ok k s"
            using n(2) walk_end [of ok k "last (?b # xs')" s] by simp
          moreover have "\<forall>y\<in>set ?R. \<not> fits k s y" using n(1) 2(1) b False unfolding R Cons x by auto
          ultimately show ?thesis by blast
        qed
      qed
    qed
  qed
qed

subsection \<open>Growing the heap\<close>

text \<open>
  What \<open>malloc\<close> relies on of the kernel: a break that was granted stays in the address space
  (\<open>growproc\<close> refuses a size of \<open>KERNBASE\<close> or more).
\<close>

definition sbrk_bounded :: "(u32 \<Rightarrow> u32 \<Rightarrow> bool) \<Rightarrow> bool" where
  "sbrk_bounded ok \<longleftrightarrow> (\<forall>b n. ok b n \<longrightarrow> unat b + unat n < 4294967296)"

lemma add_area:
  assumes inv: "uinv m b fp L hi" and p: "hi \<le> unat p" and nu: "0 < nu" "unat p + 8 * unat nu < 4294967296"
  shows "uinv (m(p + 4 := nu)) b fp (L @ [(p, unat nu, False)]) (unat p + 8 * unat nu)"
    "\<And>c j y. (c, j, g) \<in> set L \<Longrightarrow> in_block c j y \<Longrightarrow> y \<noteq> p + 4"
proof -
  let ?m = "m(p + 4 := nu)" and ?L = "L @ [(p, unat nu, False)]" and ?hi = "unat p + 8 * unat nu"
  have U: "b \<noteq> 0" "tiles (unat b + 8) L hi" "sizes m L" "m (b + 4) = 0" "chain m (b # frees L) b" "fp \<in> set (b # frees L)"
    using inv unfolding uinv_def by blast+
  have "tiles hi [(p, unat nu, False)] ?hi" using p nu(1) by (simp add: word_less_nat_alt)
  then have t: "tiles (unat b + 8) ?L ?hi" using U(2) unfolding tiles_append by blast
  have d: "distinct (b # map fst ?L)" by (rule tiles_distinct [OF t])
  have pH: "p \<in> hdrs b ?L" by (simp add: hdrs_def)
  have "chain ?m (b # frees L) b = chain m (b # frees L) b"
  proof (rule chain_frame)
    fix y assume "y \<in> set (b # frees L)"
    then have "y \<in> hdrs b ?L" using frees_hdrs [of L] by (auto simp: hdrs_def)
    then show "?m y = m y" using hdr_ne [OF t nu(2) pH] by auto
  qed
  then have c: "chain ?m (b # frees ?L) b" using U(5) by simp
  have "sizes ?m L"
  proof (rule sizes_frame [OF U(3)])
    fix y assume "y \<in> fst ` set L"
    then show "?m (y + 4) = m (y + 4)" using d by auto
  qed
  then have s: "sizes ?m ?L" by simp
  have "?m (b + 4) = 0" using U(4) d by simp
  then show "uinv ?m b fp ?L ?hi" using U(1,6) nu(2) t s c by (simp add: uinv_def)
  show "y \<noteq> p + 4" if "(c, j, g) \<in> set L" "in_block c j y" for c j y
  proof -
    have "c \<in> fst ` set L" using that(1) by (rule image_eqI [rotated]) simp
    then have "p \<noteq> c" using d by auto
    moreover have "(c, j, g) \<in> set ?L" using that(1) by simp
    ultimately show ?thesis using block_hdr [OF t nu(2) _ pH _ that(2)] by blast
  qed
qed

lemma ring_nonzero: "uinv m b fp L hi \<Longrightarrow> fp \<noteq> 0"
proof -
  assume inv: "uinv m b fp L hi"
  then have U: "b \<noteq> 0" "tiles (unat b + 8) L hi" "fp \<in> set (b # frees L)" unfolding uinv_def by blast+
  then show ?thesis using tiles_frees [OF U(2)] by auto
qed

lemma morecore_ok:
  assumes inv: "uinv (umem s) (base s) (freep s) L (unat (brk s))" and ok: "sbrk_bounded ok"
    and k: "unat k < 268435456"
  shows "morecore ok k s = Some (0, s) \<or>
    (\<exists>s' L'. morecore ok k s = Some (freep s', s') \<and> uinv (umem s') (base s') (freep s') L' (unat (brk s')) \<and>
       base s' = base s \<and> allocs L' = allocs L \<and> (\<exists>c j. (c, j, True) \<in> set L' \<and> unat k \<le> j) \<and> units L \<le> units L' \<and>
       (\<forall>c j y. (c, j) \<in> set (allocs L) \<longrightarrow> in_block c j y \<longrightarrow> umem s' y = umem s y))"
proof (cases "ok (brk s) ((if k < 4096 then 4096 else k) * 8)")
  case False
  then show ?thesis by (simp add: morecore_def sbrk_def)
next
  case True
  define nu where "nu = (if k < 4096 then 4096 else k)"
  let ?p = "brk s"
  have nu: "4096 \<le> unat nu" "unat k \<le> unat nu" "unat nu < 268435456"
    using k by (auto simp: nu_def word_less_nat_alt)
  then have n8: "unat (nu * 8) = 8 * unat nu" by (subst unat_mult_lem [THEN iffD1]) simp_all
  have room: "unat ?p + 8 * unat nu < 4294967296" using ok True n8 unfolding sbrk_bounded_def nu_def [symmetric] by metis
  then have brk: "unat (?p + nu * 8) = unat ?p + 8 * unat nu" using n8 by (simp add: unat_u32_add)
  have "unat (-1 :: u32) = 4294967295" by (simp add: unsigned_minus_1_eq_mask mask_eq_exp_minus_1)
  then have pm: "?p \<noteq> -1" using room nu by auto
  let ?s = "s\<lparr>brk := ?p + nu * 8, umem := (umem s)(?p + 4 := nu)\<rparr>"
  have "0 < nu" using nu(1) by (auto simp: word_less_nat_alt)
  note A = add_area [OF inv order_refl this room]
  have "uinv (umem ?s) (base ?s) (freep ?s) (L @ (?p, unat nu, False) # []) (unat ?p + 8 * unat nu)" using A(1) by simp
  then obtain s' L' where F: "free (?p + 8) ?s = Some s'" "uinv (umem s') (base ?s) (freep s') L' (unat ?p + 8 * unat nu)"
      "base s' = base ?s" "brk s' = brk ?s" "allocs L' = allocs L @ allocs []"
      "\<And>c j y. (c, j) \<in> set (allocs L') \<Longrightarrow> in_block c j y \<Longrightarrow> umem s' y = umem ?s y"
      "\<exists>c j. (c, j, True) \<in> set L' \<and> unat nu \<le> j" "units L' = units L + unat nu + units []"
    by (rule free_ok) (rule that)
  have "morecore ok k s = Some (freep s', s')"
    using True F(1) pm unfolding nu_def [symmetric] by (simp add: morecore_def sbrk_def nu_def [symmetric] Let_def)
  moreover have "uinv (umem s') (base s') (freep s') L' (unat (brk s'))" using F(2-4) brk by simp
  moreover have "\<exists>c j. (c, j, True) \<in> set L' \<and> unat k \<le> j" using F(7) le_trans [OF nu(2)] by blast
  moreover have "umem s' y = umem s y" if c: "(c, j) \<in> set (allocs L)" "in_block c j y" for c j y
    using F(6) [of c j y] A(2) [of c j False y] c F(5) by (simp add: in_allocs)
  moreover have "base s' = base s" "allocs L' = allocs L" "units L \<le> units L'" using F(3,5,8) by simp_all
  ultimately show ?thesis by blast
qed

subsection \<open>The heap and its operations\<close>

lemma alloc_split:
  "allocs L = A @ (a, n) # B \<Longrightarrow> \<exists>L1 L2. L = L1 @ (a, n, False) # L2 \<and> A = allocs L1 \<and> B = allocs L2"
proof (induction L arbitrary: A)
  case (Cons e L)
  obtain c k f where e: "e = (c, k, f)" by (cases e)
  consider "f" | "\<not> f" "A = []" | A' where "\<not> f" "A = (c, k) # A'" "allocs L = A' @ (a, n) # B"
    using Cons.prems e by (cases f; cases A) auto
  then show ?case
  proof cases
    case 1
    then obtain L1 L2 where "L = L1 @ (a, n, False) # L2" "A = allocs L1" "B = allocs L2" using Cons e by auto
    then have "e # L = (e # L1) @ (a, n, False) # L2" "A = allocs (e # L1)" "B = allocs L2" using 1 e by simp_all
    then show ?thesis by blast
  next
    case 2
    then have "e # L = [] @ (a, n, False) # L" "A = allocs []" "B = allocs L" using Cons.prems e by simp_all
    then show ?thesis by blast
  next
    case 3
    then obtain L1 L2 where "L = L1 @ (a, n, False) # L2" "A' = allocs L1" "B = allocs L2" using Cons.IH [OF 3(3)] by blast
    then have "e # L = (e # L1) @ (a, n, False) # L2" "A = allocs (e # L1)" "B = allocs L2" using 3 e by simp_all
    then show ?thesis by blast
  qed
qed simp

text \<open>
  The heap before the first \<open>malloc\<close> is empty; from then on the invariant holds up to the break.
\<close>

definition heap_ok :: "ust \<Rightarrow> layout \<Rightarrow> bool" where
  "heap_ok s L \<longleftrightarrow>
     (if freep s = 0 then L = [] \<and> base s \<noteq> 0 \<and> unat (base s) + 8 \<le> unat (brk s)
      else uinv (umem s) (base s) (freep s) L (unat (brk s)))"

definition kept :: "layout \<Rightarrow> ust \<Rightarrow> ust \<Rightarrow> bool" where
  "kept L s s' \<longleftrightarrow> (\<forall>c n x. (c, n) \<in> set (allocs L) \<longrightarrow> in_block c n x \<longrightarrow> umem s' x = umem s x)"

lemma heap_okI: "uinv (umem s) (base s) (freep s) L (unat (brk s)) \<Longrightarrow> heap_ok s L"
  using ring_nonzero by (auto simp: heap_ok_def)

lemma malloc_found:
  assumes inv: "uinv (umem s) (base s) (freep s) L (unat (brk s))" and k: "0 < k"
    and x: "x \<in> set (base s # frees L)" "fits k s (umem s x)"
  shows "\<exists>r s' L' A B. take_block k x (umem s x) s = (r + 8, s') \<and> heap_ok s' L' \<and> kept L s s' \<and>
    allocs L = A @ B \<and> allocs L' = A @ (r, unat k) # B \<and> units L \<le> units L'"
proof -
  obtain r s' L' A B where T: "take_block k x (umem s x) s = (r + 8, s')"
      "uinv (umem s') (base s) (freep s') L' (unat (brk s))"
      "base s' = base s" "brk s' = brk s" "allocs L = A @ B" "allocs L' = A @ (r, unat k) # B"
      "\<And>c j y. (c, j) \<in> set (allocs L) \<Longrightarrow> in_block c j y \<Longrightarrow> umem s' y = umem s y" "units L' = units L"
    by (rule take_block_ok [OF inv x(1) refl k x(2) [unfolded fits_def]]) (rule that)
  have "heap_ok s' L'" using T(2-4) by (intro heap_okI) simp
  moreover have "kept L s s'" using T(7) by (simp add: kept_def)
  moreover have "units L \<le> units L'" using T(8) by simp
  ultimately show ?thesis using T(1,5,6) by blast
qed

lemma malloc_ok:
  assumes inv: "uinv (umem s) (base s) (freep s) L (unat (brk s))" and ok: "sbrk_bounded ok"
    and k: "0 < k" "unat k < 268435456"
  shows "(\<exists>s'. malloc_loop ok k (freep s) (umem s (freep s)) s = Some (0, s') \<and> heap_ok s' L \<and> kept L s s') \<or>
    (\<exists>r s' L' A B. malloc_loop ok k (freep s) (umem s (freep s)) s = Some (r + 8, s') \<and> heap_ok s' L' \<and>
       kept L s s' \<and> allocs L = A @ B \<and> allocs L' = A @ (r, unat k) # B \<and> units L \<le> units L')"
proof -
  consider (fit) x where "x \<in> set (base s # frees L)" "fits k s (umem s x)"
      "malloc_loop ok k (freep s) (umem s (freep s)) s = Some (take_block k x (umem s x) s)"
    | (none) "malloc_loop ok k (freep s) (umem s (freep s)) s = grow ok k s"
    using walk_ring [OF inv k(1), of ok] by blast
  then show ?thesis
  proof cases
    case fit
    then show ?thesis using malloc_found [OF inv k(1) fit(1,2)] by metis
  next
    case none
    consider (no) "morecore ok k s = Some (0, s)"
      | (yes) s1 L1 where "morecore ok k s = Some (freep s1, s1)" "uinv (umem s1) (base s1) (freep s1) L1 (unat (brk s1))"
         "allocs L1 = allocs L" "\<exists>c j. (c, j, True) \<in> set L1 \<and> unat k \<le> j"
         "\<forall>c j y. (c, j) \<in> set (allocs L) \<longrightarrow> in_block c j y \<longrightarrow> umem s1 y = umem s y" "units L \<le> units L1"
      using morecore_ok [OF inv ok k(2)] by blast
    then show ?thesis
    proof cases
      case no
      then show ?thesis using none heap_okI [OF inv] by (auto simp: grow_def kept_def)
    next
      case yes
      obtain c j where c: "(c, j, True) \<in> set L1" "unat k \<le> j" using yes(4) by blast
      have "sizes (umem s1) L1" using yes(2) unfolding uinv_def by blast
      then have "fits k s1 c" using sizesD [of "umem s1" L1 c j True] c by (simp add: fits_def word_le_nat_alt)
      moreover have "c \<in> set (base s1 # frees L1)" using c(1) in_frees [of c L1] by auto
      ultimately obtain x where x: "x \<in> set (base s1 # frees L1)" "fits k s1 (umem s1 x)"
          "malloc_loop ok k (freep s1) (umem s1 (freep s1)) s1 = Some (take_block k x (umem s1 x) s1)"
        using walk_ring [OF yes(2) k(1), of ok] by blast
      have "malloc_loop ok k (freep s) (umem s (freep s)) s = Some (take_block k x (umem s1 x) s1)"
        using none yes(1) x(3) ring_nonzero [OF yes(2)] by (simp add: grow_def)
      moreover have "kept L s s'" if "kept L1 s1 s'" for s' using that yes(3,5) by (simp add: kept_def)
      ultimately show ?thesis using malloc_found [OF yes(2) k(1) x(1,2)] yes(3) le_trans [OF yes(6)] by metis
    qed
  qed
qed

lemma nunits_unat:
  fixes nbytes :: u32
  assumes "unat nbytes < 2147483616"
  shows "unat ((nbytes + 8 - 1) div 8 + 1) = (unat nbytes + 7) div 8 + 1"
proof -
  have "unat (nbytes + 7) = unat nbytes + 7" using assms by (simp add: unat_u32_add)
  then have "unat ((nbytes + 7) div 8) = (unat nbytes + 7) div 8" by (simp add: unat_div)
  moreover have "(unat nbytes + 7) div 8 < 268435456" using assms by simp
  ultimately have "unat ((nbytes + 7) div 8 + 1) = (unat nbytes + 7) div 8 + 1"
    by (subst unat_u32_add) simp
  then show ?thesis by (simp add: algebra_simps)
qed

lemma first_heap:
  assumes "heap_ok s L" "freep s = 0"
  defines "s1 \<equiv> s\<lparr>umem := (umem s)(base s := base s, base s + 4 := 0), freep := base s\<rparr>"
  shows "uinv (umem s1) (base s1) (freep s1) L (unat (brk s1))"
  using assms unat_u32_less [of "brk s"] by (simp add: heap_ok_def uinv_def)

text \<open>
  C4: \<open>malloc\<close> always returns, as long as the kernel's answers stay in the address space and the
  size is below \<open>2\<^sup>3\<^sup>1 - 32\<close>.  Either it returns the null pointer and the blocks in use are as
  before, or it returns the payload of a block of exactly the units that were asked for, which
  is added to the blocks in use.  The heap is well formed afterwards: the blocks do not overlap,
  and the free list is a ring in the order of the addresses.  The memory of the blocks that were
  in use is unchanged, and no unit of the heap is lost.
\<close>

theorem malloc_block:
  assumes "sbrk_bounded ok" "heap_ok s L" "unat nbytes < 2147483616"
  shows "\<exists>r s' L'. malloc ok nbytes s = Some (r, s') \<and> heap_ok s' L' \<and> kept L s s' \<and> units L \<le> units L' \<and>
    (r = 0 \<and> allocs L' = allocs L \<or>
     (\<exists>A B. allocs L = A @ B \<and> allocs L' = A @ (r - 8, (unat nbytes + 7) div 8 + 1) # B))"
proof -
  define k where "k = (nbytes + 8 - 1) div 8 + 1"
  define s1 where "s1 = (if freep s = 0
    then s\<lparr>umem := (umem s)(base s := base s, base s + 4 := 0), freep := base s\<rparr> else s)"
  have k: "unat k = (unat nbytes + 7) div 8 + 1" unfolding k_def by (rule nunits_unat [OF assms(3)])
  have k': "0 < k" "unat k < 268435456" using k assms(3) by (simp_all add: word_less_nat_alt)
  have m: "malloc ok nbytes s = malloc_loop ok k (freep s1) (umem s1 (freep s1)) s1"
    by (simp add: malloc_def k_def s1_def Let_def)
  have inv: "uinv (umem s1) (base s1) (freep s1) L (unat (brk s1))"
    using first_heap [OF assms(2)] assms(2) by (auto simp: s1_def heap_ok_def)
  have kp: "kept L s s'" if "kept L s1 s'" for s'
    using that assms(2) by (auto simp: s1_def kept_def heap_ok_def split: if_splits)
  consider (none) s' where "malloc ok nbytes s = Some (0, s')" "heap_ok s' L" "kept L s s'"
    | (some) r s' L' A B where "malloc ok nbytes s = Some (r + 8, s')" "heap_ok s' L'" "kept L s s'"
      "allocs L = A @ B" "allocs L' = A @ (r, (unat nbytes + 7) div 8 + 1) # B" "units L \<le> units L'"
    using malloc_ok [OF inv assms(1) k'] kp unfolding m k by blast
  then show ?thesis
  proof cases
    case none
    then show ?thesis by blast
  next
    case some
    moreover have "r = (r + 8) - 8" by simp
    ultimately show ?thesis by metis
  qed
qed

text \<open>The first \<open>malloc\<close> of a program whose size may grow to 2 gigabytes.\<close>

theorem malloc_block_witness:
  "let s = \<lparr>umem = (\<lambda>_. 0), freep = 0, base = 0x1000, brk = 0x2000\<rparr>
   in \<exists>r s' L'. malloc (\<lambda>b n. unat b + unat n < 2147483648) 100 s = Some (r, s') \<and> heap_ok s' L' \<and>
        (r = 0 \<and> allocs L' = [] \<or> allocs L' = [(r - 8, 14)])"
proof -
  let ?s = "\<lparr>umem = (\<lambda>_. 0), freep = 0, base = 0x1000, brk = 0x2000\<rparr>"
  have "sbrk_bounded (\<lambda>b n. unat b + unat n < 2147483648)" by (auto simp: sbrk_bounded_def)
  moreover have "heap_ok ?s []" by (simp add: heap_ok_def)
  ultimately show ?thesis using malloc_block [of "\<lambda>b n. unat b + unat n < 2147483648" ?s "[]" 100] by (auto simp: Let_def)
qed

text \<open>
  C5: \<open>free\<close> always returns when it is given the payload of a block in use.  The block is no
  longer in use, all others are, and their memory is unchanged; the heap is well formed: the
  block was linked into the ring at its place, joined with the free blocks it touches, and no unit is lost.
\<close>

theorem free_block:
  assumes "heap_ok s L" "allocs L = A @ (a, n) # B"
  shows "\<exists>s' L'. free (a + 8) s = Some s' \<and> heap_ok s' L' \<and> allocs L' = A @ B \<and> kept L' s s' \<and> units L' = units L"
proof -
  have nz: "freep s \<noteq> 0" using assms by (auto simp: heap_ok_def)
  obtain L1 L2 where L: "L = L1 @ (a, n, False) # L2" and A: "A = allocs L1" "B = allocs L2"
    using alloc_split [OF assms(2)] by blast
  have "uinv (umem s) (base s) (freep s) (L1 @ (a, n, False) # L2) (unat (brk s))"
    using assms(1) nz by (simp add: heap_ok_def L)
  then obtain s' L' where "free (a + 8) s = Some s'" "uinv (umem s') (base s) (freep s') L' (unat (brk s))"
      "base s' = base s" "brk s' = brk s" "allocs L' = allocs L1 @ allocs L2"
      "\<And>c k x. (c, k) \<in> set (allocs L') \<Longrightarrow> in_block c k x \<Longrightarrow> umem s' x = umem s x"
      "units L' = units L1 + n + units L2"
    by (rule free_ok) (rule that)
  then show ?thesis using heap_okI [of s' L'] A by (auto simp: kept_def L)
qed

text \<open>The only block of a heap is given back.\<close>

theorem free_block_witness:
  "let s = \<lparr>umem = (\<lambda>_. 0)(0x1000 := 0x1000, 0x100c := 2), freep = 0x1000, base = 0x1000, brk = 0x1018\<rparr>
   in \<exists>s' L'. free 0x1010 s = Some s' \<and> heap_ok s' L' \<and> allocs L' = []"
proof -
  let ?s = "\<lparr>umem = (\<lambda>_. 0)(0x1000 := 0x1000, 0x100c := 2), freep = 0x1000, base = 0x1000, brk = 0x1018\<rparr>"
  have "heap_ok ?s [(0x1008, 2, False)]" by (simp add: heap_ok_def uinv_def)
  then show ?thesis using free_block [of ?s "[(0x1008, 2, False)]" "[]" "0x1008" 2 "[]"] by (auto simp: Let_def)
qed

text \<open>
  The number of units is computed in 32 bits: a size within 7 of \<open>2\<^sup>3\<^sup>2\<close> is served as a size
  of 0.
\<close>

lemma malloc_size_wraps: "malloc ok 0xFFFFFFFF s = malloc ok 0 s"
  by (simp add: malloc_def)

end
