(* ===== verification/Mkfs.thy ===== *)
theory Mkfs
  imports FsData
begin

text \<open>
  The program that makes the initial disk image (\<^verbatim>\<open>mkfs.c\<close>).

  The image file is a list of blocks: reading behind its end ends the program, and writing there
  extends the file.  The fields of a structure hold the numbers themselves; \<open>xint\<close> and \<open>xshort\<close>
  are the little-endian encoding that \<open>put32\<close> and \<open>put16\<close> write and \<open>le32\<close> and \<open>le16\<close> read.  A
  failed \<open>assert\<close> and \<open>exit(1)\<close> after a failed call of the host are \<open>panic\<close>.  What the host gives
  for each file on the command line is an argument: its name, and the bytes of one \<open>read\<close> after
  the other, or nothing if the file cannot be opened.
\<close>

definition NINODES :: nat where [simp]: "NINODES = 200"
definition nbitmap :: nat where [simp]: "nbitmap = FSSIZE div (BSIZE * 8) + 1"
definition ninodeblocks :: nat where [simp]: "ninodeblocks = NINODES div unat IPB + 1"
definition nlog :: nat where [simp]: "nlog = LOGSIZE"
definition nmeta :: nat where [simp]: "nmeta = 2 + nlog + ninodeblocks + nbitmap"
definition nblocks :: nat where [simp]: "nblocks = FSSIZE - nmeta"

definition zeroes :: block where
  "zeroes = replicate BSIZE 0"

record mkst =
  img :: "block list"
  freeinode :: u32
  freeblock :: u32

definition mk_sb :: superblock where
  "mk_sb = \<lparr>sb_size = of_nat FSSIZE, sb_nblocks = of_nat nblocks, sb_ninodes = of_nat NINODES,
     sb_nlog = of_nat nlog, sb_logstart = 2, sb_inodestart = of_nat (2 + nlog),
     sb_bmapstart = of_nat (2 + nlog + ninodeblocks)\<rparr>"

definition put_sb :: "superblock \<Rightarrow> block \<Rightarrow> block" where
  "put_sb v b =
     put32 24 (sb_bmapstart v) (put32 20 (sb_inodestart v) (put32 16 (sb_logstart v)
     (put32 12 (sb_nlog v) (put32 8 (sb_ninodes v) (put32 4 (sb_nblocks v) (put32 0 (sb_size v) b))))))"

text \<open>The block at the file offset of a sector; the offset is computed in 32 bits.\<close>

definition sect :: "u32 \<Rightarrow> nat" where
  "sect sec = unat (sec * of_nat BSIZE) div BSIZE"

definition wsect :: "u32 \<Rightarrow> block \<Rightarrow> mkst \<Rightarrow> mkst res" where
  "wsect sec b s =
     (let i = sect sec; m = img s
      in Inr (s\<lparr>img := (if i < length m then m[i := b] else m @ replicate (i - length m) zeroes @ [b])\<rparr>))"

definition rsect :: "u32 \<Rightarrow> mkst \<Rightarrow> block res" where
  "rsect sec s = (let i = sect sec in if i < length (img s) then Inr (img s ! i) else panic ''read'')"

definition winode :: "u32 \<Rightarrow> dinode \<Rightarrow> mkst \<Rightarrow> mkst res" where
  "winode i d s =
     (let bn = IBLOCK i mk_sb
      in bnd (rsect bn s) (\<lambda>b. wsect bn (put_dinode (unat (i mod IPB)) d b) s))"

definition rinode :: "u32 \<Rightarrow> mkst \<Rightarrow> dinode res" where
  "rinode i s =
     (let bn = IBLOCK i mk_sb in bnd (rsect bn s) (\<lambda>b. Inr (get_dinode (unat (i mod IPB)) b)))"

definition mk_ialloc :: "u16 \<Rightarrow> mkst \<Rightarrow> (u32 \<times> mkst) res" where
  "mk_ialloc ty s =
     (let i = freeinode s;
          s = s\<lparr>freeinode := i + 1\<rparr>;
          din = \<lparr>dtype = ty, dmajor = 0, dminor = 0, dnlink = 1, dsize = 0,
                 daddrs = replicate (NDIRECT + 1) 0\<rparr>
      in bnd (winode i din s) (\<lambda>s. Inr (i, s)))"

definition mk_balloc :: "i32 \<Rightarrow> mkst \<Rightarrow> mkst res" where
  "mk_balloc used s =
     (if \<not> sint used < int (BSIZE * 8) then panic ''assert''
      else wsect (sb_bmapstart mk_sb)
             (fold (\<lambda>i b. b[i div 8 := (b ! (i div 8)) OR push_bit (i mod 8) 1]) [0..<nat (sint used)] zeroes) s)"

text \<open>The block of a file that holds its block number \<open>fbn\<close>, allocated if it is missing.\<close>

definition new_block :: "nat \<Rightarrow> dinode \<Rightarrow> mkst \<Rightarrow> dinode \<times> mkst" where
  "new_block k din s =
     (if daddrs din ! k = 0
      then (din\<lparr>daddrs := (daddrs din)[k := freeblock s]\<rparr>, s\<lparr>freeblock := freeblock s + 1\<rparr>)
      else (din, s))"

definition append_block :: "nat \<Rightarrow> dinode \<Rightarrow> mkst \<Rightarrow> (u32 \<times> dinode \<times> mkst) res" where
  "append_block fbn din s =
     (if fbn < NDIRECT
      then let (din, s) = new_block fbn din s in Inr (daddrs din ! fbn, din, s)
      else let (din, s) = new_block NDIRECT din s; j = 4 * (fbn - NDIRECT)
           in bnd (rsect (daddrs din ! NDIRECT) s) (\<lambda>ind.
                if le32 ind j = 0
                then let ind = put32 j (freeblock s) ind;
                         s = s\<lparr>freeblock := freeblock s + 1\<rparr>
                     in bnd (wsect (daddrs din ! NDIRECT) ind s) (\<lambda>s. Inr (le32 ind j, din, s))
                else Inr (le32 ind j, din, s)))"

lemma piece_pos:
  fixes off :: u32
  assumes "unat (off div 512) < 140"
  shows "unat ((off div 512 + 1) * 512 - off) = 512 - unat off mod 512"
    and "unat (off div 512 * 512 + 512 - off) = 512 - unat off mod 512"
proof -
  have A: "x \<le> y \<and> y - x = 512 - r" if "x = 512 * q + r" "r < 512" "y = (q + 1) * 512" for x y q r :: nat
    using that by simp
  have d: "unat (off div 512) = unat off div 512" by (simp add: unat_div)
  have "unat (off div 512 + 1) = unat off div 512 + 1" using assms d by (simp add: unat_u32_add)
  then have "unat ((off div 512 + 1) * 512) = (unat off div 512 + 1) * 512"
    using assms d by (subst unat_mult_lem [THEN iffD1]) simp_all
  then have "unat off \<le> unat ((off div 512 + 1) * 512) \<and>
      unat ((off div 512 + 1) * 512) - unat off = 512 - unat off mod 512"
    by (intro A [where q = "unat off div 512"]) simp_all
  then show e: "unat ((off div 512 + 1) * 512 - off) = 512 - unat off mod 512"
    by (simp only: unat_u32_sub if_True simp_thms)
  have "(off div 512 + 1) * 512 - off = off div 512 * 512 + 512 - off" by (simp add: algebra_simps)
  then show "unat (off div 512 * 512 + 512 - off) = 512 - unat off mod 512" using e by (simp only:)
qed

function iappend_loop :: "dinode \<Rightarrow> u32 \<Rightarrow> u8 list \<Rightarrow> mkst \<Rightarrow> (dinode \<times> u32 \<times> mkst) res" where
  "iappend_loop din off p s =
     (if p = [] then Inr (din, off, s)
      else let fbn = off div of_nat BSIZE
           in if \<not> unat fbn < MAXFILE then panic ''assert''
              else bnd (append_block (unat fbn) din s) (\<lambda>(x, din, s).
                   let n1 = min (length p) (unat ((fbn + 1) * of_nat BSIZE - off))
                   in bnd (rsect x s) (\<lambda>b.
                      bnd (wsect x (splice (unat (off - fbn * of_nat BSIZE)) (take n1 p) b) s) (\<lambda>s.
                        iappend_loop din (off + of_nat n1) (drop n1 p) s))))"
  by pat_completeness auto
termination
  by (relation "measure (\<lambda>(din, off, p, s). length p)") (auto simp: piece_pos)

declare iappend_loop.simps [simp del]

definition iappend :: "u32 \<Rightarrow> u8 list \<Rightarrow> mkst \<Rightarrow> mkst res" where
  "iappend i p s =
     bnd (rinode i s) (\<lambda>din.
     bnd (iappend_loop din (dsize din) p s) (\<lambda>(din, off, s).
       winode i (din\<lparr>dsize := off\<rparr>) s))"

text \<open>One file of the command line; 47 is the slash and 95 the underscore.\<close>

definition add_file :: "u8 list \<times> u8 list list option \<Rightarrow> mkst \<Rightarrow> mkst res" where
  "add_file f s =
     (case f of (name, reads) \<Rightarrow>
       if 47 \<in> set name then panic ''assert''
       else case reads of None \<Rightarrow> panic ''open''
       | Some rds \<Rightarrow>
         let name = (if chr name = 95 then tl name else name)
         in bnd (mk_ialloc T_FILE s) (\<lambda>(i, s).
            bnd (iappend ROOTINO (dirent_bytes \<lparr>de_inum = ucast i, de_name = strncpy DIRSIZ name\<rparr>) s)
              (foldm (iappend i) rds)))"

text \<open>The entries for the root directory itself and its parent.\<close>

definition dot_entry :: "nat \<Rightarrow> u8 list" where
  "dot_entry n = dirent_bytes \<lparr>de_inum = ucast ROOTINO, de_name = replicate n 46 @ replicate (DIRSIZ - n) 0\<rparr>"

definition mkfs_main :: "(u8 list \<times> u8 list list option) list \<Rightarrow> mkst res" where
  "mkfs_main files =
     (let s = \<lparr>img = [], freeinode = 1, freeblock = of_nat nmeta\<rparr>
      in bnd (foldm (\<lambda>i. wsect (of_nat i) zeroes) [0..<FSSIZE] s) (\<lambda>s.
         bnd (wsect 1 (put_sb mk_sb zeroes) s) (\<lambda>s.
         bnd (mk_ialloc T_DIR s) (\<lambda>(rootino, s).
         if rootino \<noteq> ROOTINO then panic ''assert''
         else bnd (iappend rootino (dot_entry 1) s) (\<lambda>s.
              bnd (iappend rootino (dot_entry 2) s) (\<lambda>s.
              bnd (foldm add_file files s) (\<lambda>s.
              bnd (rinode rootino s) (\<lambda>din.
              let off = (dsize din div of_nat BSIZE + 1) * of_nat BSIZE
              in bnd (winode rootino (din\<lparr>dsize := off\<rparr>) s) (\<lambda>s. mk_balloc (freeblock s) s)))))))))"

end
