(* ===== verification/MkfsInv.thy ===== *)
theory MkfsInv
  imports Mkfs FsTx
begin

text \<open>
  The files of a disk image.  A reference is a place that holds a block number: the 13 addresses
  of an inode (places 0 to 12, the last one for the indirect block) and the entries of the
  indirect block (places 13 to 140).  The image is well formed when no block is referenced twice,
  the references lie between the first data block and the first free one, and every file has
  exactly the blocks that its size needs.
\<close>

definition ref :: "block list \<Rightarrow> dinode \<Rightarrow> nat \<Rightarrow> u32" where
  "ref m d k =
     (if k \<le> 12 then daddrs d ! k
      else if daddrs d ! 12 = 0 then 0 else le32 (m ! unat (daddrs d ! 12)) (4 * (k - 13)))"

definition place :: "nat \<Rightarrow> nat" where
  "place k = (if k < 12 then k else k + 1)"

definition byte_at :: "block list \<Rightarrow> dinode \<Rightarrow> nat \<Rightarrow> u8" where
  "byte_at m d x = m ! unat (ref m d (place (x div 512))) ! (x mod 512)"

definition content :: "block list \<Rightarrow> dinode \<Rightarrow> u8 list" where
  "content m d = map (byte_at m d) [0..<unat (dsize d)]"

definition refs_ok :: "block list \<Rightarrow> nat \<Rightarrow> (nat \<Rightarrow> dinode) \<Rightarrow> bool" where
  "refs_ok m fb D \<longleftrightarrow>
     (\<forall>i<208. \<forall>k<141. ref m (D i) k \<noteq> 0 \<longrightarrow> 59 \<le> unat (ref m (D i) k) \<and> unat (ref m (D i) k) < fb) \<and>
     (\<forall>i<208. \<forall>j<208. \<forall>k<141. \<forall>l<141. ref m (D i) k = ref m (D j) l \<longrightarrow> ref m (D i) k \<noteq> 0 \<longrightarrow> i = j \<and> k = l)"

definition image_ok :: "block list \<Rightarrow> nat \<Rightarrow> (nat \<Rightarrow> dinode) \<Rightarrow> bool" where
  "image_ok m fb D \<longleftrightarrow>
     length m = 1000 \<and> (\<forall>b\<in>set m. length b = 512) \<and> 59 \<le> fb \<and> fb \<le> 1000 \<and>
     (\<forall>b. fb \<le> b \<longrightarrow> b < 1000 \<longrightarrow> m ! b = zeroes) \<and>
     (\<forall>i<208. length (daddrs (D i)) = 13) \<and> refs_ok m fb D"

definition sized :: "block list \<Rightarrow> dinode \<Rightarrow> bool" where
  "sized m d \<longleftrightarrow> unat (dsize d) \<le> 140 * 512 \<and>
     (\<forall>k<140. ref m d (place k) \<noteq> 0 \<longleftrightarrow> k * 512 < unat (dsize d)) \<and>
     (daddrs d ! 12 \<noteq> 0 \<longleftrightarrow> 12 * 512 < unat (dsize d))"

lemma place_less: "k < 140 \<Longrightarrow> place k < 141" and place_ne: "place k \<noteq> 12"
  and place_inj [simp]: "place k = place l \<longleftrightarrow> k = l"
  by (auto simp: place_def)

lemma refs_okD:
  assumes "refs_ok m fb D" "i < 208" "k < 141" "ref m (D i) k \<noteq> 0"
  shows "59 \<le> unat (ref m (D i) k)" "unat (ref m (D i) k) < fb"
    "j < 208 \<Longrightarrow> l < 141 \<Longrightarrow> ref m (D i) k = ref m (D j) l \<Longrightarrow> i = j \<and> k = l"
  using assms unfolding refs_ok_def by blast+

lemma image_okD:
  assumes "image_ok m fb D"
  shows "length m = 1000" "b < 1000 \<Longrightarrow> length (m ! b) = 512" "59 \<le> fb" "fb \<le> 1000"
    "fb \<le> b \<Longrightarrow> b < 1000 \<Longrightarrow> m ! b = zeroes" "i < 208 \<Longrightarrow> length (daddrs (D i)) = 13" "refs_ok m fb D"
  using assms unfolding image_ok_def by auto

lemma ref12 [simp]: "ref m d 12 = daddrs d ! 12"
  by (simp add: ref_def)

subsection \<open>Allocating a block\<close>

lemma refs_ok_new:
  assumes r: "refs_ok m fb D" and fb: "59 \<le> fb" "fb \<le> 1000" and ik: "i < 208" "k < 141"
    and new: "\<And>j l. j < 208 \<Longrightarrow> l < 141 \<Longrightarrow>
      ref m' (D' j) l = (if j = i \<and> l = k then of_nat fb else ref m (D j) l)"
  shows "refs_ok m' (fb + 1) D'"
proof -
  have u: "unat (of_nat fb :: u32) = fb" using fb by (simp add: unat_of_nat_u32)
  have old: "ref m (D j) l \<noteq> of_nat fb" if "j < 208" "l < 141" for j l
  proof
    assume e: "ref m (D j) l = of_nat fb"
    then have "unat (ref m (D j) l) = fb" using u by simp
    moreover have "ref m (D j) l \<noteq> 0" using \<open>unat (ref m (D j) l) = fb\<close> fb by auto
    ultimately show False using refs_okD(2) [OF r that] by simp
  qed
  show ?thesis unfolding refs_ok_def
  proof (intro conjI allI impI)
    fix j l assume jl: "j < (208 :: nat)" "l < (141 :: nat)" "ref m' (D' j) l \<noteq> 0"
    then have "unat (ref m' (D' j) l) = fb \<or> ref m (D j) l \<noteq> 0 \<and> ref m' (D' j) l = ref m (D j) l"
      using new [OF jl(1,2)] u by auto
    then show "59 \<le> unat (ref m' (D' j) l)" "unat (ref m' (D' j) l) < fb + 1"
      using refs_okD(1,2) [OF r jl(1,2)] fb by auto
  next
    fix j1 j2 l1 l2 assume a: "j1 < (208 :: nat)" "j2 < (208 :: nat)" "l1 < (141 :: nat)" "l2 < (141 :: nat)"
      and e: "ref m' (D' j1) l1 = ref m' (D' j2) l2" and z: "ref m' (D' j1) l1 \<noteq> 0"
    show "j1 = j2" "l1 = l2"
      using e z new [OF a(1,3)] new [OF a(2,4)] old [OF a(1,3)] old [OF a(2,4)] refs_okD(3) [OF r a(1,3) _ a(2,4)]
      by (auto split: if_splits)
  qed
qed

lemma alloc_direct:
  assumes inv: "image_ok m fb D" and fb: "fb < 1000" and ik: "i < 208" "k \<le> 12" and z: "daddrs (D i) ! k = 0"
    and D': "D' = D(i := (D i)\<lparr>daddrs := (daddrs (D i))[k := of_nat fb], dsize := sz'\<rparr>)"
  shows "image_ok m (fb + 1) D'"
    "\<And>j l. j < 208 \<Longrightarrow> l < 141 \<Longrightarrow> ref m (D' j) l = (if j = i \<and> l = k then of_nat fb else ref m (D j) l)"
proof -
  note I = image_okD [OF inv]
  have len: "length (daddrs (D i)) = 13" using I(6) ik(1) .
  have zero: "le32 (m ! fb) x = 0" if "x + 3 < 512" for x
    using I(5) [of fb] fb that by (simp add: zeroes_def le32_def)
  have u: "unat (of_nat fb :: u32) = fb" using fb by (simp add: unat_of_nat_u32)
  show R: "ref m (D' j) l = (if j = i \<and> l = k then of_nat fb else ref m (D j) l)" if "j < 208" "l < 141" for j l
  proof (cases "j = i")
    case True
    then show ?thesis using that ik len z u zero [of "4 * (l - 13)"] by (auto simp: D' ref_def nth_list_update)
  qed (simp add: D')
  have "length (daddrs (D' j)) = 13" if "j < 208" for j using I(6) that len by (simp add: D')
  moreover have "k < 141" using ik(2) by simp
  then have "refs_ok m (fb + 1) D'" using refs_ok_new [OF I(7,3,4) ik(1) _ R] by blast
  ultimately show "image_ok m (fb + 1) D'" using inv fb by (auto simp: image_ok_def)
qed

lemma alloc_indirect:
  assumes inv: "image_ok m fb D" and fb: "fb < 1000" and ik: "i < 208" "12 < k" "k < 141"
    and ind: "daddrs (D i) ! 12 \<noteq> 0" "x = unat (daddrs (D i) ! 12)" and z: "ref m (D i) k = 0"
    and m': "m' = m[x := put32 (4 * (k - 13)) (of_nat fb) (m ! x)]"
  shows "image_ok m' (fb + 1) D"
    "\<And>j l. j < 208 \<Longrightarrow> l < 141 \<Longrightarrow> ref m' (D j) l = (if j = i \<and> l = k then of_nat fb else ref m (D j) l)"
    "59 \<le> x" "x < fb"
proof -
  note I = image_okD [OF inv]
  have rx: "ref m (D i) 12 \<noteq> 0" using ind(1) by simp
  show x: "59 \<le> x" "x < fb" using refs_okD(1,2) [OF I(7) ik(1) _ rx] ind(2) by simp_all
  then have x': "x < length m" "length (m ! x) = 512" using fb I(1,2) by simp_all
  show R: "ref m' (D j) l = (if j = i \<and> l = k then of_nat fb else ref m (D j) l)" if jl: "j < 208" "l < 141" for j l
  proof (cases "l \<le> 12 \<or> daddrs (D j) ! 12 = 0")
    case True
    then show ?thesis using ik ind(1) by (auto simp: ref_def)
  next
    case False
    show ?thesis
    proof (cases "j = i")
      case True
      have "4 * (l - 13) + 4 \<le> 512" "4 * (k - 13) + 4 \<le> 512" using jl ik by simp_all
      moreover have "l \<noteq> k \<Longrightarrow> 4 * (l - 13) + 4 \<le> 4 * (k - 13) \<or> 4 * (k - 13) + 4 \<le> 4 * (l - 13)"
        using False ik True ind(1) by arith
      ultimately show ?thesis using False True x' ind by (auto simp: ref_def m' le32_put32_other)
    next
      case ne: False
      have "daddrs (D j) ! 12 \<noteq> daddrs (D i) ! 12"
        using refs_okD(3) [OF I(7) jl(1), of 12 i 12] False ne ik(1) by auto
      then have "unat (daddrs (D j) ! 12) \<noteq> x" using ind(2) by (simp add: word_unat_eq_iff)
      then show ?thesis using ne by (simp add: ref_def m')
    qed
  qed
  have "m' ! b = zeroes" if "fb + 1 \<le> b" "b < 1000" for b using I(5) [of b] x that by (simp add: m')
  moreover have "\<forall>b\<in>set m'. length b = 512"
    using inv x' set_update_subset_insert [of m x] unfolding m' image_ok_def by fastforce
  moreover have "refs_ok m' (fb + 1) D" using refs_ok_new [OF I(7,3,4) ik(1,3) R] by blast
  ultimately show "image_ok m' (fb + 1) D" using inv fb by (auto simp: image_ok_def m')
qed

subsection \<open>Writing a block\<close>

lemma write_block:
  assumes inv: "image_ok m fb D" and b: "b < fb" "length buf = 512"
    and data: "\<forall>j<208. daddrs (D j) ! 12 \<noteq> 0 \<longrightarrow> unat (daddrs (D j) ! 12) \<noteq> b"
  shows "image_ok (m[b := buf]) fb D" "\<And>j l. j < 208 \<Longrightarrow> ref (m[b := buf]) (D j) l = ref m (D j) l"
proof -
  note I = image_okD [OF inv]
  show R: "ref (m[b := buf]) (D j) l = ref m (D j) l" if "j < 208" for j l
    using data that by (auto simp: ref_def)
  have "refs_ok (m[b := buf]) fb D" using I(7) R unfolding refs_ok_def by simp
  moreover have "(m[b := buf]) ! c = zeroes" if "fb \<le> c" "c < 1000" for c using I(5) [of c] b(1) that by simp
  moreover have "\<forall>c\<in>set (m[b := buf]). length c = 512"
    using inv b(2) set_update_subset_insert [of m b buf] unfolding image_ok_def by blast
  ultimately show "image_ok (m[b := buf]) fb D" using inv by (auto simp: image_ok_def)
qed

text \<open>A block in front of the data blocks is part of no file.\<close>

lemma write_meta:
  assumes inv: "image_ok m fb D" and b: "b < 59" "length buf = 512"
  shows "image_ok (m[b := buf]) fb D" "\<And>j l. j < 208 \<Longrightarrow> ref (m[b := buf]) (D j) l = ref m (D j) l"
    "\<And>j x. j < 208 \<Longrightarrow> x < 71680 \<Longrightarrow> ref m (D j) (place (x div 512)) \<noteq> 0 \<Longrightarrow> byte_at (m[b := buf]) (D j) x = byte_at m (D j) x"
proof -
  note I = image_okD [OF inv]
  have d: "unat (daddrs (D j) ! 12) \<noteq> b" if "j < 208" "daddrs (D j) ! 12 \<noteq> 0" for j
    using refs_okD(1) [OF I(7) that(1), of 12] that(2) b(1) by simp
  have "b < fb" using b(1) I(3) by simp
  note W = write_block [OF inv this b(2)]
  show "image_ok (m[b := buf]) fb D" using W(1) d by blast
  show R: "ref (m[b := buf]) (D j) l = ref m (D j) l" if "j < 208" for j l using W(2) d that by blast
  show "byte_at (m[b := buf]) (D j) x = byte_at m (D j) x"
    if "j < 208" "x < 71680" "ref m (D j) (place (x div 512)) \<noteq> 0" for j x
  proof -
    have "place (x div 512) < 141" using that(2) by (intro place_less) simp
    then have "unat (ref m (D j) (place (x div 512))) \<noteq> b" using refs_okD(1) [OF I(7) that(1) _ that(3)] b(1) by simp
    then show ?thesis using R [OF that(1)] by (simp add: byte_at_def)
  qed
qed

lemma write_data:
  assumes inv: "image_ok m fb D" and ik: "i < 208" "k < 140" and nz: "ref m (D i) (place k) \<noteq> 0"
    and b: "b = unat (ref m (D i) (place k))" "length buf = 512"
  shows "image_ok (m[b := buf]) fb D" "\<And>j l. j < 208 \<Longrightarrow> ref (m[b := buf]) (D j) l = ref m (D j) l"
    "\<And>j x. j < 208 \<Longrightarrow> x < 71680 \<Longrightarrow> ref m (D j) (place (x div 512)) \<noteq> 0 \<Longrightarrow>
       byte_at (m[b := buf]) (D j) x = (if j = i \<and> x div 512 = k then buf ! (x mod 512) else byte_at m (D j) x)"
    "59 \<le> b" "b < fb"
proof -
  note I = image_okD [OF inv]
  show r: "59 \<le> b" "b < fb" using refs_okD(1,2) [OF I(7) ik(1) place_less [OF ik(2)] nz] b(1) by simp_all
  have d: "unat (daddrs (D j) ! 12) \<noteq> b" if "j < 208" "daddrs (D j) ! 12 \<noteq> 0" for j
  proof
    assume "unat (daddrs (D j) ! 12) = b"
    then have "ref m (D i) (place k) = ref m (D j) 12" using b(1) by (simp add: word_unat_eq_iff)
    then show False using refs_okD(3) [OF I(7) ik(1) place_less [OF ik(2)] nz that(1), of 12] place_ne [of k] by simp
  qed
  note W = write_block [OF inv r(2) b(2)]
  show "image_ok (m[b := buf]) fb D" using W(1) d by blast
  show R: "ref (m[b := buf]) (D j) l = ref m (D j) l" if "j < 208" for j l using W(2) d that by blast
  show "byte_at (m[b := buf]) (D j) x = (if j = i \<and> x div 512 = k then buf ! (x mod 512) else byte_at m (D j) x)"
    if "j < 208" "x < 71680" "ref m (D j) (place (x div 512)) \<noteq> 0" for j x
  proof (cases "j = i \<and> x div 512 = k")
    case True
    then show ?thesis using R [OF that(1)] b(1) r I(1,4) by (simp add: byte_at_def)
  next
    case False
    have pl: "place (x div 512) < 141" using that(2) by (intro place_less) simp
    have "unat (ref m (D j) (place (x div 512))) \<noteq> b"
    proof
      assume "unat (ref m (D j) (place (x div 512))) = b"
      then have "ref m (D i) (place k) = ref m (D j) (place (x div 512))" using b(1) by (simp add: word_unat_eq_iff)
      then show False using refs_okD(3) [OF I(7) ik(1) place_less [OF ik(2)] nz that(1) pl] False by simp
    qed
    then show ?thesis using R [OF that(1)] False by (auto simp: byte_at_def)
  qed
qed

subsection \<open>The block that an append writes\<close>

text \<open>
  \<open>keeps m D m' D'\<close>: a step that only adds references.  The references that were there are the
  same, and so are the blocks in front of the data and the data blocks of the files.
\<close>

definition keeps :: "block list \<Rightarrow> (nat \<Rightarrow> dinode) \<Rightarrow> block list \<Rightarrow> (nat \<Rightarrow> dinode) \<Rightarrow> bool" where
  "keeps m D m' D' \<longleftrightarrow>
     (\<forall>j<208. \<forall>l<141. ref m (D j) l \<noteq> 0 \<longrightarrow> ref m' (D' j) l = ref m (D j) l) \<and> (\<forall>b<59. m' ! b = m ! b) \<and>
     (\<forall>j<208. \<forall>k<140. ref m (D j) (place k) \<noteq> 0 \<longrightarrow>
        m' ! unat (ref m (D j) (place k)) = m ! unat (ref m (D j) (place k)))"

lemma keeps_refl: "keeps m D m D"
  by (simp add: keeps_def)

lemma keeps_trans: "keeps m D m1 D1 \<Longrightarrow> keeps m1 D1 m2 D2 \<Longrightarrow> keeps m D m2 D2"
  using place_less unfolding keeps_def by (metis (no_types, lifting))

lemma keeps_byte:
  assumes "keeps m D m' D'" "j < 208" "x < 71680" "ref m (D j) (place (x div 512)) \<noteq> 0"
  shows "byte_at m' (D' j) x = byte_at m (D j) x"
proof -
  have "x div 512 < 140" using assms(3) by simp
  then show ?thesis using assms place_less [of "x div 512"] by (simp add: keeps_def byte_at_def)
qed

lemma sect_eq: "unat b < 1000 \<Longrightarrow> sect b = unat b"
proof -
  assume "unat b < 1000"
  then have "unat (b * 512) = unat b * 512" by (subst unat_mult_lem [THEN iffD1]) simp_all
  then show ?thesis by (simp add: sect_def)
qed

lemma new_block_ok:
  assumes inv: "image_ok (img s) (unat (freeblock s)) D" and ik: "i < 208" "k \<le> 12"
    and room: "daddrs din ! k = 0 \<longrightarrow> unat (freeblock s) < 1000" and Di: "D i = din\<lparr>dsize := off\<rparr>"
    and e: "new_block k din s = (din', s')" and D': "D' = D(i := din'\<lparr>dsize := off\<rparr>)"
  shows "image_ok (img s') (unat (freeblock s')) D'" "keeps (img s) D (img s') D'"
    "\<And>j l. j < 208 \<Longrightarrow> l < 141 \<Longrightarrow> \<not> (j = i \<and> l = k) \<Longrightarrow> ref (img s') (D' j) l = ref (img s) (D j) l"
    "daddrs din' ! k \<noteq> 0" "img s' = img s" "freeinode s' = freeinode s"
    "unat (freeblock s') = unat (freeblock s) + (if daddrs din ! k = 0 then 1 else 0)"
    "din'\<lparr>daddrs := daddrs din\<rparr> = din"
proof -
  let ?fb = "unat (freeblock s)"
  have all: "image_ok (img s') (unat (freeblock s')) D' \<and> keeps (img s) D (img s') D' \<and>
      (\<forall>j l. j < 208 \<longrightarrow> l < 141 \<longrightarrow> \<not> (j = i \<and> l = k) \<longrightarrow> ref (img s') (D' j) l = ref (img s) (D j) l) \<and>
      daddrs din' ! k \<noteq> 0 \<and> img s' = img s \<and> freeinode s' = freeinode s \<and>
      unat (freeblock s') = ?fb + (if daddrs din ! k = 0 then 1 else 0) \<and> din'\<lparr>daddrs := daddrs din\<rparr> = din"
  proof (cases "daddrs din ! k = 0")
    case False
    have "D' = D" using e False Di by (auto simp: D' new_block_def)
    then show ?thesis using e False inv keeps_refl by (auto simp: new_block_def)
  next
    case True
    note I = image_okD [OF inv]
    have fb: "?fb < 1000" using room True by simp
    have s': "din' = din\<lparr>daddrs := (daddrs din)[k := freeblock s]\<rparr>" "s' = s\<lparr>freeblock := freeblock s + 1\<rparr>"
      using e True by (auto simp: new_block_def)
    have u: "unat (freeblock s + 1) = ?fb + 1" using fb by (simp add: unat_u32_add)
    have o: "of_nat ?fb = freeblock s" by simp
    have len: "length (daddrs din) = 13" using I(6) [OF ik(1)] Di by simp
    have z: "daddrs (D i) ! k = 0" using True Di by simp
    have "D' = D(i := (D i)\<lparr>daddrs := (daddrs (D i))[k := of_nat ?fb], dsize := off\<rparr>)" by (simp add: D' s' Di)
    note A = alloc_direct [OF inv fb ik z this]
    have "keeps (img s) D (img s) D'"
      using A(2) z ik(2) by (auto simp: keeps_def ref_def [of "img s" "D i" k])
    moreover have "freeblock s \<noteq> 0" using I(3) by auto
    ultimately show ?thesis using A u s' True len ik(2) by auto
  qed
  show "image_ok (img s') (unat (freeblock s')) D'" "keeps (img s) D (img s') D'"
    "\<And>j l. j < 208 \<Longrightarrow> l < 141 \<Longrightarrow> \<not> (j = i \<and> l = k) \<Longrightarrow> ref (img s') (D' j) l = ref (img s) (D j) l"
    "daddrs din' ! k \<noteq> 0" "img s' = img s" "freeinode s' = freeinode s"
    "unat (freeblock s') = unat (freeblock s) + (if daddrs din ! k = 0 then 1 else 0)"
    "din'\<lparr>daddrs := daddrs din\<rparr> = din"
    using all by blast+
qed

lemma append_block_ok:
  assumes inv: "image_ok (img s) (unat (freeblock s)) D" and ik: "i < 208" "k < 140" and Di: "D i = din\<lparr>dsize := off\<rparr>"
    and need: "need = (if ref (img s) (D i) (place k) = 0 then 1 else 0) + (if 12 \<le> k \<and> daddrs din ! 12 = 0 then 1 else 0)"
    and room: "unat (freeblock s) + need \<le> 1000"
  obtains din' s' D' where "D' = D(i := din'\<lparr>dsize := off\<rparr>)"
    "append_block k din s = Inr (ref (img s') (D' i) (place k), din', s')"
    "image_ok (img s') (unat (freeblock s')) D'" "keeps (img s) D (img s') D'"
    "\<And>j l. j < 208 \<Longrightarrow> l < 141 \<Longrightarrow> \<not> (j = i \<and> (l = place k \<or> l = 12 \<and> 12 \<le> k)) \<Longrightarrow>
       ref (img s') (D' j) l = ref (img s) (D j) l"
    "ref (img s') (D' i) (place k) \<noteq> 0" "12 \<le> k \<Longrightarrow> daddrs din' ! 12 \<noteq> 0" "freeinode s' = freeinode s"
    "unat (freeblock s') = unat (freeblock s) + need" "din'\<lparr>daddrs := daddrs din\<rparr> = din"
proof (cases "k < 12")
  case True
  then have pk: "place k = k" and r: "ref m d k = daddrs d ! k" for m d by (auto simp: place_def ref_def)
  obtain din' s' where e: "new_block k din s = (din', s')" by fastforce
  have rm: "daddrs din ! k = 0 \<longrightarrow> unat (freeblock s) < 1000" using room need True Di r [of "img s" "D i"] pk by auto
  have "k \<le> 12" using True by simp
  note N = new_block_ok [OF inv ik(1) this rm Di e refl]
  have "append_block k din s = Inr (daddrs din' ! k, din', s')" using True e by (simp add: append_block_def)
  then show thesis using that [OF refl, of s' din'] N need True pk r Di by simp
next
  case False
  then have pk: "place k = k + 1" by (simp add: place_def)
  obtain d1 s1 where e: "new_block 12 din s = (d1, s1)" by fastforce
  have rm: "daddrs din ! 12 = 0 \<longrightarrow> unat (freeblock s) < 1000" using room need False by (auto split: if_splits)
  define D1 where "D1 = D(i := d1\<lparr>dsize := off\<rparr>)"
  note N = new_block_ok [OF inv ik(1) order_refl rm Di e D1_def]
  have D1i: "D1 i = d1\<lparr>dsize := off\<rparr>" by (simp add: D1_def)
  define x where "x = unat (daddrs d1 ! 12)"
  have "ref (img s1) (D1 i) 12 \<noteq> 0" using N(4) D1i by simp
  then have xr: "59 \<le> x" "x < unat (freeblock s1)"
    using refs_okD(1,2) [OF image_okD(7) [OF N(1)] ik(1), of 12] D1i by (simp_all add: x_def)
  then have x1: "x < 1000" "x < length (img s1)" using image_okD(1,4) [OF N(1)] by simp_all
  have sx: "sect (daddrs d1 ! 12) = x" using sect_eq x1 by (simp add: x_def)
  have rk: "ref (img s1) (D1 i) (place k) = le32 (img s1 ! x) (4 * (k - 12))"
    using N(4) False by (simp add: ref_def pk D1i x_def)
  have rk0: "ref (img s1) (D1 i) (place k) = ref (img s) (D i) (place k)"
    using N(3) [OF ik(1) place_less [OF ik(2)]] place_ne by simp
  show thesis
  proof (cases "le32 (img s1 ! x) (4 * (k - 12)) = 0")
    case nz: False
    have "append_block k din s = Inr (ref (img s1) (D1 i) (place k), d1, s1)"
      using False e nz sx x1 rk by (simp add: append_block_def rsect_def Let_def)
    then show thesis using that [OF D1_def] N need rk0 rk nz False by (auto split: if_splits)
  next
    case z: True
    let ?fb = "unat (freeblock s1)"
    have fb: "?fb < 1000" using N(7) need room z rk rk0 False by (auto split: if_splits)
    define m' where "m' = (img s1)[x := put32 (4 * (place k - 13)) (of_nat ?fb) (img s1 ! x)]"
    define s' where "s' = s1\<lparr>freeblock := freeblock s1 + 1, img := m'\<rparr>"
    have u: "unat (freeblock s1 + 1) = ?fb + 1" using fb by (simp add: unat_u32_add)
    have p: "12 < place k" "place k < 141" using False pk ik(2) by simp_all
    have "daddrs (D1 i) ! 12 \<noteq> 0" "x = unat (daddrs (D1 i) ! 12)" "ref (img s1) (D1 i) (place k) = 0"
      using N(4) z rk by (simp_all add: D1i x_def)
    note A = alloc_indirect [OF N(1) fb ik(1) p this m'_def]
    have new: "ref m' (D1 i) (place k) = freeblock s1" using A(2) [OF ik(1) p(2)] by simp
    have "le32 (put32 (4 * (k - 12)) (freeblock s1) (img s1 ! x)) (4 * (k - 12)) = freeblock s1"
      using image_okD(2) [OF N(1) x1(1)] ik(2) False by simp
    then have ab: "append_block k din s = Inr (ref (img s') (D1 i) (place k), d1, s')"
      using False e z sx x1 new
      by (simp add: append_block_def rsect_def wsect_def Let_def s'_def m'_def pk)
    have k1: "keeps (img s1) D1 m' D1"
    proof -
      have "x \<noteq> unat (ref (img s1) (D1 j) (place l))" if "j < 208" "l < 140" "ref (img s1) (D1 j) (place l) \<noteq> 0" for j l
      proof
        assume "x = unat (ref (img s1) (D1 j) (place l))"
        then have "ref (img s1) (D1 j) (place l) = ref (img s1) (D1 i) 12" by (simp add: D1i x_def word_unat_eq_iff)
        then show False
          using refs_okD(3) [OF image_okD(7) [OF N(1)] that(1) place_less [OF that(2)] that(3) ik(1), of 12] place_ne by simp
      qed
      moreover have "ref m' (D1 j) l = ref (img s1) (D1 j) l" if "j < 208" "l < 141" "ref (img s1) (D1 j) l \<noteq> 0" for j l
        using A(2) [OF that(1,2)] that(3) rk z by auto
      moreover have "m' ! b = img s1 ! b" if "b < 59" for b using that xr by (simp add: m'_def)
      ultimately show ?thesis by (simp add: keeps_def m'_def)
    qed
    have "ref m' (D1 i) (place k) \<noteq> 0" using new image_okD(3) [OF N(1)] by auto
    moreover have "ref (img s') (D1 j) l = ref (img s) (D j) l"
      if "j < 208" "l < 141" "\<not> (j = i \<and> (l = place k \<or> l = 12 \<and> 12 \<le> k))" for j l
      using A(2) [OF that(1,2)] N(3) [OF that(1,2)] that(3) False by (auto simp: s'_def)
    moreover have "unat (freeblock s') = unat (freeblock s) + need"
      using u N(7) need z rk rk0 False by (auto simp: s'_def)
    ultimately show thesis using that [OF D1_def ab] A(1) keeps_trans [OF N(2) k1] N(4,6,8) u by (simp add: s'_def)
  qed
qed

end
