(* ===== verification/MkfsFiles.thy ===== *)
theory MkfsFiles
  imports MkfsInv
begin

text \<open>Appending to the files of an image.\<close>

text \<open>The blocks that a file of \<open>n\<close> bytes needs, the indirect block included.\<close>

definition blocks :: "nat \<Rightarrow> nat" where
  "blocks n = (let b = (n + 511) div 512 in b + (if 12 < b then 1 else 0))"

definition files_ok :: "block list \<Rightarrow> nat \<Rightarrow> (nat \<Rightarrow> dinode) \<Rightarrow> bool" where
  "files_ok m fb D \<longleftrightarrow> image_ok m fb D \<and> (\<forall>i<208. sized m (D i))"

lemma ref_resize [simp]: "ref m (d\<lparr>dsize := z\<rparr>) k = ref m d k"
  by (simp add: ref_def)

lemma byte_resize [simp]: "byte_at m (d\<lparr>dsize := z\<rparr>) x = byte_at m d x"
  by (simp add: byte_at_def)

lemma image_ok_resize: "image_ok m fb (D(i := d\<lparr>dsize := z\<rparr>)) = image_ok m fb (D(i := d))"
proof -
  have "ref m ((D(i := d\<lparr>dsize := z\<rparr>)) j) k = ref m ((D(i := d)) j) k" for j k by simp
  moreover have "daddrs ((D(i := d\<lparr>dsize := z\<rparr>)) j) = daddrs ((D(i := d)) j)" for j by simp
  ultimately show ?thesis unfolding image_ok_def refs_ok_def by presburger
qed

lemma blocks_step:
  fixes off n1 :: nat
  assumes "0 < n1" "n1 \<le> 512 - off mod 512"
  shows "blocks (off + n1) = blocks off + (if off mod 512 = 0 then 1 else 0) + (if off = 6144 then 1 else 0)"
proof -
  define q r where "q = off div 512" and "r = off mod 512"
  then have off: "off = 512 * q + r" "r < 512" by simp_all
  have r: "off mod 512 = r" using off by simp
  have n1: "n1 + r \<le> 512" using assms off(2) r by simp
  have c1: "(off + n1 + 511) div 512 = q + 1" by (rule div_nat_eqI) (use assms(1) n1 off(1) in simp_all)
  have c0: "(off + 511) div 512 = (if r = 0 then q else q + 1)" by (rule div_nat_eqI) (use off in simp_all)
  have "off = 6144 \<longleftrightarrow> q = 12 \<and> r = 0" using off by presburger
  then show ?thesis unfolding blocks_def Let_def c1 c0 r by auto
qed

lemma content_grow:
  assumes n: "unat (dsize d') = unat (dsize d) + length v"
    and old: "\<And>x. x < unat (dsize d) \<Longrightarrow> byte_at m' d' x = byte_at m d x"
    and new: "\<And>x. unat (dsize d) \<le> x \<Longrightarrow> x < unat (dsize d) + length v \<Longrightarrow> byte_at m' d' x = v ! (x - unat (dsize d))"
  shows "content m' d' = content m d @ v"
  by (rule nth_equalityI) (use assms in \<open>auto simp: content_def nth_append\<close>)

text \<open>
  \<open>appended i p s D s' D'\<close>: from the inodes \<open>D\<close> to \<open>D'\<close> the bytes \<open>p\<close> were added to file \<open>i\<close>, the
  other files are as before, and exactly the blocks were taken that the larger file needs.
\<close>

definition appended :: "nat \<Rightarrow> u8 list \<Rightarrow> mkst \<Rightarrow> (nat \<Rightarrow> dinode) \<Rightarrow> mkst \<Rightarrow> (nat \<Rightarrow> dinode) \<Rightarrow> bool" where
  "appended i p s D s' D' \<longleftrightarrow>
     files_ok (img s') (unat (freeblock s')) D' \<and> content (img s') (D' i) = content (img s) (D i) @ p \<and>
     (\<forall>j<208. j \<noteq> i \<longrightarrow> D' j = D j \<and> content (img s') (D j) = content (img s) (D j)) \<and>
     (D' i)\<lparr>daddrs := daddrs (D i), dsize := dsize (D i)\<rparr> = D i \<and>
     unat (dsize (D' i)) = unat (dsize (D i)) + length p \<and> freeinode s' = freeinode s \<and>
     unat (freeblock s') + blocks (unat (dsize (D i))) = unat (freeblock s) + blocks (unat (dsize (D i)) + length p)"

lemma appended_trans:
  assumes a: "appended i p s D s1 D1" and b: "appended i q s1 D1 s2 D2"
  shows "appended i (p @ q) s D s2 D2"
proof -
  have "D2 i\<lparr>daddrs := daddrs (D i), dsize := dsize (D i)\<rparr> =
      (D2 i\<lparr>daddrs := daddrs (D1 i), dsize := dsize (D1 i)\<rparr>)\<lparr>daddrs := daddrs (D i), dsize := dsize (D i)\<rparr>" by simp
  also have "\<dots> = D i" using a b by (simp add: appended_def)
  finally show ?thesis using a b by (auto simp: appended_def algebra_simps)
qed

lemma blocks_mono: "m \<le> n \<Longrightarrow> blocks m \<le> blocks n"
proof -
  assume "m \<le> n"
  then have "(m + 511) div 512 \<le> (n + 511) div 512" by (intro div_le_mono) simp
  then show ?thesis by (simp add: blocks_def Let_def)
qed

text \<open>One round of the loop of \<open>iappend\<close>.\<close>

lemma append_round:
  assumes inv: "files_ok (img s) (unat (freeblock s)) D" and i: "i < 208" and Di: "D i = din\<lparr>dsize := off\<rparr>"
    and p: "p \<noteq> []" "unat off + length p \<le> 71680" and n1: "n1 = min (length p) (512 - unat off mod 512)"
    and room: "unat (freeblock s) + blocks (unat off + n1) \<le> 1000 + blocks (unat off)"
  obtains din' s' D' where "iappend_loop din off p s = iappend_loop din' (off + of_nat n1) (drop n1 p) s'"
    "D' = D(i := din'\<lparr>dsize := off + of_nat n1\<rparr>)" "appended i (take n1 p) s D s' D'"
    "\<And>b. b < 59 \<Longrightarrow> img s' ! b = img s ! b" "unat (off + of_nat n1) = unat off + n1" "0 < n1"
proof -
  define k where "k = unat off div 512"
  define r where "r = unat off mod 512"
  have off: "unat off = 512 * k + r" "r < 512" unfolding k_def r_def by simp_all
  have n: "0 < n1" "n1 \<le> length p" "n1 + r \<le> 512" using n1 p(1) off(2) by (auto simp: r_def [symmetric] min_def)
  have k: "k < 140" using off p n by simp
  have inv': "image_ok (img s) (unat (freeblock s)) D" and sz: "\<And>j. j < 208 \<Longrightarrow> sized (img s) (D j)"
    using inv by (auto simp: files_ok_def)
  have szi: "ref (img s) (D i) (place l) \<noteq> 0 \<longleftrightarrow> l * 512 < unat off" if "l < 140" for l
    using sz [OF i] that by (simp add: sized_def Di)
  have sz12: "daddrs din ! 12 \<noteq> 0 \<longleftrightarrow> 6144 < unat off" using sz [OF i] by (simp add: sized_def Di)
  define need :: nat where "need = (if ref (img s) (D i) (place k) = 0 then 1 else 0) +
    (if 12 \<le> k \<and> daddrs din ! 12 = 0 then 1 else 0)"
  have "ref (img s) (D i) (place k) = 0 \<longleftrightarrow> r = 0" using szi [OF k] off by auto
  moreover have "12 \<le> k \<and> daddrs din ! 12 = 0 \<longleftrightarrow> unat off = 6144" using sz12 off by auto
  moreover have "blocks (unat off + n1) = blocks (unat off) + (if r = 0 then 1 else 0) + (if unat off = 6144 then 1 else 0)"
    using blocks_step [of n1 "unat off"] n r_def by simp
  ultimately have nd: "blocks (unat off + n1) = blocks (unat off) + need" by (simp add: need_def)
  then have rm: "unat (freeblock s) + need \<le> 1000" using room by simp
  obtain din' s1 D1 where A: "D1 = D(i := din'\<lparr>dsize := off\<rparr>)"
    "append_block k din s = Inr (ref (img s1) (D1 i) (place k), din', s1)"
    "image_ok (img s1) (unat (freeblock s1)) D1" "keeps (img s) D (img s1) D1"
    "\<And>j l. j < 208 \<Longrightarrow> l < 141 \<Longrightarrow> \<not> (j = i \<and> (l = place k \<or> l = 12 \<and> 12 \<le> k)) \<Longrightarrow>
       ref (img s1) (D1 j) l = ref (img s) (D j) l"
    "ref (img s1) (D1 i) (place k) \<noteq> 0" "12 \<le> k \<Longrightarrow> daddrs din' ! 12 \<noteq> 0" "freeinode s1 = freeinode s"
    "unat (freeblock s1) = unat (freeblock s) + need" "din'\<lparr>daddrs := daddrs din\<rparr> = din"
    by (rule append_block_ok [OF inv' i k Di need_def rm]) (rule that)
  define b where "b = unat (ref (img s1) (D1 i) (place k))"
  define buf where "buf = splice r (take n1 p) (img s1 ! b)"
  have b: "b < 1000" using refs_okD(2) [OF image_okD(7) [OF A(3)] i place_less [OF k] A(6)] image_okD(4) [OF A(3)] by (simp add: b_def)
  have bl: "b < length (img s1)" "length (img s1 ! b) = 512" using image_okD(1,2) [OF A(3)] b by simp_all
  have lb: "length buf = 512" using bl n by (simp add: buf_def)
  note W = write_data [OF A(3) i k A(6) b_def lb]
  define s' where "s' = s1\<lparr>img := (img s1)[b := buf]\<rparr>"
  define D' where "D' = D(i := din'\<lparr>dsize := off + of_nat n1\<rparr>)"
  have un: "unat (off + of_nat n1) = unat off + n1"
    using p n by (simp add: unat_u32_add unat_of_nat_u32)
  have sect: "sect (ref (img s1) (D1 i) (place k)) = b" using sect_eq b by (simp add: b_def)
  have fbn: "unat (off div 512) = k" by (simp add: k_def unat_div)
  have "unat (off - off div 512 * 512) = r"
  proof -
    have "unat (off div 512 * 512) = k * 512" using fbn k by (subst unat_mult_lem [THEN iffD1]) simp_all
    then show ?thesis using off by (simp add: unat_u32_sub)
  qed
  moreover have "unat ((off div 512 + 1) * 512 - off) = 512 - r" using piece_pos(1) [of off] fbn k by (simp add: r_def)
  ultimately have loop: "iappend_loop din off p s = iappend_loop din' (off + of_nat n1) (drop n1 p) s'"
    using p(1) k A(2) sect bl n1
    by (subst iappend_loop.simps) (simp add: fbn Let_def rsect_def wsect_def s'_def buf_def r_def [symmetric] min_def)
  have ref': "ref (img s') (D' j) l = ref (img s1) (D1 j) l" if "j < 208" for j l
    using W(2) [OF that] by (auto simp: s'_def D'_def A(1))
  have old: "byte_at (img s') (D' j) x = (if j = i \<and> x div 512 = k then buf ! (x mod 512) else byte_at (img s) (D j) x)"
    if "j < 208" "x < 71680" "ref (img s) (D j) (place (x div 512)) \<noteq> 0" for j x
  proof -
    have "x div 512 < 140" using that(2) by simp
    then have "ref (img s1) (D1 j) (place (x div 512)) \<noteq> 0" using A(4) that place_less by (simp add: keeps_def)
    then show ?thesis using W(3) [OF that(1,2)] keeps_byte [OF A(4) that] by (auto simp: s'_def D'_def A(1))
  qed
  have "image_ok (img s') (unat (freeblock s')) D'"
    using W(1) unfolding D'_def A(1) image_ok_resize by (simp add: s'_def)
  moreover have "sized (img s') (D' j)" if j: "j < 208" for j
  proof (cases "j = i")
    case True
    have "ref (img s') (D' i) (place l) \<noteq> 0 \<longleftrightarrow> l * 512 < unat off + n1" if l: "l < 140" for l
    proof (cases "l = k")
      case True
      then show ?thesis using ref' [OF i] A(6) off n by simp
    next
      case False
      then have "ref (img s') (D' i) (place l) = ref (img s) (D i) (place l)"
        using ref' [OF i] A(5) [OF i place_less [OF l]] place_ne by simp
      moreover have "l * 512 < unat off \<longleftrightarrow> l * 512 < unat off + n1" using False off n by (cases "l < k") auto
      ultimately show ?thesis using szi [OF l] by simp
    qed
    moreover have "daddrs din' ! 12 \<noteq> 0 \<longleftrightarrow> 6144 < unat off + n1"
    proof (cases "12 \<le> k")
      case True
      then show ?thesis using A(7) off n by simp
    next
      case False
      then have "daddrs din' ! 12 = daddrs din ! 12" using A(5) [OF i, of 12] place_ne [of k] by (simp add: A(1) Di)
      moreover have "k \<le> 11" using False by simp
      ultimately show ?thesis using sz12 off n by simp
    qed
    ultimately show ?thesis using True un p n by (simp add: sized_def D'_def)
  next
    case False
    have "ref (img s') (D j) l = ref (img s) (D j) l" if "l < 141" for l
      using ref' [OF j, of l] A(5) [OF j that] False by (simp add: D'_def A(1))
    then show ?thesis using sz [OF j] False place_less by (simp add: sized_def D'_def)
  qed
  ultimately have F: "files_ok (img s') (unat (freeblock s')) D'" by (simp add: files_ok_def)
  have inside: "x < 71680 \<and> ref (img s) (D j) (place (x div 512)) \<noteq> 0" if "j < 208" "x < unat (dsize (D j))" for j x
  proof -
    have "x < 71680" using sz [OF that(1)] that(2) by (simp add: sized_def)
    moreover have "x div 512 < 140" using \<open>x < 71680\<close> by simp
    moreover have "x div 512 * 512 < unat (dsize (D j))" using that(2) by (meson div_times_less_eq_dividend le_less_trans)
    ultimately show ?thesis using sz [OF that(1)] by (simp add: sized_def)
  qed
  have ci: "content (img s') (D' i) = content (img s) (D i) @ take n1 p"
  proof (rule content_grow)
    show "unat (dsize (D' i)) = unat (dsize (D i)) + length (take n1 p)" using un n by (simp add: D'_def Di)
  next
    fix x assume x: "x < unat (dsize (D i))"
    then have x': "x < unat off" by (simp add: Di)
    show "byte_at (img s') (D' i) x = byte_at (img s) (D i) x"
    proof (cases "x div 512 = k")
      case True
      then have "x mod 512 < r" using x' off mod_div_mult_eq [of x 512] by linarith
      moreover have "x mod 512 < length (img s1 ! b)" using bl by simp
      ultimately have "buf ! (x mod 512) = img s1 ! b ! (x mod 512)" using bl n by (simp add: buf_def nth_splice)
      also have "\<dots> = byte_at (img s1) (D1 i) x" using True by (simp add: byte_at_def b_def)
      also have "\<dots> = byte_at (img s) (D i) x" using keeps_byte [OF A(4) i] inside [OF i x] by simp
      finally show ?thesis using old [OF i] inside [OF i x] True by simp
    next
      case False
      then show ?thesis using old [OF i] inside [OF i x] by simp
    qed
  next
    fix x assume "unat (dsize (D i)) \<le> x" "x < unat (dsize (D i)) + length (take n1 p)"
    then have x: "unat off \<le> x" "x < unat off + n1" using n by (simp_all add: Di)
    define y where "y = x - unat off"
    have xy: "x = 512 * k + (r + y)" "y < n1" using x off by (simp_all add: y_def)
    have d: "x div 512 = k" "x mod 512 = r + y" using xy n by simp_all
    have "byte_at (img s') (D' i) x = buf ! (r + y)"
      unfolding byte_at_def d ref' [OF i] using bl by (simp add: b_def [symmetric] s'_def)
    also have "\<dots> = p ! y" using bl n xy(2) by (simp add: buf_def nth_splice)
    finally show "byte_at (img s') (D' i) x = take n1 p ! (x - unat (dsize (D i)))"
      using xy(2) by (simp add: y_def Di)
  qed
  have "content (img s') (D j) = content (img s) (D j)" if j: "j < 208" "j \<noteq> i" for j
    using old [OF j(1)] inside [OF j(1)] j(2) by (auto simp: content_def D'_def)
  moreover have meta: "img s' ! c = img s ! c" if "c < 59" for c using A(4) W(4) that by (simp add: s'_def keeps_def)
  moreover have "unat (freeblock s') + blocks (unat off) = unat (freeblock s) + blocks (unat off + n1)"
    using A(9) nd by (simp add: s'_def)
  moreover have "(D' i)\<lparr>daddrs := daddrs (D i), dsize := dsize (D i)\<rparr> = D i" using A(10) by (simp add: D'_def Di)
  ultimately have "appended i (take n1 p) s D s' D'"
    using F ci A(8) un n by (simp add: appended_def D'_def Di s'_def)
  then show thesis using loop D'_def meta un n(1) by (intro that [of din' s' D'])
qed

lemma iappend_loop_ok:
  assumes "files_ok (img s) (unat (freeblock s)) D" and "i < 208" and "D i = din\<lparr>dsize := off\<rparr>"
    and "unat off + length p \<le> 71680" and "unat (freeblock s) + blocks (unat off + length p) \<le> 1000 + blocks (unat off)"
  shows "\<exists>din' off' s'. iappend_loop din off p s = Inr (din', off', s') \<and>
    appended i p s D s' (D(i := din'\<lparr>dsize := off'\<rparr>)) \<and> (\<forall>b<59. img s' ! b = img s ! b)"
  using assms
proof (induction "length p" arbitrary: p din off s D rule: less_induct)
  case less
  show ?case
  proof (cases "p = []")
    case True
    have "D(i := din\<lparr>dsize := off\<rparr>) = D" using less.prems(3) by auto
    then have "appended i p s D s (D(i := din\<lparr>dsize := off\<rparr>))" using True less.prems(1) by (simp add: appended_def)
    then show ?thesis using True by (subst iappend_loop.simps) simp
  next
    case False
    define n1 where "n1 = min (length p) (512 - unat off mod 512)"
    have "blocks (unat off + n1) \<le> blocks (unat off + length p)" by (rule blocks_mono) (simp add: n1_def)
    then have room: "unat (freeblock s) + blocks (unat off + n1) \<le> 1000 + blocks (unat off)" using less.prems(5) by simp
    obtain d1 s1 D1 where R: "iappend_loop din off p s = iappend_loop d1 (off + of_nat n1) (drop n1 p) s1"
        "D1 = D(i := d1\<lparr>dsize := off + of_nat n1\<rparr>)" "appended i (take n1 p) s D s1 D1"
        "\<And>b. b < 59 \<Longrightarrow> img s1 ! b = img s ! b" "unat (off + of_nat n1) = unat off + n1" "0 < n1"
      by (rule append_round [OF less.prems(1-3) False less.prems(4) n1_def room]) (rule that)
    have n: "length (take n1 p) = n1" by (simp add: n1_def)
    have sz: "dsize (D i) = off" using less.prems(3) by simp
    have e: "unat off + n1 + (length p - n1) = unat off + length p" using n by simp
    have l: "length (drop n1 p) < length p" using R(6) False by simp
    have F: "files_ok (img s1) (unat (freeblock s1)) D1" using R(3) by (simp add: appended_def)
    have "unat (freeblock s1) + blocks (unat off) = unat (freeblock s) + blocks (unat off + n1)"
      using R(3) n sz by (simp add: appended_def)
    then have q2: "unat (freeblock s1) + blocks (unat (off + of_nat n1) + length (drop n1 p)) \<le> 1000 + blocks (unat (off + of_nat n1))"
      using less.prems(5) R(5) e by simp
    have q1: "unat (off + of_nat n1) + length (drop n1 p) \<le> 71680" using less.prems(4) R(5) e by simp
    have "D1 i = d1\<lparr>dsize := off + of_nat n1\<rparr>" by (simp add: R(2))
    then obtain d2 off' s2 where I: "iappend_loop d1 (off + of_nat n1) (drop n1 p) s1 = Inr (d2, off', s2)"
        "appended i (drop n1 p) s1 D1 s2 (D1(i := d2\<lparr>dsize := off'\<rparr>))" "\<forall>b<59. img s2 ! b = img s1 ! b"
      using less.hyps [OF l F less.prems(2) _ q1 q2] by blast
    have "appended i p s D s2 (D(i := d2\<lparr>dsize := off'\<rparr>))"
      using appended_trans [OF R(3) I(2)] by (simp add: R(2))
    then show ?thesis using R(1,4) I by auto
  qed
qed

subsection \<open>The inodes on the disk\<close>

definition inode_at :: "mkst \<Rightarrow> nat \<Rightarrow> dinode" where
  "inode_at s i = get_dinode (i mod 8) (img s ! (32 + i div 8))"

definition disk_ok :: "mkst \<Rightarrow> bool" where
  "disk_ok s \<longleftrightarrow> files_ok (img s) (unat (freeblock s)) (inode_at s)"

lemma files_ok_cong: "(\<And>j. j < 208 \<Longrightarrow> D j = D' j) \<Longrightarrow> files_ok m fb D = files_ok m fb D'"
  unfolding files_ok_def image_ok_def refs_ok_def by auto

lemma iblock:
  assumes "i < 208"
  shows "sect (IBLOCK (of_nat i) mk_sb) = 32 + i div 8" "unat (of_nat i mod IPB :: u32) = i mod 8"
proof -
  have u: "unat (of_nat i :: u32) = i" using assms by (simp add: unat_of_nat_u32)
  have d: "unat (of_nat i div 8 :: u32) = i div 8" using u by (simp add: unat_div)
  have "unat (of_nat i div 8 + 32 :: u32) = 32 + i div 8" using assms d by (simp add: unat_u32_add)
  then show "sect (IBLOCK (of_nat i) mk_sb) = 32 + i div 8"
    using sect_eq [of "IBLOCK (of_nat i) mk_sb"] assms by (simp add: IBLOCK_def mk_sb_def)
  show "unat (of_nat i mod IPB :: u32) = i mod 8" using u by (simp add: unat_mod)
qed

lemma rinode_eq: "image_ok (img s) fb D \<Longrightarrow> i < 208 \<Longrightarrow> rinode (of_nat i) s = Inr (inode_at s i)"
  using iblock [of i] image_okD(1) [of "img s" fb D] by (simp add: rinode_def rsect_def Let_def inode_at_def)

lemma meta_content:
  assumes F: "files_ok m fb D" and b: "b < 59" "length buf = 512"
  shows "files_ok (m[b := buf]) fb D" "\<And>j. j < 208 \<Longrightarrow> content (m[b := buf]) (D j) = content m (D j)"
proof -
  have I: "image_ok m fb D" and sz: "\<And>j. j < 208 \<Longrightarrow> sized m (D j)" using F by (auto simp: files_ok_def)
  note W = write_meta [OF I b]
  have "sized (m[b := buf]) (D j)" if "j < 208" for j using sz [OF that] W(2) [OF that] by (simp add: sized_def)
  then show "files_ok (m[b := buf]) fb D" using W(1) by (simp add: files_ok_def)
  show "content (m[b := buf]) (D j) = content m (D j)" if j: "j < 208" for j
  proof -
    have "byte_at (m[b := buf]) (D j) x = byte_at m (D j) x" if x: "x < unat (dsize (D j))" for x
    proof -
      have "x < 71680" using sz [OF j] x by (simp add: sized_def)
      moreover have "x div 512 < 140" using \<open>x < 71680\<close> by simp
      moreover have "x div 512 * 512 < unat (dsize (D j))" using x by (meson div_times_less_eq_dividend le_less_trans)
      ultimately show ?thesis using sz [OF j] W(3) [OF j] by (simp add: sized_def)
    qed
    then show ?thesis by (simp add: content_def)
  qed
qed

lemma winode_ok:
  assumes F: "files_ok (img s) fb D" and i: "i < 208" and D: "D = (inode_at s)(i := d)"
  obtains s' where "winode (of_nat i) d s = Inr s'" "files_ok (img s') fb (inode_at s')"
    "\<And>j. j < 208 \<Longrightarrow> inode_at s' j = D j" "\<And>j. j < 208 \<Longrightarrow> content (img s') (D j) = content (img s) (D j)"
    "freeblock s' = freeblock s" "freeinode s' = freeinode s" "\<And>b. b < 32 \<Longrightarrow> img s' ! b = img s ! b"
proof -
  have I: "image_ok (img s) fb D" using F by (simp add: files_ok_def)
  let ?b = "32 + i div 8"
  define buf where "buf = put_dinode (i mod 8) d (img s ! ?b)"
  define s' where "s' = s\<lparr>img := (img s)[?b := buf]\<rparr>"
  have b: "?b < 59" "?b < length (img s)" "length (img s ! ?b) = 512" using i image_okD(1,2) [OF I] by simp_all
  have ld: "length (daddrs d) = 13" using image_okD(6) [OF I i] by (simp add: D)
  have P: "get_dinode (i mod 8) buf = d" "length buf = 512"
    "\<And>j. j < 8 \<Longrightarrow> j \<noteq> i mod 8 \<Longrightarrow> get_dinode j buf = get_dinode j (img s ! ?b)"
    using get_put_dinode [OF b(3) _ ld, of "i mod 8"] by (simp_all add: buf_def)
  note W = meta_content [OF F b(1) P(2)]
  have w: "winode (of_nat i) d s = Inr s'"
    using iblock [OF i] b by (simp add: winode_def rsect_def wsect_def Let_def s'_def buf_def)
  have dn: "inode_at s' j = D j" if "j < 208" for j
  proof (cases "j div 8 = i div 8")
    case True
    have "j mod 8 \<noteq> i mod 8" if "j \<noteq> i" using True that by (metis div_mult_mod_eq)
    then show ?thesis using True P(1) P(3) [of "j mod 8"] b by (cases "j = i") (simp_all add: inode_at_def s'_def D)
  next
    case False
    then show ?thesis by (auto simp: inode_at_def s'_def D)
  qed
  have "files_ok (img s') fb D" using W(1) by (simp add: s'_def)
  moreover have "files_ok (img s') fb (inode_at s') = files_ok (img s') fb D" by (rule files_ok_cong) (rule dn)
  ultimately have "files_ok (img s') fb (inode_at s')" by simp
  moreover have "content (img s') (D j) = content (img s) (D j)" if "j < 208" for j
    using W(2) [OF that] by (simp add: s'_def)
  ultimately show thesis using w dn by (intro that [of s']) (simp_all add: s'_def)
qed

lemma iappend_ok:
  assumes inv: "disk_ok s" and i: "i < 208" and l: "unat (dsize (inode_at s i)) + length p \<le> 71680"
    and room: "unat (freeblock s) + blocks (unat (dsize (inode_at s i)) + length p) \<le> 1000 + blocks (unat (dsize (inode_at s i)))"
  obtains s' where "iappend (of_nat i) p s = Inr s'" "appended i p s (inode_at s) s' (inode_at s')" "disk_ok s'"
    "\<And>b. b < 32 \<Longrightarrow> img s' ! b = img s ! b"
proof -
  let ?d = "inode_at s i"
  have F: "files_ok (img s) (unat (freeblock s)) (inode_at s)" using inv by (simp add: disk_ok_def)
  then have "image_ok (img s) (unat (freeblock s)) (inode_at s)" by (simp add: files_ok_def)
  then have r: "rinode (of_nat i) s = Inr ?d" by (rule rinode_eq [OF _ i])
  obtain d' off' s1 where L: "iappend_loop ?d (dsize ?d) p s = Inr (d', off', s1)"
      "appended i p s (inode_at s) s1 ((inode_at s)(i := d'\<lparr>dsize := off'\<rparr>))" "\<forall>b<59. img s1 ! b = img s ! b"
    using iappend_loop_ok [OF F i, where din = ?d and off = "dsize ?d" and p = p] l room by auto
  define D1 where "D1 = (inode_at s)(i := d'\<lparr>dsize := off'\<rparr>)"
  define D2 where "D2 = (inode_at s1)(i := d'\<lparr>dsize := off'\<rparr>)"
  have "inode_at s1 j = inode_at s j" if "j < 208" for j using L(3) that by (simp add: inode_at_def)
  then have D12: "D2 j = D1 j" if "j < 208" for j using that by (simp add: D1_def D2_def)
  have "files_ok (img s1) (unat (freeblock s1)) D2 = files_ok (img s1) (unat (freeblock s1)) D1"
    by (rule files_ok_cong) (rule D12)
  then have F1: "files_ok (img s1) (unat (freeblock s1)) D2" using L(2) by (simp add: appended_def D1_def)
  obtain s' where W: "winode (of_nat i) (d'\<lparr>dsize := off'\<rparr>) s1 = Inr s'"
      "files_ok (img s') (unat (freeblock s1)) (inode_at s')"
      "\<And>j. j < 208 \<Longrightarrow> inode_at s' j = D2 j" "\<And>j. j < 208 \<Longrightarrow> content (img s') (D2 j) = content (img s1) (D2 j)"
      "freeblock s' = freeblock s1" "freeinode s' = freeinode s1" "\<And>b. b < 32 \<Longrightarrow> img s' ! b = img s1 ! b"
    by (rule winode_ok [OF F1 i D2_def]) (rule that)
  have at: "inode_at s' j = D1 j" "content (img s') (D1 j) = content (img s1) (D1 j)" if "j < 208" for j
    using W(3,4) [OF that] D12 [OF that] by simp_all
  have cj: "content (img s') (inode_at s j) = content (img s) (inode_at s j)" if "j < 208" "j \<noteq> i" for j
    using at(2) [OF that(1)] L(2) that by (simp add: appended_def D1_def)
  have "iappend (of_nat i) p s = Inr s'" using r L(1) W(1) by (simp add: iappend_def)
  moreover have "appended i p s (inode_at s) s' (inode_at s')"
    using L(2) W(2,5,6) at(1) at(2) [OF i] cj i by (simp add: appended_def D1_def)
  moreover have "disk_ok s'" using W(2,5) by (simp add: disk_ok_def)
  moreover have "img s' ! b = img s ! b" if "b < 32" for b using W(7) L(3) that by simp
  ultimately show thesis by (rule that)
qed

end
