(* ===== verification/MkfsProps.thy ===== *)
theory MkfsProps
  imports MkfsFiles
begin

text \<open>The image that \<open>mkfs\<close> makes holds the files of its command line.\<close>

text \<open>
  \<open>image_holds s root fl\<close>: inode 1 is a directory with the bytes \<open>root\<close>, the inodes from 2 on are
  files with the contents \<open>fl\<close>, the inodes behind them are free, and no other blocks are taken.
\<close>

definition used_blocks :: "u8 list \<Rightarrow> u8 list list \<Rightarrow> nat" where
  "used_blocks root fl = 59 + blocks (length root) + sum_list (map (\<lambda>c. blocks (length c)) fl)"

definition unused :: "dinode \<Rightarrow> bool" where
  "unused d \<longleftrightarrow> dsize d = 0 \<and> daddrs d = replicate 13 0"

definition is_file :: "u16 \<Rightarrow> u8 list \<Rightarrow> mkst \<Rightarrow> nat \<Rightarrow> bool" where
  "is_file ty c s i \<longleftrightarrow> content (img s) (inode_at s i) = c \<and> dtype (inode_at s i) = ty \<and> dnlink (inode_at s i) = 1"

definition image_holds :: "mkst \<Rightarrow> u8 list \<Rightarrow> u8 list list \<Rightarrow> bool" where
  "image_holds s root fl \<longleftrightarrow> disk_ok s \<and> freeinode s = of_nat (2 + length fl) \<and>
     is_file T_DIR root s 1 \<and> (\<forall>k<length fl. is_file T_FILE (fl ! k) s (k + 2)) \<and>
     (\<forall>j. 2 + length fl \<le> j \<longrightarrow> j < 208 \<longrightarrow> unused (inode_at s j)) \<and> unat (freeblock s) = used_blocks root fl"

lemma is_file_size: "is_file ty c s i \<Longrightarrow> unat (dsize (inode_at s i)) = length c"
  by (auto simp: is_file_def content_def)

lemma is_file_appended:
  assumes a: "appended i p s (inode_at s) s' (inode_at s')" and f: "is_file ty c s j" and j: "j < 208"
  shows "is_file ty (if j = i then c @ p else c) s' j"
proof (cases "j = i")
  case True
  have e: "(inode_at s' i)\<lparr>daddrs := daddrs (inode_at s i), dsize := dsize (inode_at s i)\<rparr> = inode_at s i"
    using a by (simp add: appended_def)
  have "dtype (inode_at s' i) = dtype (inode_at s i)" "dnlink (inode_at s' i) = dnlink (inode_at s i)"
    using arg_cong [OF e, of dtype] arg_cong [OF e, of dnlink] by simp_all
  then show ?thesis using a f True by (simp add: is_file_def appended_def)
next
  case False
  then show ?thesis using a f j by (simp add: is_file_def appended_def)
qed

lemma used_update:
  "k < length fl \<Longrightarrow> used_blocks root (fl[k := c]) + blocks (length (fl ! k)) = used_blocks root fl + blocks (length c)"
  using member_le_sum_list [of "blocks (length (fl ! k))" "map (\<lambda>c. blocks (length c)) fl"]
  by (simp add: used_blocks_def map_update sum_list_update)

lemma append_file:
  assumes h: "image_holds s root fl" and k: "k < length fl" "length fl \<le> 198"
    and l: "length (fl ! k @ p) \<le> 71680" and room: "used_blocks root (fl[k := fl ! k @ p]) \<le> 1000"
  obtains s' where "iappend (of_nat (k + 2)) p s = Inr s'" "image_holds s' root (fl[k := fl ! k @ p])"
    "\<And>b. b < 32 \<Longrightarrow> img s' ! b = img s ! b"
proof -
  have f: "is_file T_FILE (fl ! k) s (k + 2)" and ok: "disk_ok s" and fb: "unat (freeblock s) = used_blocks root fl"
    using h k by (auto simp: image_holds_def)
  note sz = is_file_size [OF f]
  have i: "k + 2 < 208" using k by simp
  have T: "used_blocks root (fl[k := fl ! k @ p]) + blocks (length (fl ! k)) = used_blocks root fl + blocks (length (fl ! k) + length p)"
    using used_update [OF k(1), of root "fl ! k @ p"] by simp
  then have rm: "unat (freeblock s) + blocks (unat (dsize (inode_at s (k + 2))) + length p) \<le>
      1000 + blocks (unat (dsize (inode_at s (k + 2))))" using room sz fb by simp
  have "unat (dsize (inode_at s (k + 2))) + length p \<le> 71680" using l sz by simp
  then obtain s' where A: "iappend (of_nat (k + 2)) p s = Inr s'" "appended (k + 2) p s (inode_at s) s' (inode_at s')"
      "disk_ok s'" "\<And>b. b < 32 \<Longrightarrow> img s' ! b = img s ! b"
    by (rule iappend_ok [OF ok i _ rm]) (rule that)
  have "is_file T_DIR root s' 1" using is_file_appended [OF A(2), of T_DIR root 1] h by (simp add: image_holds_def)
  moreover have "is_file T_FILE (fl[k := fl ! k @ p] ! j) s' (j + 2)" if "j < length fl" for j
    using is_file_appended [OF A(2), of T_FILE "fl ! j" "j + 2"] h that k by (auto simp: image_holds_def nth_list_update)
  moreover have "unused (inode_at s' j)" if "2 + length fl \<le> j" "j < 208" for j
    using A(2) h that k by (simp add: image_holds_def appended_def)
  moreover have "unat (freeblock s') = used_blocks root (fl[k := fl ! k @ p])" using A(2) T fb sz by (simp add: appended_def)
  ultimately have "image_holds s' root (fl[k := fl ! k @ p])" using A(2,3) h by (simp add: image_holds_def appended_def)
  then show thesis using that A by blast
qed

lemma append_root:
  assumes h: "image_holds s root fl" and k: "length fl \<le> 198"
    and l: "length (root @ p) \<le> 71680" and room: "used_blocks (root @ p) fl \<le> 1000"
  obtains s' where "iappend ROOTINO p s = Inr s'" "image_holds s' (root @ p) fl" "\<And>b. b < 32 \<Longrightarrow> img s' ! b = img s ! b"
proof -
  have f: "is_file T_DIR root s 1" and ok: "disk_ok s" and fb: "unat (freeblock s) = used_blocks root fl"
    using h by (auto simp: image_holds_def)
  note sz = is_file_size [OF f]
  have T: "used_blocks (root @ p) fl + blocks (length root) = used_blocks root fl + blocks (length root + length p)"
    by (simp add: used_blocks_def)
  then have rm: "unat (freeblock s) + blocks (unat (dsize (inode_at s 1)) + length p) \<le>
      1000 + blocks (unat (dsize (inode_at s 1)))" using room sz fb by simp
  have i: "(1 :: nat) < 208" by simp
  have "unat (dsize (inode_at s 1)) + length p \<le> 71680" using l sz by simp
  then obtain s' where A: "iappend (of_nat 1) p s = Inr s'" "appended 1 p s (inode_at s) s' (inode_at s')"
      "disk_ok s'" "\<And>b. b < 32 \<Longrightarrow> img s' ! b = img s ! b"
    by (rule iappend_ok [OF ok i _ rm]) (rule that)
  have "is_file T_DIR (root @ p) s' 1" using is_file_appended [OF A(2) f] by simp
  moreover have "is_file T_FILE (fl ! j) s' (j + 2)" if "j < length fl" for j
    using is_file_appended [OF A(2), of T_FILE "fl ! j" "j + 2"] h that k by (simp add: image_holds_def)
  moreover have "unused (inode_at s' j)" if "2 + length fl \<le> j" "j < 208" for j
    using A(2) h that by (simp add: image_holds_def appended_def)
  moreover have "unat (freeblock s') = used_blocks (root @ p) fl" using A(2) T fb sz by (simp add: appended_def)
  ultimately have "image_holds s' (root @ p) fl" using A(2,3) h by (simp add: image_holds_def appended_def)
  then show thesis using that A by (simp add: A)
qed

text \<open>A new inode is an empty file.\<close>

lemma new_inode_ok:
  assumes ok: "disk_ok s" and i: "i < 208" "freeinode s = of_nat i" and u: "unused (inode_at s i)"
  obtains s' where "mk_ialloc ty s = Inr (of_nat i, s')" "disk_ok s'" "is_file ty [] s' i"
    "\<And>j ty c. j < 208 \<Longrightarrow> j \<noteq> i \<Longrightarrow> is_file ty c s j \<Longrightarrow> is_file ty c s' j"
    "\<And>j. j < 208 \<Longrightarrow> j \<noteq> i \<Longrightarrow> inode_at s' j = inode_at s j" "freeblock s' = freeblock s"
    "freeinode s' = of_nat (i + 1)" "\<And>b. b < 32 \<Longrightarrow> img s' ! b = img s ! b"
proof -
  define s1 where "s1 = s\<lparr>freeinode := freeinode s + 1\<rparr>"
  define d where "d = \<lparr>dtype = ty, dmajor = 0, dminor = 0, dnlink = 1, dsize = 0, daddrs = replicate 13 0\<rparr>"
  define D where "D = (inode_at s1)(i := d)"
  have in1: "inode_at s1 = inode_at s" by (simp add: s1_def inode_at_def fun_eq_iff)
  have i1: "img s1 = img s" by (simp add: s1_def)
  have r: "ref (img s) (D j) l = ref (img s) (inode_at s j) l" for j l
    using u by (auto simp: D_def in1 ref_def d_def unused_def)
  have sz: "dsize (D j) = dsize (inode_at s j)" "daddrs (D j) = daddrs (inode_at s j)" for j
    using u by (auto simp: D_def in1 d_def unused_def)
  have F: "files_ok (img s1) (unat (freeblock s1)) D"
    using ok by (simp add: disk_ok_def files_ok_def image_ok_def refs_ok_def sized_def r sz s1_def)
  obtain s' where W: "winode (of_nat i) d s1 = Inr s'" "files_ok (img s') (unat (freeblock s1)) (inode_at s')"
      "\<And>j. j < 208 \<Longrightarrow> inode_at s' j = D j" "\<And>j. j < 208 \<Longrightarrow> content (img s') (D j) = content (img s1) (D j)"
      "freeblock s' = freeblock s1" "freeinode s' = freeinode s1" "\<And>b. b < 32 \<Longrightarrow> img s' ! b = img s1 ! b"
    by (rule winode_ok [OF F i(1) D_def]) (rule that)
  have d': "\<lparr>dtype = ty, dmajor = 0, dminor = 0, dnlink = 1, dsize = 0, daddrs = replicate (NDIRECT + 1) 0\<rparr> = d"
    by (simp add: d_def)
  have "mk_ialloc ty s = Inr (of_nat i, s')"
    unfolding mk_ialloc_def Let_def d' using W(1) i(2) by (simp add: s1_def)
  moreover have "disk_ok s'" using W(2,5) by (simp add: disk_ok_def)
  moreover have "is_file ty [] s' i" using W(3) i(1) by (simp add: is_file_def D_def d_def content_def)
  moreover have other: "inode_at s' j = inode_at s j" if "j < 208" "j \<noteq> i" for j using W(3) that by (simp add: D_def in1)
  moreover have "is_file ty' c s' j" if "j < 208" "j \<noteq> i" "is_file ty' c s j" for j ty' c
    using that W(4) [OF that(1)] other [OF that(1,2)] by (simp add: is_file_def D_def in1 i1)
  moreover have "freeinode s' = of_nat (i + 1)" using W(6) i(2) by (simp add: s1_def)
  ultimately show thesis using W(5,7) by (intro that [of s']) (simp_all add: s1_def)
qed

definition entry :: "nat \<Rightarrow> u8 list \<Rightarrow> u8 list" where
  "entry i name = dirent_bytes \<lparr>de_inum = of_nat i, de_name = strncpy 14 (if chr name = 95 then tl name else name)\<rparr>"

lemma ucast_inum: "k < 65536 \<Longrightarrow> ucast (of_nat k :: u32) = (of_nat k :: u16)"
  by (simp add: unsigned_of_nat take_bit_nat_eq_self)

lemma length_strncpy [simp]: "length (strncpy n t) = n"
  by (induction n arbitrary: t) simp_all

lemma length_entry [simp]: "length (entry i name) = 16"
  by (simp add: entry_def dirent_bytes_def)

lemma used_mono: "length c \<le> length c' \<Longrightarrow> used_blocks root (fl @ [c]) \<le> used_blocks root (fl @ [c'])"
  using blocks_mono by (simp add: used_blocks_def)

lemma append_reads:
  assumes "image_holds s root (fl @ [c])" "length fl < 198" "length (c @ concat rds) \<le> 71680"
    "used_blocks root (fl @ [c @ concat rds]) \<le> 1000"
  shows "\<exists>s'. foldm (iappend (of_nat (length fl + 2))) rds s = Inr s' \<and> image_holds s' root (fl @ [c @ concat rds]) \<and>
    (\<forall>b<32. img s' ! b = img s ! b)"
  using assms
proof (induction rds arbitrary: c s)
  case (Cons r rds)
  have u: "(fl @ [c])[length fl := (fl @ [c]) ! length fl @ r] = fl @ [c @ r]" by simp
  have "used_blocks root (fl @ [c @ r]) \<le> 1000" using used_mono [of "c @ r" "c @ concat (r # rds)" root fl] Cons.prems(4) by simp
  moreover have "length ((fl @ [c]) ! length fl @ r) \<le> 71680" using Cons.prems(3) by simp
  ultimately obtain s1 where A: "iappend (of_nat (length fl + 2)) r s = Inr s1" "image_holds s1 root (fl @ [c @ r])"
      "\<And>b. b < 32 \<Longrightarrow> img s1 ! b = img s ! b"
    using append_file [OF Cons.prems(1), of "length fl" r] Cons.prems(2) unfolding u by auto
  then show ?case using Cons.IH [OF A(2)] Cons.prems by auto
qed simp

lemma add_file_ok:
  assumes h: "image_holds s root fl" and f: "47 \<notin> set name" and n: "length fl < 198" and len: "length (concat rds) \<le> 71680"
    "length root + 16 \<le> 71680" and room: "used_blocks (root @ entry (length fl + 2) name) (fl @ [concat rds]) \<le> 1000"
  obtains s' where "add_file (name, Some rds) s = Inr s'"
    "image_holds s' (root @ entry (length fl + 2) name) (fl @ [concat rds])" "\<And>b. b < 32 \<Longrightarrow> img s' ! b = img s ! b"
proof -
  let ?i = "length fl + 2"
  have h': "disk_ok s" "freeinode s = of_nat ?i" "unused (inode_at s ?i)" "?i < 208" "is_file T_DIR root s 1"
    "unat (freeblock s) = used_blocks root fl" using h n by (simp_all add: image_holds_def add.commute)
  obtain s1 where A: "mk_ialloc T_FILE s = Inr (of_nat ?i, s1)" "disk_ok s1" "is_file T_FILE [] s1 ?i"
      "\<And>j ty c. j < 208 \<Longrightarrow> j \<noteq> ?i \<Longrightarrow> is_file ty c s j \<Longrightarrow> is_file ty c s1 j"
      "\<And>j. j < 208 \<Longrightarrow> j \<noteq> ?i \<Longrightarrow> inode_at s1 j = inode_at s j" "freeblock s1 = freeblock s"
      "freeinode s1 = of_nat (?i + 1)" "\<And>b. b < 32 \<Longrightarrow> img s1 ! b = img s ! b"
    by (rule new_inode_ok [OF h'(1,4,2,3)]) (rule that)
  have "is_file T_FILE ((fl @ [[]]) ! k) s1 (k + 2)" if "k < length (fl @ [[]])" for k
    using that A(3,4) h n by (cases "k = length fl") (simp_all add: image_holds_def nth_append)
  moreover have "unused (inode_at s1 j)" if "2 + length (fl @ [[]]) \<le> j" "j < 208" for j
    using A(5) that h by (simp add: image_holds_def)
  ultimately have h1: "image_holds s1 root (fl @ [[]])"
    using A(2,4,6,7) h'(5,6) by (simp add: image_holds_def used_blocks_def blocks_def)
  have e: "dirent_bytes \<lparr>de_inum = ucast (of_nat ?i :: u32), de_name = strncpy DIRSIZ (if chr name = 95 then tl name else name)\<rparr> = entry ?i name"
  proof -
    have "ucast (of_nat ?i :: u32) = (of_nat ?i :: u16)" by (rule ucast_inum) (use n in simp)
    then show ?thesis by (simp only: entry_def DIRSIZ_def)
  qed
  have tot: "used_blocks (root @ entry ?i name) (fl @ [[]]) \<le> 1000"
    by (rule le_trans [OF used_mono room]) simp
  have le: "length (root @ entry ?i name) \<le> 71680" "length (fl @ [[]]) \<le> 198" using len(2) n by simp_all
  obtain s2 where B: "iappend ROOTINO (entry ?i name) s1 = Inr s2" "image_holds s2 (root @ entry ?i name) (fl @ [[]])"
      "\<And>b. b < 32 \<Longrightarrow> img s2 ! b = img s1 ! b"
    by (rule append_root [OF h1 le(2,1) tot]) (rule that)
  obtain s3 where C: "foldm (iappend (of_nat ?i)) rds s2 = Inr s3" "image_holds s3 (root @ entry ?i name) (fl @ [concat rds])"
      "\<forall>b<32. img s3 ! b = img s2 ! b"
    using append_reads [OF B(2) n, of rds] len(1) room by auto
  have "add_file (name, Some rds) s = Inr s3"
    unfolding add_file_def Let_def prod.case option.case if_not_P [OF f] A(1) bnd_Inr prod.case e B(1) C(1) by (rule refl)
  then show thesis using that C A(8) B(3) by auto
qed

subsection \<open>All files\<close>

fun entries :: "nat \<Rightarrow> (u8 list \<times> u8 list list option) list \<Rightarrow> u8 list" where
  "entries i [] = []"
| "entries i (f # fs) = entry i (fst f) @ entries (i + 1) fs"

definition body :: "u8 list \<times> u8 list list option \<Rightarrow> u8 list" where
  "body f = concat (the (snd f))"

definition file_ok :: "u8 list \<times> u8 list list option \<Rightarrow> bool" where
  "file_ok f \<longleftrightarrow> 47 \<notin> set (fst f) \<and> snd f \<noteq> None \<and> length (body f) \<le> 71680"

lemma length_entries [simp]: "length (entries i fs) = 16 * length fs"
  by (induction fs arbitrary: i) simp_all

lemma used_prefix: "used_blocks root fl \<le> used_blocks (root @ r) (fl @ gs)"
  using blocks_mono [of "length root" "length root + length r"] by (simp add: used_blocks_def)

lemma add_files_ok:
  assumes "image_holds s root fl" "list_all file_ok fs" "length fl + length fs \<le> 198" "length root + 16 * length fs \<le> 71680"
    "used_blocks (root @ entries (length fl + 2) fs) (fl @ map body fs) \<le> 1000"
  shows "\<exists>s'. foldm add_file fs s = Inr s' \<and> image_holds s' (root @ entries (length fl + 2) fs) (fl @ map body fs) \<and>
    (\<forall>b<32. img s' ! b = img s ! b)"
  using assms
proof (induction fs arbitrary: s root fl)
  case (Cons f fs)
  obtain name rds where f: "f = (name, Some rds)" "body f = concat rds" "47 \<notin> set name" "length (concat rds) \<le> 71680"
    using Cons.prems(2) by (cases f; cases "snd f") (auto simp: file_ok_def body_def)
  let ?root = "root @ entry (length fl + 2) name" and ?fl = "fl @ [concat rds]"
  have e: "root @ entries (length fl + 2) (f # fs) = ?root @ entries (length ?fl + 2) fs"
    "fl @ map body (f # fs) = ?fl @ map body fs" using f by simp_all
  have room: "used_blocks ?root ?fl \<le> 1000" using Cons.prems(5) used_prefix le_trans unfolding e by blast
  have n: "length fl < 198" "length root + 16 \<le> 71680" using Cons.prems(3,4) by simp_all
  obtain s1 where A: "add_file (name, Some rds) s = Inr s1" "image_holds s1 ?root ?fl" "\<And>b. b < 32 \<Longrightarrow> img s1 ! b = img s ! b"
    by (rule add_file_ok [OF Cons.prems(1) f(3) n(1) f(4) n(2) room]) (rule that)
  obtain s2 where B: "foldm add_file fs s1 = Inr s2" "image_holds s2 (?root @ entries (length ?fl + 2) fs) (?fl @ map body fs)"
      "\<forall>b<32. img s2 ! b = img s1 ! b"
    using Cons.IH [OF A(2)] Cons.prems(2-5) unfolding e by auto
  then show ?case using A f(2) unfolding e f(1) by auto
qed simp

subsection \<open>The empty image\<close>

lemma zero_fill:
  "n \<le> 1000 \<Longrightarrow> img s = [] \<Longrightarrow>
     foldm (\<lambda>i. wsect (of_nat i) zeroes) [0..<n] s = Inr (s\<lparr>img := replicate n zeroes\<rparr>)"
proof (induction n)
  case (Suc n)
  have "sect (of_nat n) = n" using Suc.prems(1) by (subst sect_eq) (simp_all add: unat_of_nat_u32)
  then show ?case using Suc by (simp add: foldm_append wsect_def Let_def replicate_append_same)
qed simp

lemma unused_ref: "unused d \<Longrightarrow> k < 141 \<Longrightarrow> ref m d k = 0"
  by (simp add: ref_def unused_def)

lemma unused_sized: "unused d \<Longrightarrow> sized m d"
  by (simp add: sized_def unused_ref place_less) (simp add: unused_def)

lemma unused_zeroes: "k < 8 \<Longrightarrow> unused (get_dinode k zeroes)"
proof -
  assume k: "k < 8"
  have z: "le32 zeroes i = 0" if "i + 3 < 512" for i using that by (simp add: le32_def zeroes_def)
  have "map (\<lambda>j. le32 zeroes (64 * k + 12 + 4 * j)) [0..<13] = map (\<lambda>j. 0) [0..<13]"
    by (rule map_cong [OF refl]) (use k in \<open>auto intro!: z\<close>)
  then show ?thesis using z [of "64 * k + 8"] k by (simp add: unused_def get_dinode_def map_replicate_const)
qed

lemma empty_image:
  assumes m: "img s = (replicate 1000 zeroes)[1 := b]" "length b = 512" and fb: "freeblock s = 59"
  shows "disk_ok s" "\<And>j. j < 208 \<Longrightarrow> unused (inode_at s j)"
proof -
  show u: "unused (inode_at s j)" if "j < 208" for j using that unused_zeroes by (simp add: inode_at_def m)
  have "refs_ok (img s) 59 (inode_at s)" using unused_ref [OF u] by (simp add: refs_ok_def)
  moreover have "length (daddrs (inode_at s j)) = 13" if "j < 208" for j using u [OF that] by (simp add: unused_def)
  moreover have "\<forall>c\<in>set (img s). length c = 512"
    using set_update_subset_insert [of "replicate 1000 zeroes" 1 b] m by (auto simp: zeroes_def)
  ultimately have "image_ok (img s) 59 (inode_at s)" by (simp add: image_ok_def m(1))
  then show "disk_ok s" using unused_sized [OF u] by (simp add: disk_ok_def files_ok_def fb)
qed

subsection \<open>The finished image\<close>

lemma bitmap_bits:
  fixes n :: nat
  defines "bm \<equiv> fold (\<lambda>i b. b[i div 8 := (b ! (i div 8)) OR push_bit (i mod 8) 1]) [0..<n] zeroes"
  assumes "n \<le> 4096"
  shows "length bm = 512" "j < 4096 \<Longrightarrow> map_bit bm j \<longleftrightarrow> j < n"
proof -
  have f: "(\<lambda>i b. b[i div 8 := (b ! (i div 8)) OR push_bit (i mod 8) 1]) = (\<lambda>i. set_map_bit i True)"
    by (simp add: set_map_bit_def fun_eq_iff)
  have "length (fold (\<lambda>i. set_map_bit i True) [0..<n] zeroes) = 512 \<and>
      (\<forall>j<4096. map_bit (fold (\<lambda>i. set_map_bit i True) [0..<n] zeroes) j \<longleftrightarrow> j < n)"
    using assms(2)
  proof (induction n)
    case 0
    then show ?case by (simp add: zeroes_def map_bit_def)
  next
    case (Suc n)
    let ?b = "fold (\<lambda>i. set_map_bit i True) [0..<n] zeroes"
    have b: "length ?b = 512" "\<forall>j<4096. map_bit ?b j \<longleftrightarrow> j < n" using Suc by simp_all
    have "n div 8 < length ?b" using b(1) Suc.prems by simp
    then have "map_bit (set_map_bit n True ?b) j \<longleftrightarrow> j < Suc n" if "j < 4096" for j
      using map_bit_set b(2) that by auto
    moreover have "length (set_map_bit n True ?b) = 512" using b(1) by (simp add: set_map_bit_def)
    ultimately show ?case by simp
  qed
  then show "length bm = 512" "j < 4096 \<Longrightarrow> map_bit bm j \<longleftrightarrow> j < n" unfolding bm_def f by blast+
qed

lemma sized_round_up:
  assumes s: "sized m d" and r: "unat (dsize d) mod 512 \<noteq> 0" and lt: "unat (dsize d) < 71680"
    and off: "off = (dsize d div 512 + 1) * 512"
  shows "sized m (d\<lparr>dsize := off\<rparr>)" "unat (dsize d) \<le> unat off"
proof -
  define q where "q = unat (dsize d) div 512"
  define r where "r = unat (dsize d) mod 512"
  have qr: "unat (dsize d) = 512 * q + r" "r < 512" "0 < r" using r by (simp_all add: q_def r_def)
  have q: "q < 140" using qr lt by simp
  have "unat (dsize d div 512 + 1) = q + 1" using q by (simp add: q_def unat_div unat_u32_add)
  then have u: "unat off = (q + 1) * 512" using q unfolding off by (subst unat_mult_lem [THEN iffD1]) simp_all
  then show "unat (dsize d) \<le> unat off" using qr by simp
  have K: "k * 512 < unat off \<longleftrightarrow> k * 512 < unat (dsize d)" for k using u qr by (cases "k \<le> q") auto
  moreover have "unat off \<le> 71680" using u q by simp
  ultimately show "sized m (d\<lparr>dsize := off\<rparr>)" using s K [of 12] by (simp add: sized_def)
qed

lemma content_resize: "unat (dsize d) \<le> unat off \<Longrightarrow> take (unat (dsize d)) (content m (d\<lparr>dsize := off\<rparr>)) = content m d"
  by (simp add: content_def take_map)

lemma finish_ok:
  assumes h: "image_holds s root fl" and r: "length root mod 512 \<noteq> 0" "length root < 71680" and n: "length fl \<le> 198"
    and room: "used_blocks root fl \<le> 1000"
  obtains s' where "bnd (rinode ROOTINO s) (\<lambda>din.
      let off = (dsize din div of_nat BSIZE + 1) * of_nat BSIZE
      in bnd (winode ROOTINO (din\<lparr>dsize := off\<rparr>) s) (\<lambda>s. mk_balloc (freeblock s) s)) = Inr s'"
    "files_ok (img s') (used_blocks root fl) (inode_at s')"
    "\<And>b. b < 4096 \<Longrightarrow> map_bit (img s' ! 58) b \<longleftrightarrow> b < used_blocks root fl"
    "take (length root) (content (img s') (inode_at s' 1)) = root"
    "\<And>k. k < length fl \<Longrightarrow> is_file T_FILE (fl ! k) s' (k + 2)" "\<And>b. b < 32 \<Longrightarrow> img s' ! b = img s ! b"
proof -
  let ?d = "inode_at s 1" and ?fb = "used_blocks root fl"
  have f: "is_file T_DIR root s 1" and F: "files_ok (img s) ?fb (inode_at s)" and fb: "unat (freeblock s) = ?fb"
    using h by (auto simp: image_holds_def disk_ok_def)
  note sz = is_file_size [OF f]
  define off where "off = (dsize ?d div 512 + 1) * 512"
  have so: "sized (img s) ?d" "image_ok (img s) ?fb (inode_at s)" using F by (auto simp: files_ok_def)
  have S: "sized (img s) (?d\<lparr>dsize := off\<rparr>)" "length root \<le> unat off"
    using sized_round_up [OF so(1) _ _ off_def] r sz by simp_all
  define D where "D = (inode_at s)(1 := ?d\<lparr>dsize := off\<rparr>)"
  have "image_ok (img s) ?fb D" unfolding D_def image_ok_resize using so(2) by simp
  then have FD: "files_ok (img s) ?fb D" using F S(1) by (simp add: files_ok_def D_def)
  have one: "(1 :: nat) < 208" by simp
  have ri: "rinode ROOTINO s = Inr ?d" using rinode_eq [OF so(2) one] by simp
  obtain s1 where W: "winode (of_nat 1) (?d\<lparr>dsize := off\<rparr>) s = Inr s1" "files_ok (img s1) ?fb (inode_at s1)"
      "\<And>j. j < 208 \<Longrightarrow> inode_at s1 j = D j" "\<And>j. j < 208 \<Longrightarrow> content (img s1) (D j) = content (img s) (D j)"
      "freeblock s1 = freeblock s" "freeinode s1 = freeinode s" "\<And>b. b < 32 \<Longrightarrow> img s1 ! b = img s ! b"
    by (rule winode_ok [OF FD one D_def]) (rule that)
  define bm :: block where "bm = fold (\<lambda>i b. b[i div 8 := (b ! (i div 8)) OR push_bit (i mod 8) 1]) [0..<?fb] zeroes"
  define s' where "s' = s1\<lparr>img := (img s1)[58 := bm]\<rparr>"
  have bm: "length bm = 512" "\<And>j. j < 4096 \<Longrightarrow> map_bit bm j \<longleftrightarrow> j < ?fb" using bitmap_bits [of ?fb] room by (simp_all add: bm_def)
  have l: "length (img s1) = 1000" using W(2) by (simp add: files_ok_def image_ok_def)
  have "sint (of_nat ?fb :: u32) = int ?fb" using room by (simp add: signed_of_nat signed_take_bit_int_eq_self)
  moreover have "freeblock s1 = of_nat ?fb" using W(5) by (simp add: fb [symmetric])
  ultimately have si: "sint (freeblock s1) = int ?fb" by simp
  have "sect 58 = 58" by (subst sect_eq) simp_all
  then have B: "mk_balloc (freeblock s1) s1 = Inr s'"
    using si l room by (simp add: mk_balloc_def wsect_def Let_def s'_def bm_def mk_sb_def)
  have at: "inode_at s' j = D j" if "j < 208" for j using W(3) [OF that] that by (simp add: inode_at_def s'_def)
  have b58: "(58 :: nat) < 59" by simp
  note M = meta_content [OF W(2) b58 bm(1)]
  have "files_ok (img s') ?fb (inode_at s') = files_ok (img s') ?fb (inode_at s1)"
    by (rule files_ok_cong) (simp add: at W(3))
  then have "files_ok (img s') ?fb (inode_at s')" using M(1) by (simp add: s'_def)
  moreover have ct: "content (img s') (inode_at s' j) = content (img s) (D j)" if "j < 208" for j
    using M(2) [OF that] W(3,4) [OF that] at [OF that] by (simp add: s'_def)
  have "take (length root) (content (img s') (inode_at s' 1)) = root"
    using ct [OF one] content_resize [of ?d off "img s"] S(2) sz f by (simp add: D_def is_file_def)
  moreover have "is_file T_FILE (fl ! k) s' (k + 2)" if "k < length fl" for k
    using ct [of "k + 2"] at [of "k + 2"] h that n by (simp add: image_holds_def is_file_def D_def)
  moreover have "img s' ! b = img s ! b" if "b < 32" for b using W(7) that by (simp add: s'_def)
  moreover have "map_bit (img s' ! 58) b \<longleftrightarrow> b < ?fb" if "b < 4096" for b using bm(2) [OF that] l by (simp add: s'_def)
  ultimately show thesis using ri W(1) B by (intro that [of s']) (simp_all add: off_def)
qed

lemma sb_of_put: "length b = 512 \<Longrightarrow> sb_of (put_sb v b) = v"
  by (simp add: sb_of_def put_sb_def le32_put32_other)

lemma start_ok:
  obtains s0 s where "foldm (\<lambda>i. wsect (of_nat i) zeroes) [0..<FSSIZE] \<lparr>img = [], freeinode = 1, freeblock = of_nat nmeta\<rparr> = Inr s0"
    "bnd (wsect 1 (put_sb mk_sb zeroes) s0) (mk_ialloc T_DIR) = Inr (ROOTINO, s)"
    "image_holds s [] []" "sb_of (img s ! 1) = mk_sb"
proof -
  let ?i = "\<lparr>img = [], freeinode = 1, freeblock = of_nat nmeta\<rparr>"
  define s0 where "s0 = ?i\<lparr>img := replicate 1000 zeroes\<rparr>"
  define s1 where "s1 = s0\<lparr>img := (replicate 1000 zeroes)[1 := put_sb mk_sb zeroes]\<rparr>"
  have z: "foldm (\<lambda>i. wsect (of_nat i) zeroes) [0..<FSSIZE] ?i = Inr s0" using zero_fill [of 1000 ?i] by (simp add: s0_def)
  have w: "wsect 1 (put_sb mk_sb zeroes) s0 = Inr s1" by (simp add: wsect_def sect_def Let_def s0_def s1_def)
  have l: "length (put_sb mk_sb zeroes) = 512" by (simp add: put_sb_def zeroes_def)
  have E: "disk_ok s1" "\<And>j. j < 208 \<Longrightarrow> unused (inode_at s1 j)"
    using empty_image [of s1, OF _ l] by (simp_all add: s1_def s0_def)
  have one: "(1 :: nat) < 208" "freeinode s1 = of_nat 1" by (simp_all add: s1_def s0_def)
  obtain s where A: "mk_ialloc T_DIR s1 = Inr (of_nat 1, s)" "disk_ok s" "is_file T_DIR [] s 1"
      "\<And>j ty c. j < 208 \<Longrightarrow> j \<noteq> 1 \<Longrightarrow> is_file ty c s1 j \<Longrightarrow> is_file ty c s j"
      "\<And>j. j < 208 \<Longrightarrow> j \<noteq> 1 \<Longrightarrow> inode_at s j = inode_at s1 j" "freeblock s = freeblock s1"
      "freeinode s = of_nat (1 + 1)" "\<And>b. b < 32 \<Longrightarrow> img s ! b = img s1 ! b"
    by (rule new_inode_ok [OF E(1) one E(2) [OF one(1)]]) (rule that)
  have "image_holds s [] []" using A E(2) by (simp add: image_holds_def used_blocks_def blocks_def s1_def s0_def)
  moreover have "sb_of (img s ! 1) = mk_sb" using A(8) [of 1] sb_of_put by (simp add: s1_def zeroes_def)
  ultimately show thesis using that [OF z, of s] w A(1) by simp
qed

text \<open>
  C7: The image that \<open>mkfs\<close> makes.  When the files can be read, have no slash in their names, are
  not larger than a file may be, and all fit on the disk together with the root directory, \<open>mkfs\<close>
  ends without an error.  In its image the kernel reads the superblock that \<open>mkfs\<close> computed; the
  block references of all inodes are different blocks, between the first data block and the first
  free one, and every file has exactly the blocks of its size; the free map marks exactly the
  blocks in front of the first free one; the root directory begins with the entries for itself,
  its parent and the files in order; and the inodes from 2 on hold the contents of the files.  The
  number of entries is not a multiple of the 32 that fit in a block.
\<close>

theorem mkfs_image:
  assumes "list_all file_ok files" "length files \<le> 198" "(length files + 2) mod 32 \<noteq> 0"
    and "used = used_blocks (dot_entry 1 @ dot_entry 2 @ entries 2 files) (map body files)" "used \<le> 1000"
  shows "\<exists>s. mkfs_main files = Inr s \<and> sb_of (img s ! 1) = mk_sb \<and> files_ok (img s) used (inode_at s) \<and>
    (\<forall>b<4096. map_bit (img s ! 58) b \<longleftrightarrow> b < used) \<and>
    take (16 * (length files + 2)) (content (img s) (inode_at s 1)) = dot_entry 1 @ dot_entry 2 @ entries 2 files \<and>
    (\<forall>k<length files. is_file T_FILE (body (files ! k)) s (k + 2))"
proof -
  let ?root = "dot_entry 1 @ dot_entry 2 @ entries 2 files"
  obtain s0 s1 where S: "foldm (\<lambda>i. wsect (of_nat i) zeroes) [0..<FSSIZE] \<lparr>img = [], freeinode = 1, freeblock = of_nat nmeta\<rparr> = Inr s0"
      "bnd (wsect 1 (put_sb mk_sb zeroes) s0) (mk_ialloc T_DIR) = Inr (ROOTINO, s1)"
      "image_holds s1 [] []" "sb_of (img s1 ! 1) = mk_sb"
    by (rule start_ok) (rule that)
  have dot: "length (dot_entry 1) = 16" "length (dot_entry 2) = 16" by (simp_all add: dot_entry_def dirent_bytes_def)
  have room: "used_blocks ?root (map body files) \<le> 1000" using assms(4,5) by simp
  have "used_blocks (dot_entry 1) [] \<le> used_blocks ?root (map body files)" "used_blocks (dot_entry 1 @ dot_entry 2) [] \<le> used_blocks ?root (map body files)"
    using used_prefix [of "dot_entry 1" "[]"] used_prefix [of "dot_entry 1 @ dot_entry 2" "[]"] by simp_all
  then have r12: "used_blocks ([] @ dot_entry 1) [] \<le> 1000" "used_blocks (dot_entry 1 @ dot_entry 2) [] \<le> 1000" using room by simp_all
  have le: "length ([] @ dot_entry 1) \<le> 71680" "length (dot_entry 1 @ dot_entry 2) \<le> 71680" unfolding length_append dot by simp_all
  have none: "length ([] :: u8 list list) \<le> 198" by simp
  obtain s2 where A: "iappend ROOTINO (dot_entry 1) s1 = Inr s2" "image_holds s2 ([] @ dot_entry 1) []"
      "\<And>b. b < 32 \<Longrightarrow> img s2 ! b = img s1 ! b"
    by (rule append_root [OF S(3) none le(1) r12(1)]) (rule that)
  have A2: "image_holds s2 (dot_entry 1) []" using A(2) by simp
  obtain s3 where B: "iappend ROOTINO (dot_entry 2) s2 = Inr s3" "image_holds s3 (dot_entry 1 @ dot_entry 2) []"
      "\<And>b. b < 32 \<Longrightarrow> img s3 ! b = img s2 ! b"
    by (rule append_root [OF A2 none le(2) r12(2)]) (rule that)
  have e2: "length ([] :: u8 list list) + 2 = 2" by simp
  have q: "length ([] :: u8 list list) + length files \<le> 198" "length (dot_entry 1 @ dot_entry 2) + 16 * length files \<le> 71680"
    unfolding length_append dot using assms(2) by simp_all
  obtain s4 where C: "foldm add_file files s3 = Inr s4" "image_holds s4 ?root (map body files)" "\<forall>b<32. img s4 ! b = img s3 ! b"
    using add_files_ok [OF B(2) assms(1), unfolded e2 append_Nil append_assoc, OF q room] by blast
  have lr: "length ?root = 16 * (length files + 2)" unfolding length_append dot length_entries by simp
  have "16 * (length files + 2) mod 512 = 16 * ((length files + 2) mod 32)"
    using mult_mod_right [of "16 :: nat" "length files + 2" 32] by simp
  then have "length ?root mod 512 \<noteq> 0" unfolding lr using assms(3) by simp
  moreover have "length ?root < 71680" "length (map body files) \<le> 198" unfolding lr using assms(2) by simp_all
  ultimately obtain s where E: "bnd (rinode ROOTINO s4) (\<lambda>din.
      let off = (dsize din div of_nat BSIZE + 1) * of_nat BSIZE
      in bnd (winode ROOTINO (din\<lparr>dsize := off\<rparr>) s4) (\<lambda>s. mk_balloc (freeblock s) s)) = Inr s"
    "files_ok (img s) (used_blocks ?root (map body files)) (inode_at s)"
    "\<And>b. b < 4096 \<Longrightarrow> map_bit (img s ! 58) b \<longleftrightarrow> b < used_blocks ?root (map body files)"
    "take (length ?root) (content (img s) (inode_at s 1)) = ?root"
    "\<And>k. k < length (map body files) \<Longrightarrow> is_file T_FILE (map body files ! k) s (k + 2)" "\<And>b. b < 32 \<Longrightarrow> img s ! b = img s4 ! b"
    by (rule finish_ok [OF C(2) _ _ _ room]) (rule that)
  have "mkfs_main files = Inr s"
    using S(1,2) A(1) B(1) C(1) E(1) unfolding mkfs_main_def Let_def by (cases "wsect 1 (put_sb mk_sb zeroes) s0") simp_all
  moreover have "img s ! 1 = img s1 ! 1" using A(3) B(3) C(3) E(6) by simp
  ultimately show ?thesis using S(4) E(2-5) unfolding assms(4) lr by auto
qed

text \<open>Two files, one of them with a leading underscore in its name.\<close>

theorem mkfs_image_witness:
  "\<exists>s. mkfs_main [([95, 115, 104], Some [[1, 2], [3]]), ([97], Some [])] = Inr s \<and>
     is_file T_FILE [1, 2, 3] s 2 \<and> is_file T_FILE [] s 3 \<and>
     take 64 (content (img s) (inode_at s 1)) =
       dot_entry 1 @ dot_entry 2 @ dirent_bytes \<lparr>de_inum = 2, de_name = [115, 104, 0, 0, 0, 0, 0, 0, 0, 0, 0, 0, 0, 0]\<rparr> @
       dirent_bytes \<lparr>de_inum = 3, de_name = [97, 0, 0, 0, 0, 0, 0, 0, 0, 0, 0, 0, 0, 0]\<rparr>"
proof -
  let ?fs = "[([95, 115, 104], Some [[1, 2], [3]]), ([97], Some [])] :: (u8 list \<times> u8 list list option) list"
  let ?u = "used_blocks (dot_entry 1 @ dot_entry 2 @ entries 2 ?fs) (map body ?fs)"
  have u: "?u = 61" by (simp add: used_blocks_def blocks_def body_def dot_entry_def dirent_bytes_def)
  have e: "entries 2 ?fs = dirent_bytes \<lparr>de_inum = 2, de_name = [115, 104, 0, 0, 0, 0, 0, 0, 0, 0, 0, 0, 0, 0]\<rparr> @
       dirent_bytes \<lparr>de_inum = 3, de_name = [97, 0, 0, 0, 0, 0, 0, 0, 0, 0, 0, 0, 0, 0]\<rparr>"
    by code_simp
  have b: "body (?fs ! 0) = [1, 2, 3]" "body (?fs ! 1) = []" by (simp_all add: body_def)
  obtain s where s: "mkfs_main ?fs = Inr s"
      "take (16 * (length ?fs + 2)) (content (img s) (inode_at s 1)) = dot_entry 1 @ dot_entry 2 @ entries 2 ?fs"
      "\<forall>k<length ?fs. is_file T_FILE (body (?fs ! k)) s (k + 2)"
    using mkfs_image [of ?fs ?u] u by (auto simp: file_ok_def body_def)
  have "is_file T_FILE [1, 2, 3] s 2" "is_file T_FILE [] s 3" using s(3) [rule_format, of 0] s(3) [rule_format, of 1] b by (simp_all add: numeral_2_eq_2 numeral_3_eq_3)
  then show ?thesis using s(1,2) unfolding e by (intro exI [of _ s]) simp
qed

end
