(* ===== verification/Spec2Isabelle.thy ===== *)
theory Spec2Isabelle
  imports SpinProps KallocProps SchedProps ProcProps LogProps Trap PipeProps ConsoleProps Grep UserLib FsProps
    ShellPrint VmProps SyscallProps UmallocProps MkfsProps
begin

text \<open>
  A verification of a customised xv6: the teaching kernel for the x86 with four scheduling
  policies (\<^verbatim>\<open>DEFAULT\<close>, \<^verbatim>\<open>PBS\<close>, \<^verbatim>\<open>FCFS\<close> and \<^verbatim>\<open>MLFQ\<close>, chosen when it is built), its disk image
  builder and some of its user programs.  File names below are those under \<^verbatim>\<open>src/\<close>.

  \<^bold>\<open>The system.\<close>  Processes run in user memory and enter the kernel by a trap (\<^verbatim>\<open>trap.c\<close>).  A
  system call fetches its arguments from user memory (\<^verbatim>\<open>syscall.c\<close>) and works on processes
  (\<^verbatim>\<open>sysproc.c\<close>, \<^verbatim>\<open>proc.c\<close>) or files (\<^verbatim>\<open>sysfile.c\<close>).  Files are inodes, pipes or the console; inodes
  are kept by the file system (\<^verbatim>\<open>fs.c\<close>) on top of the log (\<^verbatim>\<open>log.c\<close>), the buffer cache (\<^verbatim>\<open>bio.c\<close>) and
  the disk.  The scheduler gives the CPU to runnable processes and takes it back at timer ticks.
  All of it rests on the page allocator (\<^verbatim>\<open>kalloc.c\<close>), page tables (\<^verbatim>\<open>vm.c\<close>), spin locks and sleep
  locks.

  \<^bold>\<open>How the code is modelled.\<close>
  \<^item> C integers keep their width; an \<open>int\<close> is read with \<open>sint\<close> where it is compared.
  \<^item> A routine maps the state to \<open>stop + result\<close>: \<open>Inl\<close> is where the sequential run ends (a
    \<open>panic\<close>, a spin on a lock that is taken, a \<open>sleep\<close>, or a read outside of what the model
    covers).  A routine that sleeps is modelled in pieces, up to the sleep and from the wake-up
    on; the assembly \<open>swtch\<close> is the boundary between the pieces.
  \<^item> The globals of the components are records, each extending the one of the component it
    needs: \<open>mach\<close>, \<open>kst\<close> (free pages), \<open>pst\<close> (process table and queues), \<open>sst\<close> (locks), \<open>bst\<close>
    (buffers and disk), \<open>lst\<close> (log), \<open>ist\<close> (inodes), \<open>cst\<close> (console), \<open>flst\<close> (files and pipes),
    \<open>plst\<close>, \<open>tst\<close> (ticks and gates).
  \<^item> Pointers into tables are indices, null is \<open>None\<close>; page tables, the free list, trap frames
    and kernel stacks are addresses in a word memory.

  \<^bold>\<open>Theories, by component.\<close>
  \<^item> \<open>Prelude\<close>, \<open>Bytes\<close>, \<open>Fifo\<close>, \<open>Ring\<close>: shared vocabulary, little-endian fields, the contract of
    a bounded queue (locale \<open>fifo\<close>, interpreted on the run queues, the pipe and the console
    input), rings with free-running counters.
  \<^item> \<open>Spinlock\<close>, \<open>SpinProps\<close> (\<^verbatim>\<open>spinlock.c\<close>): the lock operations, and a step relation for any
    number of CPUs on one lock: mutual exclusion in every reachable state.
  \<^item> \<open>Kalloc\<close>, \<open>KallocProps\<close> (\<^verbatim>\<open>kalloc.c\<close>): \<open>kfree\<close>/\<open>kalloc\<close> round trip; \<open>kinit1\<close> ends and frees
    exactly the whole pages of its range.
  \<^item> \<open>ProcTable\<close>, \<open>RunQueue\<close>, \<open>ProcLife\<close>, \<open>ProcProps\<close> (\<^verbatim>\<open>proc.c\<close>): the table, the queues, the life
    of a process; \<open>wakeup\<close>, \<open>kill\<close> and \<open>allocproc\<close> on every branch.
  \<^item> \<open>Scheduler\<close>, \<open>SchedPolicy\<close>, \<open>MlfqInv\<close>, \<open>MlfqRun\<close>, \<open>SchedProps\<close> (\<open>scheduler\<close>): what each policy
    picks (locale \<open>best_scan\<close>, interpreted on the two policies that scan the table), the
    invariant of the run queues over a whole turn, and where the queues lose a process.
  \<^item> \<open>Sleeplock\<close>, \<open>Bio\<close>, \<open>BioInv\<close>, \<open>BioOps\<close>, \<open>BioQuiet\<close>, \<open>BioBoot\<close> (\<^verbatim>\<open>sleeplock.c\<close>, \<^verbatim>\<open>bio.c\<close>,
    \<^verbatim>\<open>memide.c\<close>): the cache as an abstract sequence, and what readers see of the disk.
  \<^item> \<open>Log\<close>, \<open>LogInv\<close>, \<open>LogCrash\<close>, \<open>LogRecover\<close>, \<open>LogTx\<close>, \<open>LogProps\<close> (\<^verbatim>\<open>log.c\<close>): commits are atomic
    under a crash after any prefix of their block writes, and durable at \<open>end_op\<close>; where the log
    is overcommitted.
  \<^item> \<open>Str\<close>, \<open>Fs\<close>, \<open>FsData\<close>, \<open>FsTx\<close>, \<open>FsProps\<close> (\<^verbatim>\<open>string.c\<close>, \<^verbatim>\<open>fs.c\<close>): the block map, inode round trip,
    path elements.
  \<^item> \<open>Mkfs\<close>, \<open>MkfsInv\<close>, \<open>MkfsFiles\<close>, \<open>MkfsProps\<close> (\<^verbatim>\<open>mkfs.c\<close>): the image holds the files of the
    command line, no block is referenced twice, and the free map is exact, as the kernel's
    \<open>readsb\<close>, inodes and \<open>map_bit\<close> read them.
  \<^item> \<open>Console\<close>, \<open>ConsoleProps\<close> (\<^verbatim>\<open>console.c\<close>, \<^verbatim>\<open>kbd.c\<close>, \<^verbatim>\<open>uart.c\<close>): the line editor refines editing
    of a list of bytes; the cursor stays on the screen.
  \<^item> \<open>File\<close>, \<open>PipeInv\<close>, \<open>PipeProps\<close> (\<^verbatim>\<open>file.c\<close>, \<^verbatim>\<open>pipe.c\<close>): a pipe refines an unbounded byte queue
    for any sequence of reads and writes, and delivers what was written.
  \<^item> \<open>Vm\<close>, \<open>VmMap\<close>, \<open>VmProps\<close> (\<^verbatim>\<open>vm.c\<close>): \<open>mappages\<close> maps exactly the pages of its range.
  \<^item> \<open>Syscall\<close>, \<open>SyscallProps\<close>, \<open>Exec\<close>, \<open>Sysfile\<close>, \<open>Trap\<close> (\<^verbatim>\<open>syscall.c\<close>, \<^verbatim>\<open>sysproc.c\<close>, \<^verbatim>\<open>exec.c\<close>,
    \<^verbatim>\<open>sysfile.c\<close>, \<^verbatim>\<open>trap.c\<close>): the handlers; user pointers are accepted exactly when their range is
    in the process.
  \<^item> \<open>UserLib\<close>, \<open>Grep\<close>, \<open>Umalloc\<close>, \<open>UmallocInv\<close>, \<open>UmallocProps\<close>, \<open>Shell\<close>, \<open>ShellProps\<close>,
    \<open>ShellPrint\<close> (\<^verbatim>\<open>ulib.c\<close>, \<^verbatim>\<open>printf.c\<close>, \<^verbatim>\<open>grep.c\<close>, \<^verbatim>\<open>umalloc.c\<close>, \<^verbatim>\<open>sh.c\<close>): \<open>grep\<close> decides its
    language, \<open>malloc\<close> and \<open>free\<close> return and keep the blocks disjoint, the shell's parser ends on
    every line and reads back every printed command.
  \<^item> \<open>BootState\<close>, \<open>BootSys\<close>: concrete states for the witnesses.

  \<^bold>\<open>Loops and fuel.\<close>  Loops are recursions with a termination proof, or structural over the
  indices that the code counts through.  The walks along the list of buffers have the number of
  buffers as fuel, which is the length of the list.  The recursion of the shell's parser is cut
  off after one level more than the line has bytes, and a theorem shows that the cut is never
  reached.  The loops of the user allocator over its circular list may run forever on a damaged
  list; they are partial, and the properties show that they return on a well-formed heap.

  \<^bold>\<open>Parameters.\<close>  The program linked into \<open>userinit\<close>, the behaviour of a process while it has the
  CPU, the bytes that devices deliver, the kernel's answers to \<open>sbrk\<close>, and the host's files for
  \<open>mkfs\<close> are arguments of the definitions that use them.

  \<^bold>\<open>Not modelled.\<close>  The assembly files and the boot loader; the drivers that work on device ports
  and registers (\<^verbatim>\<open>ide.c\<close> with its queue of requests, \<^verbatim>\<open>lapic.c\<close> with the clock but for \<open>lapiceoi\<close>,
  \<^verbatim>\<open>ioapic.c\<close>, \<^verbatim>\<open>picirq.c\<close>, the initialisation of the serial port, \<open>seginit\<close>, \<open>idtinit\<close>); the tables of
  the firmware (\<^verbatim>\<open>mp.c\<close>); \<^verbatim>\<open>main.c\<close>, which calls the initialisations in order and starts the other
  CPUs; \<open>runcmd\<close> of the shell and the small user programs, which are
  sequences of system calls; and the test programs.  The file system runs on the memory disk of
  \<^verbatim>\<open>memide.c\<close>, the driver that the kernel can be built with in place of \<^verbatim>\<open>ide.c\<close>.  Apart from the lock, whose interleavings are
  modelled step by step, routines run one at a time between the places where they sleep.
\<close>

end
